(* ===== verification/Mozart_Prelude.thy ===== *)
theory Mozart_Prelude
  imports Main "HOL-Library.Word" "HOL-Library.Signed_Division"
begin

text \<open>
  Shared vocabulary of the development: C integers with their widths written out, the faults a C
  or C++ routine can run into, lists written by index as C arrays are, a generic FIFO run over
  queue operations, and reachable states with a locale for inductive invariants.
\<close>

named_theorems c_arith \<open>rules that remove wrap-around and truncating division where they are exact\<close>

section \<open>C integers\<close>

text \<open>
  Values of \<open>int\<close>, \<open>int64_t\<close> and \<open>long\<close> are \<^typ>\<open>int\<close>; \<open>s32\<close> and \<open>s64\<close> bring the mathematical
  result of an operation back to the two's complement range of 32 and 64 bits. A theorem that
  removes them shows at the same time that the C expression does not overflow.
\<close>

definition s32 :: "int \<Rightarrow> int" where
  "s32 x = (x + 2 ^ 31) mod 2 ^ 32 - 2 ^ 31"

definition s64 :: "int \<Rightarrow> int" where
  "s64 x = (x + 2 ^ 63) mod 2 ^ 64 - 2 ^ 63"

definition in_s32 :: "int \<Rightarrow> bool" where
  "in_s32 x \<longleftrightarrow> - (2 ^ 31) \<le> x \<and> x < 2 ^ 31"

definition in_s64 :: "int \<Rightarrow> bool" where
  "in_s64 x \<longleftrightarrow> - (2 ^ 63) \<le> x \<and> x < 2 ^ 63"

lemma s32_in_range [c_arith]: "in_s32 x \<Longrightarrow> s32 x = x"
  by (simp add: s32_def in_s32_def)

lemma s64_in_range [c_arith]: "in_s64 x \<Longrightarrow> s64 x = x"
  by (simp add: s64_def in_s64_def)

lemma s32_id: "- (2 ^ 31) \<le> x \<Longrightarrow> x < 2 ^ 31 \<Longrightarrow> s32 x = x"
  by (simp add: s32_def)

lemma s64_id: "- (2 ^ 63) \<le> x \<Longrightarrow> x < 2 ^ 63 \<Longrightarrow> s64 x = x"
  by (simp add: s64_def)

lemma in_s32_s32 [simp]: "in_s32 (s32 x)"
proof -
  have "0 \<le> (x + 2 ^ 31) mod 2 ^ 32" and "(x + 2 ^ 31) mod 2 ^ 32 < (2 :: int) ^ 32"
    by (rule pos_mod_sign, simp, rule pos_mod_bound, simp)
  then show ?thesis by (simp add: s32_def in_s32_def)
qed

text \<open>C's \<open>%\<close> and \<open>/\<close> truncate towards zero; on non-negative operands they are \<open>mod\<close> and \<open>div\<close>.\<close>

lemma smod_nonneg [c_arith]: "0 \<le> a \<Longrightarrow> 0 < b \<Longrightarrow> (a :: int) smod b = a mod b"
  by (cases "a = 0") (auto simp: smod_int_alt_def)

lemma sdiv_nonneg [c_arith]: "0 \<le> a \<Longrightarrow> 0 < b \<Longrightarrow> (a :: int) sdiv b = a div b"
  by (cases "a = 0") (auto simp: signed_divide_int_def)

lemma dvd_small_zero:
  assumes "(c :: int) dvd a" and "\<bar>a\<bar> < c"
  shows "a = 0"
proof (rule ccontr)
  assume "a \<noteq> 0"
  then have "\<bar>c\<bar> \<le> \<bar>a\<bar>" using assms(1) by (rule dvd_imp_le_int)
  with assms(2) show False by simp
qed

section \<open>Faults\<close>

text \<open>
  What a routine may do instead of returning: dereference a null pointer, access an array outside
  its bounds, throw \<open>std::out_of_range\<close> from a checked access, free or use memory that is not
  allocated, block for ever on a mutex that nobody will release, or abort the process on purpose
  (\<open>LOG_ALWAYS_FATAL\<close>).
\<close>

datatype c_fault = NullDeref | OutOfBounds | OutOfRange | Deadlock | BadAddress | Abort

type_synonym 'a c_result = "c_fault + 'a"

text \<open>Numbers of \<open>errno.h\<close>.\<close>

definition EIO :: int where
  "EIO = 5"

definition ENODEV :: int where
  "ENODEV = 19"

definition EINVAL :: int where
  "EINVAL = 22"

section \<open>Arrays written by index\<close>

fun write_at :: "'a list \<Rightarrow> nat \<Rightarrow> 'a list \<Rightarrow> 'a list" where
  "write_at xs i [] = xs"
| "write_at xs i (y # ys) = write_at (xs[i := y]) (Suc i) ys"

lemma length_write_at [simp]: "length (write_at xs i ys) = length xs"
  by (induction xs i ys rule: write_at.induct) auto

lemma nth_write_at:
  assumes "i + length ys \<le> length xs" and "k < length xs"
  shows "write_at xs i ys ! k = (if i \<le> k \<and> k < i + length ys then ys ! (k - i) else xs ! k)"
  using assms
proof (induction xs i ys arbitrary: k rule: write_at.induct)
  case (1 xs i)
  then show ?case by auto
next
  case (2 xs i y ys)
  then show ?case
    by (auto simp: nth_list_update nth_Cons')
qed

lemma write_at_append: "write_at xs i (ys @ zs) = write_at (write_at xs i ys) (i + length ys) zs"
  by (induction xs i ys rule: write_at.induct) auto

lemma write_at_all: "length ys = length xs \<Longrightarrow> write_at xs 0 ys = ys"
  by (rule nth_equalityI) (simp_all add: nth_write_at)

lemma upt_split: "[0..<a + b] = [0..<a] @ map (\<lambda>j. a + j) [0..<b]"
  by (induction b) auto

section \<open>First-in first-out runs\<close>

text \<open>
  A run of a queue: a producer offers a batch of elements and the queue takes as many as it has
  room for, or a consumer takes the oldest element. The run returns what was accepted, what was
  consumed and the final queue.
\<close>

datatype 'e queue_op = Offer "'e list" | Take

fun queue_run :: "('q \<Rightarrow> 'e list \<Rightarrow> 'e list \<times> 'q) \<Rightarrow> ('q \<Rightarrow> 'e option) \<Rightarrow> ('q \<Rightarrow> 'q)
    \<Rightarrow> 'e queue_op list \<Rightarrow> 'q \<Rightarrow> 'e list \<times> 'e list \<times> 'q" where
  "queue_run put peek deq [] q = ([], [], q)"
| "queue_run put peek deq (Offer es # ops) q =
     (let (acc, q1) = put q es; (ins, outs, q2) = queue_run put peek deq ops q1
      in (acc @ ins, outs, q2))"
| "queue_run put peek deq (Take # ops) q =
     (let (ins, outs, q2) = queue_run put peek deq ops (deq q)
      in (ins, (case peek q of None \<Rightarrow> outs | Some e \<Rightarrow> e # outs), q2))"

text \<open>
  The contract of a bounded queue seen by its clients: an invariant, the list of elements waiting,
  and what each operation does to that list.
\<close>

locale bounded_fifo =
  fixes invar :: "'q \<Rightarrow> bool"
    and elems :: "'q \<Rightarrow> 'e list"
    and room :: "'q \<Rightarrow> nat"
    and put :: "'q \<Rightarrow> 'e list \<Rightarrow> 'e list \<times> 'q"
    and peek :: "'q \<Rightarrow> 'e option"
    and deq :: "'q \<Rightarrow> 'q"
  assumes put_elems: "invar q \<Longrightarrow> put q es = (acc, q') \<Longrightarrow> elems q' = elems q @ acc"
    and put_prefix: "invar q \<Longrightarrow> put q es = (acc, q') \<Longrightarrow> acc = take (length acc) es"
    and put_progress: "invar q \<Longrightarrow> put q es = (acc, q') \<Longrightarrow> 0 < room q \<Longrightarrow> es \<noteq> [] \<Longrightarrow> acc \<noteq> []"
    and put_invar: "invar q \<Longrightarrow> put q es = (acc, q') \<Longrightarrow> invar q'"
    and peek_elems: "invar q \<Longrightarrow> peek q = (case elems q of [] \<Rightarrow> None | e # _ \<Rightarrow> Some e)"
    and deq_elems: "invar q \<Longrightarrow> elems (deq q) = tl (elems q)"
    and deq_invar: "invar q \<Longrightarrow> invar (deq q)"
begin

lemma peek_None_iff: "invar q \<Longrightarrow> peek q = None \<longleftrightarrow> elems q = []"
  by (simp add: peek_elems split: list.split)

lemma peek_Some_elems: "invar q \<Longrightarrow> peek q = Some e \<Longrightarrow> elems q = e # elems (deq q)"
  by (simp add: peek_elems deq_elems split: list.splits)

lemma queue_run_fifo:
  "invar q \<Longrightarrow> queue_run put peek deq ops q = (ins, outs, q')
    \<Longrightarrow> invar q' \<and> elems q @ ins = outs @ elems q'"
proof (induction ops arbitrary: q ins outs q')
  case Nil
  then show ?case by simp
next
  case (Cons op ops)
  show ?case
  proof (cases op)
    case (Offer es)
    obtain acc q1 where put: "put q es = (acc, q1)" by fastforce
    obtain ins1 outs1 q2 where run: "queue_run put peek deq ops q1 = (ins1, outs1, q2)"
      by (cases "queue_run put peek deq ops q1")
    have "invar q2 \<and> elems q1 @ ins1 = outs1 @ elems q2"
      using Cons.IH [OF put_invar [OF Cons.prems(1) put] run] .
    with Cons.prems Offer put run show ?thesis
      by (auto simp: put_elems [OF Cons.prems(1) put])
  next
    case Take
    obtain ins1 outs1 q2 where run: "queue_run put peek deq ops (deq q) = (ins1, outs1, q2)"
      by (cases "queue_run put peek deq ops (deq q)")
    have "invar q2 \<and> elems (deq q) @ ins1 = outs1 @ elems q2"
      using Cons.IH [OF deq_invar [OF Cons.prems(1)] run] .
    with Cons.prems Take run show ?thesis
      by (auto simp: peek_elems deq_elems split: list.splits option.splits)
  qed
qed

end

section \<open>Sequences of requests\<close>

text \<open>A component serves requests one after the other on its state until one of them faults.\<close>

fun serve_all :: "('r \<Rightarrow> 's \<Rightarrow> c_fault + 'g \<times> 's) \<Rightarrow> 'r list \<Rightarrow> 's \<Rightarrow> c_fault + 'g list \<times> 's" where
  "serve_all serve [] s = Inr ([], s)"
| "serve_all serve (r # rs) s = (case serve r s of
       Inl e \<Rightarrow> Inl e
     | Inr (g, s) \<Rightarrow> (case serve_all serve rs s of
           Inl e \<Rightarrow> Inl e
         | Inr (gs, s) \<Rightarrow> Inr (g # gs, s)))"

text \<open>
  The contract of a component whose requests keep an invariant: a request that satisfies \<open>pre\<close> keeps it,
  or ends in the fault \<open>may_fail\<close> gives a reason for.
\<close>

locale request_server =
  fixes inv :: "'s \<Rightarrow> bool"
    and pre :: "'r \<Rightarrow> bool"
    and may_fail :: "'r \<Rightarrow> c_fault \<Rightarrow> bool"
    and serve :: "'r \<Rightarrow> 's \<Rightarrow> c_fault + 'g \<times> 's"
  assumes serve_inv: "pre r \<Longrightarrow> inv s \<Longrightarrow> serve r s = Inr (g, s') \<Longrightarrow> inv s'"
    and serve_fault: "pre r \<Longrightarrow> inv s \<Longrightarrow> serve r s = Inl e \<Longrightarrow> may_fail r e"
begin

lemma serve_all_inv:
  "\<forall>r \<in> set rs. pre r \<Longrightarrow> inv s \<Longrightarrow> serve_all serve rs s = Inr (gs, s')
    \<Longrightarrow> inv s' \<and> length gs = length rs"
proof (induction rs arbitrary: s gs)
  case Nil
  then show ?case by simp
next
  case (Cons r rs)
  from Cons.prems(3) obtain g s1 gs1 where 1: "serve r s = Inr (g, s1)"
    and 2: "serve_all serve rs s1 = Inr (gs1, s')" and gs: "gs = g # gs1"
    by (auto split: sum.splits)
  have "inv s1" using serve_inv [OF _ Cons.prems(2) 1] Cons.prems(1) by simp
  from Cons.IH [OF _ this 2] Cons.prems(1) gs show ?case by simp
qed

lemma serve_all_fault:
  "\<forall>r \<in> set rs. pre r \<Longrightarrow> inv s \<Longrightarrow> serve_all serve rs s = Inl e \<Longrightarrow> \<exists>r \<in> set rs. may_fail r e"
proof (induction rs arbitrary: s)
  case Nil
  then show ?case by simp
next
  case (Cons r rs)
  show ?case
  proof (cases "serve r s")
    case (Inl e')
    with Cons.prems serve_fault [of r s e] show ?thesis by simp
  next
    case (Inr b)
    obtain g s1 where b: "b = (g, s1)" by (cases b)
    have "inv s1" using serve_inv [OF _ Cons.prems(2) Inr [unfolded b]] Cons.prems(1) by simp
    moreover have "serve_all serve rs s1 = Inl e"
      using Cons.prems(3) Inr b by (auto split: sum.splits)
    ultimately show ?thesis using Cons.IH [of s1] Cons.prems(1) by auto
  qed
qed

text \<open>Where nothing can fail, every sequence is served to its end.\<close>

lemma serve_all_total:
  assumes "\<forall>r \<in> set rs. pre r \<and> (\<forall>e. \<not> may_fail r e)" and "inv s"
  obtains gs s' where "serve_all serve rs s = Inr (gs, s')" "inv s'" "length gs = length rs"
proof (cases "serve_all serve rs s")
  case (Inl e)
  with serve_all_fault [OF _ assms(2) Inl] assms(1) show thesis by blast
next
  case (Inr b)
  obtain gs s' where "b = (gs, s')" by (cases b)
  with serve_all_inv [OF _ assms(2), of rs gs s'] Inr assms(1) that show thesis by blast
qed

end

section \<open>Transition systems\<close>

inductive reachable :: "('s \<Rightarrow> bool) \<Rightarrow> ('s \<Rightarrow> 's \<Rightarrow> bool) \<Rightarrow> 's \<Rightarrow> bool"
  for init :: "'s \<Rightarrow> bool" and step :: "'s \<Rightarrow> 's \<Rightarrow> bool" where
  reachable_init: "init s \<Longrightarrow> reachable init step s"
| reachable_step: "reachable init step s \<Longrightarrow> step s t \<Longrightarrow> reachable init step t"

lemma reachable_mono: "reachable init step s \<Longrightarrow> (\<And>t. init t \<Longrightarrow> init' t) \<Longrightarrow> reachable init' step s"
  by (induction rule: reachable.induct) (auto intro: reachable.intros)

locale inductive_invariant =
  fixes init :: "'s \<Rightarrow> bool" and step :: "'s \<Rightarrow> 's \<Rightarrow> bool" and inv :: "'s \<Rightarrow> bool"
  assumes inv_init: "init s \<Longrightarrow> inv s"
    and inv_step: "inv s \<Longrightarrow> step s t \<Longrightarrow> inv t"
begin

lemma reachable_inv: "reachable init step s \<Longrightarrow> inv s"
  by (induction rule: reachable.induct) (auto intro: inv_init inv_step)

end

end
