(* ===== verification/Sensor_Handles.thy ===== *)
theory Sensor_Handles
  imports Mozart_Prelude
begin

text \<open>
  The handle tables of the multi-HAL, \<open>sensors/multihal.cpp\<close> lines 54 to 124: every sensor of every
  sub-HAL gets a global handle, and two maps translate between it and the pair of module index and
  local handle. The theory shows that the order on the pairs is fit for a \<open>std::map\<close>, and that the
  two maps are inverse to each other.
\<close>

section \<open>Full handles and their order\<close>

datatype FullHandle = FullHandle (moduleIndex: int) (localHandle: int)

definition FullHandle_less :: "FullHandle \<Rightarrow> FullHandle \<Rightarrow> bool" where
  "FullHandle_less this that =
     (if moduleIndex this < moduleIndex that then True
      else if moduleIndex this > moduleIndex that then False
      else localHandle this < localHandle that)"

definition FullHandle_equal :: "FullHandle \<Rightarrow> FullHandle \<Rightarrow> bool" where
  "FullHandle_equal this that \<longleftrightarrow>
     moduleIndex this = moduleIndex that \<and> localHandle this = localHandle that"

lemma FullHandle_equal_iff [simp]: "FullHandle_equal a b \<longleftrightarrow> a = b"
  by (auto simp: FullHandle_equal_def intro: FullHandle.expand)

instantiation FullHandle :: linorder
begin

definition less_FullHandle :: "FullHandle \<Rightarrow> FullHandle \<Rightarrow> bool" where
  "less_FullHandle a b = FullHandle_less a b"

definition less_eq_FullHandle :: "FullHandle \<Rightarrow> FullHandle \<Rightarrow> bool" where
  "less_eq_FullHandle a b \<longleftrightarrow> FullHandle_less a b \<or> a = b"

instance
  by intro_classes
    (auto simp: less_FullHandle_def less_eq_FullHandle_def FullHandle_less_def
      intro: FullHandle.expand split: if_splits)

end

section \<open>The two maps and the counter\<close>

record handle_maps =
  global_to_full :: "int \<rightharpoonup> FullHandle"
  full_to_global :: "FullHandle \<rightharpoonup> int"
  next_global_handle :: int

definition initial_handles :: handle_maps where
  "initial_handles =
     \<lparr>global_to_full = Map.empty, full_to_global = Map.empty, next_global_handle = 1\<rparr>"

definition assign_global_handle :: "int \<Rightarrow> int \<Rightarrow> handle_maps \<Rightarrow> int \<times> handle_maps" where
  "assign_global_handle module_index local_handle s =
     (let global_handle = next_global_handle s;
          full_handle = FullHandle module_index local_handle
      in (global_handle,
          s\<lparr>next_global_handle := s32 (next_global_handle s + 1),
            full_to_global := (full_to_global s)(full_handle \<mapsto> global_handle),
            global_to_full := (global_to_full s)(global_handle \<mapsto> full_handle)\<rparr>))"

definition get_local_handle :: "handle_maps \<Rightarrow> int \<Rightarrow> int" where
  "get_local_handle s global_handle =
     (case global_to_full s global_handle of None \<Rightarrow> -1 | Some f \<Rightarrow> localHandle f)"

definition get_module_index :: "handle_maps \<Rightarrow> int \<Rightarrow> int" where
  "get_module_index s global_handle =
     (case global_to_full s global_handle of None \<Rightarrow> -1 | Some f \<Rightarrow> moduleIndex f)"

definition get_global_handle :: "handle_maps \<Rightarrow> FullHandle \<Rightarrow> int" where
  "get_global_handle s full_handle =
     (case full_to_global s full_handle of None \<Rightarrow> -1 | Some g \<Rightarrow> g)"

section \<open>The contract of a registry\<close>

fun register_all :: "('k \<Rightarrow> 's \<Rightarrow> int \<times> 's) \<Rightarrow> 'k list \<Rightarrow> 's \<Rightarrow> int list \<times> 's" where
  "register_all register [] s = ([], s)"
| "register_all register (k # ks) s =
     (let (g, s1) = register k s; (gs, s2) = register_all register ks s1 in (g # gs, s2))"

lemma register_all_append:
  "register_all register (ks @ ks') s =
    (let (gs, s1) = register_all register ks s; (gs', s2) = register_all register ks' s1
     in (gs @ gs', s2))"
  by (induction ks arbitrary: s) (simp_all add: case_prod_beta Let_def)

lemma length_register_all [simp]: "length (fst (register_all register ks s)) = length ks"
  by (induction ks arbitrary: s) (simp_all add: case_prod_beta Let_def)

text \<open>
  A registry hands out a fresh number for every key it is given, as long as it has numbers left, and
  can be asked in both directions.
\<close>

locale registry =
  fixes invar :: "'s \<Rightarrow> bool"
    and left :: "'s \<Rightarrow> nat"
    and register :: "'k \<Rightarrow> 's \<Rightarrow> int \<times> 's"
    and key_of :: "'s \<Rightarrow> int \<rightharpoonup> 'k"
    and number_of :: "'s \<Rightarrow> 'k \<rightharpoonup> int"
  assumes register_fresh:
      "invar s \<Longrightarrow> 0 < left s \<Longrightarrow> register k s = (g, s') \<Longrightarrow> key_of s g = None"
    and register_key:
      "invar s \<Longrightarrow> 0 < left s \<Longrightarrow> register k s = (g, s') \<Longrightarrow> key_of s' = (key_of s)(g \<mapsto> k)"
    and register_number:
      "invar s \<Longrightarrow> 0 < left s \<Longrightarrow> register k s = (g, s') \<Longrightarrow> number_of s' = (number_of s)(k \<mapsto> g)"
    and register_left:
      "invar s \<Longrightarrow> 0 < left s \<Longrightarrow> register k s = (g, s') \<Longrightarrow> left s' = left s - 1"
    and register_invar:
      "invar s \<Longrightarrow> 0 < left s \<Longrightarrow> register k s = (g, s') \<Longrightarrow> invar s'"
begin

lemma register_all_frame:
  "invar s \<Longrightarrow> length ks \<le> left s \<Longrightarrow> register_all register ks s = (gs, s')
    \<Longrightarrow> invar s' \<and> length gs = length ks
      \<and> (\<forall>g. key_of s g \<noteq> None \<longrightarrow> g \<notin> set gs \<and> key_of s' g = key_of s g)
      \<and> (\<forall>k. k \<notin> set ks \<longrightarrow> number_of s' k = number_of s k)"
proof (induction ks arbitrary: s gs s')
  case Nil
  then show ?case by simp
next
  case (Cons k ks)
  obtain g s1 where reg: "register k s = (g, s1)" by fastforce
  obtain gs1 s2 where all: "register_all register ks s1 = (gs1, s2)" by fastforce
  have pos: "0 < left s" using Cons.prems(2) by simp
  note laws = register_fresh [OF Cons.prems(1) pos reg] register_key [OF Cons.prems(1) pos reg]
    register_number [OF Cons.prems(1) pos reg] register_left [OF Cons.prems(1) pos reg]
    register_invar [OF Cons.prems(1) pos reg]
  have eqs: "gs = g # gs1" "s' = s2" using Cons.prems(3) by (simp_all add: reg all)
  have "length ks \<le> left s1" using laws(4) Cons.prems(2) by simp
  from Cons.IH [OF laws(5) this all] show ?case
    unfolding eqs laws(2,3) using laws(1) by (auto simp: fun_upd_apply split: if_splits)
qed

lemma register_all_roundtrip:
  "invar s \<Longrightarrow> length ks \<le> left s \<Longrightarrow> distinct ks \<Longrightarrow> register_all register ks s = (gs, s')
    \<Longrightarrow> i < length ks \<Longrightarrow> key_of s' (gs ! i) = Some (ks ! i) \<and> number_of s' (ks ! i) = Some (gs ! i)"
proof (induction ks arbitrary: s gs i)
  case Nil
  then show ?case by simp
next
  case (Cons k ks)
  obtain g s1 where reg: "register k s = (g, s1)" by fastforce
  obtain gs1 s2 where all: "register_all register ks s1 = (gs1, s2)" by fastforce
  have pos: "0 < left s" using Cons.prems(2) by simp
  note laws = register_key [OF Cons.prems(1) pos reg] register_number [OF Cons.prems(1) pos reg]
    register_left [OF Cons.prems(1) pos reg] register_invar [OF Cons.prems(1) pos reg]
  have eqs: "gs = g # gs1" "s' = s2" using Cons.prems(4) by (simp_all add: reg all)
  have len: "length ks \<le> left s1" using laws(3) Cons.prems(2) by simp
  show ?case
  proof (cases i)
    case 0
    have "key_of s2 g = key_of s1 g" "number_of s2 k = number_of s1 k"
      using register_all_frame [OF laws(4) len all] laws(1) Cons.prems(3) by auto
    with 0 laws(1,2) show ?thesis by (simp add: eqs)
  next
    case (Suc j)
    with Cons.IH [OF laws(4) len _ all [folded eqs(2)], of j] Cons.prems(3,5) show ?thesis
      by (simp add: eqs)
  qed
qed

end

section \<open>The handle tables are a registry\<close>

definition handle_inv :: "handle_maps \<Rightarrow> bool" where
  "handle_inv s \<longleftrightarrow> 1 \<le> next_global_handle s \<and> next_global_handle s < 2 ^ 31
     \<and> dom (global_to_full s) = {1..<next_global_handle s}
     \<and> (\<forall>f g. full_to_global s f = Some g \<longrightarrow> global_to_full s g = Some f)
     \<and> (\<forall>f g. global_to_full s g = Some f \<longrightarrow> (\<exists>g'. full_to_global s f = Some g' \<and> g \<le> g'))"

definition handles_left :: "handle_maps \<Rightarrow> nat" where
  "handles_left s = nat (2 ^ 31 - 1 - next_global_handle s)"

definition register_full :: "FullHandle \<Rightarrow> handle_maps \<Rightarrow> int \<times> handle_maps" where
  "register_full f = assign_global_handle (moduleIndex f) (localHandle f)"

lemma handle_inv_initial [simp]: "handle_inv initial_handles"
  by (auto simp: handle_inv_def initial_handles_def)

lemma assign_global_handle_eq:
  assumes "handle_inv s" and "0 < handles_left s"
  shows "assign_global_handle m l s = (next_global_handle s,
    \<lparr>global_to_full = (global_to_full s)(next_global_handle s \<mapsto> FullHandle m l),
     full_to_global = (full_to_global s)(FullHandle m l \<mapsto> next_global_handle s),
     next_global_handle = next_global_handle s + 1\<rparr>)"
proof -
  have "s32 (next_global_handle s + 1) = next_global_handle s + 1"
    using assms by (intro s32_id) (simp_all add: handle_inv_def handles_left_def)
  then show ?thesis by (simp add: assign_global_handle_def Let_def)
qed

lemma handle_inv_fresh: "handle_inv s \<Longrightarrow> global_to_full s (next_global_handle s) = None"
  by (auto simp: handle_inv_def domIff)

lemma handle_inv_assign:
  assumes "handle_inv s" and "0 < handles_left s"
  shows "handle_inv (snd (assign_global_handle m l s))"
proof -
  let ?n = "next_global_handle s"
  have n: "1 \<le> ?n" "?n < 2 ^ 31 - 1" and dom: "dom (global_to_full s) = {1..<?n}"
    and fg: "\<And>f g. full_to_global s f = Some g \<Longrightarrow> global_to_full s g = Some f"
    and gf: "\<And>f g. global_to_full s g = Some f \<Longrightarrow> \<exists>g'. full_to_global s f = Some g' \<and> g \<le> g'"
    using assms by (auto simp: handle_inv_def handles_left_def)
  have small: "g < ?n" if "global_to_full s g = Some f" for f g
    using dom that by (auto dest: domI)
  let ?f = "FullHandle m l"
  let ?F = "(full_to_global s)(?f \<mapsto> ?n)" and ?G = "(global_to_full s)(?n \<mapsto> ?f)"
  have "dom ?G = {1..<?n + 1}" using dom n(1) by auto
  moreover have "?G g = Some f" if "?F f = Some g" for f g
    using that fg [of f g] small [of g f] by (auto split: if_splits)
  moreover have "\<exists>g'. ?F f = Some g' \<and> g \<le> g'" if "?G g = Some f" for f g
  proof (cases "f = ?f")
    case True
    with that small [of g f] show ?thesis by (auto split: if_splits)
  next
    case False
    with that gf [of g f] show ?thesis by (auto split: if_splits)
  qed
  ultimately show ?thesis
    using n unfolding assign_global_handle_eq [OF assms] handle_inv_def by simp
qed

lemma register_full_eq:
  assumes "handle_inv s" and "0 < handles_left s" and "register_full f s = (g, s')"
  shows "g = next_global_handle s" "global_to_full s' = (global_to_full s)(g \<mapsto> f)"
    "full_to_global s' = (full_to_global s)(f \<mapsto> g)" "handles_left s' = handles_left s - 1"
    "handle_inv s'"
  using assms(3) handle_inv_assign [OF assms(1,2), of "moduleIndex f" "localHandle f"]
  by (auto simp: register_full_def assign_global_handle_eq [OF assms(1,2)] handles_left_def)

interpretation handle_table: registry handle_inv handles_left register_full
  global_to_full full_to_global
proof (unfold_locales, goal_cases)
  case (1 s k g s')
  from register_full_eq(1) [OF 1] 1(1) show ?case by (simp add: handle_inv_fresh)
next
  case (2 s k g s')
  then show ?case by (rule register_full_eq(2))
next
  case (3 s k g s')
  then show ?case by (rule register_full_eq(3))
next
  case (4 s k g s')
  then show ?case by (rule register_full_eq(4))
next
  case (5 s k g s')
  then show ?case by (rule register_full_eq(5))
qed

lemma register_all_numbers:
  "handle_inv s \<Longrightarrow> length fs \<le> handles_left s \<Longrightarrow> register_all register_full fs s = (gs, s')
    \<Longrightarrow> gs = map (\<lambda>i. next_global_handle s + int i) [0..<length fs]
      \<and> next_global_handle s' = next_global_handle s + int (length fs)"
proof (induction fs arbitrary: s gs)
  case Nil
  then show ?case by simp
next
  case (Cons f fs)
  obtain g s1 where reg: "register_full f s = (g, s1)" by fastforce
  obtain gs1 s2 where all: "register_all register_full fs s1 = (gs1, s2)" by fastforce
  have pos: "0 < handles_left s" using Cons.prems(2) by simp
  note laws = register_full_eq [OF Cons.prems(1) pos reg]
  have eqs: "gs = g # gs1" "s' = s2" using Cons.prems(3) by (simp_all add: reg all)
  have next1: "next_global_handle s1 = next_global_handle s + 1"
    using reg by (auto simp: register_full_def assign_global_handle_eq [OF Cons.prems(1) pos])
  have len: "length fs \<le> handles_left s1" using laws(4) Cons.prems(2) by simp
  note IH = Cons.IH [OF laws(5) len all [folded eqs(2)]]
  have "[0..<length (f # fs)] = 0 # map Suc [0..<length fs]"
    by (simp add: map_Suc_upt upt_conv_Cons del: upt_Suc)
  then have "map (\<lambda>i. next_global_handle s + int i) [0..<length (f # fs)]
      = next_global_handle s # map (\<lambda>i. next_global_handle s1 + int i) [0..<length fs]"
    unfolding next1 by (simp only: list.map map_map o_def int_Suc) (simp add: algebra_simps)
  then have "gs = map (\<lambda>i. next_global_handle s + int i) [0..<length (f # fs)]"
    unfolding eqs(1) laws(1) using IH by (simp only:)
  moreover have "next_global_handle s' = next_global_handle s + int (length (f # fs))"
    using conjunct2 [OF IH] unfolding next1 list.size by linarith
  ultimately show ?case ..
qed

text \<open>The tables of two sub-HALs with one sensor each, for the witnesses.\<close>

definition two_hals :: handle_maps where
  "two_hals = snd (register_all register_full [FullHandle 0 5, FullHandle 1 6] initial_handles)"

lemma two_hals_inv: "handle_inv two_hals"
proof -
  obtain gs s where run:
    "register_all register_full [FullHandle 0 5, FullHandle 1 6] initial_handles = (gs, s)"
    by fastforce
  have "length [FullHandle 0 5, FullHandle 1 6] \<le> handles_left initial_handles"
    by (simp add: handles_left_def initial_handles_def)
  from handle_table.register_all_frame [OF handle_inv_initial this run] show ?thesis
    unfolding two_hals_def run by simp
qed

section \<open>Properties\<close>

text \<open>
  \<open>operator<\<close> on full handles is a strict total order whose equivalence is \<open>operator==\<close>, so a
  \<open>std::map\<close> keyed by full handles keeps one entry for each pair of module and local handle.
\<close>

theorem FullHandle_order:
  "\<not> FullHandle_less a a
    \<and> \<not> (FullHandle_less a b \<and> FullHandle_less b a)
    \<and> (FullHandle_less a b \<and> FullHandle_less b c \<longrightarrow> FullHandle_less a c)
    \<and> (FullHandle_equal a b \<longleftrightarrow> \<not> FullHandle_less a b \<and> \<not> FullHandle_less b a)"
  using less_irrefl [of a] less_trans [of a b c] less_asym [of a b] less_linear [of a b]
  unfolding less_FullHandle_def FullHandle_equal_iff by blast

theorem FullHandle_order_witness:
  "FullHandle_less (FullHandle 0 9) (FullHandle 1 2) \<and> FullHandle_less (FullHandle 0 9) (FullHandle 1 5)"
proof -
  have "FullHandle_less (FullHandle 0 9) (FullHandle 1 2)" "FullHandle_less (FullHandle 1 2) (FullHandle 1 5)"
    by (simp_all add: FullHandle_less_def)
  with FullHandle_order [of "FullHandle 0 9" "FullHandle 1 2" "FullHandle 1 5"] show ?thesis by blast
qed

text \<open>
  Assigning a handle keeps the tables consistent. The new number is fresh, both directions find
  the new pair, and no other number and no other pair is affected.
\<close>

theorem assign_global_handle_correct:
  assumes "handle_inv s" and "next_global_handle s < 2 ^ 31 - 1"
    and "assign_global_handle m l s = (g, s')"
  shows "handle_inv s' \<and> get_module_index s g = -1 \<and> get_local_handle s g = -1
    \<and> get_module_index s' g = m \<and> get_local_handle s' g = l
    \<and> get_global_handle s' (FullHandle m l) = g
    \<and> (\<forall>g'. g' \<noteq> g \<longrightarrow> get_module_index s' g' = get_module_index s g'
                      \<and> get_local_handle s' g' = get_local_handle s g')
    \<and> (\<forall>f. f \<noteq> FullHandle m l \<longrightarrow> get_global_handle s' f = get_global_handle s f)"
proof -
  have left: "0 < handles_left s" using assms(2) by (simp add: handles_left_def)
  have "register_full (FullHandle m l) s = (g, s')"
    using assms(3) by (simp add: register_full_def)
  note eqs = register_full_eq [OF assms(1) left this]
  show ?thesis
    using eqs(5) handle_inv_fresh [OF assms(1)]
    by (simp add: get_module_index_def get_local_handle_def get_global_handle_def eqs(1-3))
qed

theorem assign_global_handle_correct_witness:
  "get_global_handle (snd (assign_global_handle 2 7 initial_handles)) (FullHandle 2 7) = 1"
proof -
  have "next_global_handle initial_handles < 2 ^ 31 - 1" by (simp add: initial_handles_def)
  moreover have "assign_global_handle 2 7 initial_handles
      = (1, snd (assign_global_handle 2 7 initial_handles))"
    by (simp add: assign_global_handle_def initial_handles_def Let_def)
  ultimately show ?thesis
    using assign_global_handle_correct [OF handle_inv_initial] by blast
qed

text \<open>
  The tables are a bijection. After the sensors of all sub-HALs were registered, each under its
  own pair, the handles are 1, 2, and so on; global handle and pair translate into each other
  without loss; and every number that was not handed out is reported as unknown.
\<close>

theorem handle_tables_bijective:
  assumes "distinct fs" and "length fs < 2 ^ 31 - 1"
    and "register_all register_full fs initial_handles = (gs, s)"
  shows "gs = map (\<lambda>i. 1 + int i) [0..<length fs]
    \<and> (\<forall>i < length fs. get_global_handle s (fs ! i) = 1 + int i
         \<and> FullHandle (get_module_index s (1 + int i)) (get_local_handle s (1 + int i)) = fs ! i)
    \<and> (\<forall>g. g < 1 \<or> int (length fs) < g \<longrightarrow> get_module_index s g = -1 \<and> get_local_handle s g = -1)"
proof (intro conjI allI impI)
  have len: "length fs \<le> handles_left initial_handles"
    using assms(2) by (simp add: handles_left_def initial_handles_def)
  note numbers = register_all_numbers [OF handle_inv_initial len assms(3)]
  show gs: "gs = map (\<lambda>i. 1 + int i) [0..<length fs]"
    using numbers by (simp add: initial_handles_def)
  fix i
  assume i: "i < length fs"
  note trip = handle_table.register_all_roundtrip [OF handle_inv_initial len assms(1,3) i]
  have "gs ! i = 1 + int i" using i by (simp add: gs)
  with trip show "get_global_handle s (fs ! i) = 1 + int i"
    and "FullHandle (get_module_index s (1 + int i)) (get_local_handle s (1 + int i)) = fs ! i"
    by (simp_all add: get_global_handle_def get_module_index_def get_local_handle_def)
next
  fix g :: int
  assume g: "g < 1 \<or> int (length fs) < g"
  have len: "length fs \<le> handles_left initial_handles"
    using assms(2) by (simp add: handles_left_def initial_handles_def)
  have "handle_inv s"
    using handle_table.register_all_frame [OF handle_inv_initial len assms(3)] by simp
  moreover have "next_global_handle s = 1 + int (length fs)"
    using register_all_numbers [OF handle_inv_initial len assms(3)] by (simp add: initial_handles_def)
  ultimately have "g \<notin> dom (global_to_full s)"
    using g by (auto simp: handle_inv_def)
  then show "get_module_index s g = -1" and "get_local_handle s g = -1"
    by (simp_all add: get_module_index_def get_local_handle_def domIff)
qed

theorem handle_tables_bijective_witness:
  "let s = snd (register_all register_full [FullHandle 0 5, FullHandle 1 5, FullHandle 1 0] initial_handles)
   in get_global_handle s (FullHandle 1 5) = 2 \<and> get_module_index s 4 = -1"
proof -
  let ?fs = "[FullHandle 0 5, FullHandle 1 5, FullHandle 1 0]"
  obtain gs s where run: "register_all register_full ?fs initial_handles = (gs, s)" by fastforce
  have h: "(\<forall>i < length ?fs. get_global_handle s (?fs ! i) = 1 + int i
         \<and> FullHandle (get_module_index s (1 + int i)) (get_local_handle s (1 + int i)) = ?fs ! i)"
    and "(\<forall>g. g < 1 \<or> int (length ?fs) < g \<longrightarrow> get_module_index s g = -1 \<and> get_local_handle s g = -1)"
    using handle_tables_bijective [OF _ _ run] by auto
  moreover from spec [OF h, of 1] have "get_global_handle s (FullHandle 1 5) = 2" by simp
  ultimately show ?thesis unfolding run by (simp add: Let_def)
qed

end
