(* ===== verification/Sensors_Types.thy ===== *)
theory Sensors_Types
  imports Mozart_Prelude
begin

text \<open>
  The data the multi-HAL exchanges with the framework and the sub-HALs. The constants of
  \<open>hardware/sensors.h\<close> are not part of this repository: they are a parameter of the model, of type
  \<open>sensors_h\<close>, with the documented facts about them as the predicate \<open>sensors_h_ok\<close>; \<open>android_9\<close> is
  an instance for the witnesses.
\<close>

record sensors_h =
  SENSOR_TYPE_META_DATA :: int
  SENSOR_TYPE_LIGHT :: int
  SENSOR_TYPE_TEMPERATURE :: int
  SENSOR_TYPE_PROXIMITY :: int
  SENSORS_DEVICE_API_VERSION_1_0 :: int
  SENSORS_DEVICE_API_VERSION_1_1 :: int
  SENSORS_DEVICE_API_VERSION_1_2 :: int
  SENSORS_DEVICE_API_VERSION_1_3 :: int
  SENSORS_DEVICE_API_VERSION_1_4 :: int
  SENSOR_FLAG_WAKE_UP :: "64 word"
  SENSOR_FLAG_ON_CHANGE_MODE :: "64 word"

definition sensors_h_ok :: "sensors_h \<Rightarrow> bool" where
  "sensors_h_ok H \<longleftrightarrow>
     0 < SENSORS_DEVICE_API_VERSION_1_0 H
     \<and> SENSORS_DEVICE_API_VERSION_1_0 H < SENSORS_DEVICE_API_VERSION_1_1 H
     \<and> SENSORS_DEVICE_API_VERSION_1_1 H < SENSORS_DEVICE_API_VERSION_1_2 H
     \<and> SENSORS_DEVICE_API_VERSION_1_2 H < SENSORS_DEVICE_API_VERSION_1_3 H
     \<and> SENSORS_DEVICE_API_VERSION_1_3 H < SENSORS_DEVICE_API_VERSION_1_4 H
     \<and> distinct [SENSOR_TYPE_META_DATA H, SENSOR_TYPE_LIGHT H, SENSOR_TYPE_TEMPERATURE H,
         SENSOR_TYPE_PROXIMITY H]"

definition android_9 :: sensors_h where
  "android_9 = \<lparr>SENSOR_TYPE_META_DATA = 0, SENSOR_TYPE_LIGHT = 5, SENSOR_TYPE_TEMPERATURE = 7,
     SENSOR_TYPE_PROXIMITY = 8,
     SENSORS_DEVICE_API_VERSION_1_0 = 16777217, SENSORS_DEVICE_API_VERSION_1_1 = 16842753,
     SENSORS_DEVICE_API_VERSION_1_2 = 16908289, SENSORS_DEVICE_API_VERSION_1_3 = 16973825,
     SENSORS_DEVICE_API_VERSION_1_4 = 17039361,
     SENSOR_FLAG_WAKE_UP = 1, SENSOR_FLAG_ON_CHANGE_MODE = 2\<rparr>"

lemma sensors_h_ok_android_9 [simp]: "sensors_h_ok android_9"
  by (simp add: sensors_h_ok_def android_9_def)

text \<open>
  \<open>sensors_event_t\<close>: the code reads and writes the fields \<open>sensor\<close>, \<open>type\<close> and, for meta-data
  events, \<open>meta_data.sensor\<close>; the rest of the structure is copied as it is.
\<close>

record 'p sensors_event =
  ev_sensor :: int
  ev_type :: int
  ev_meta_sensor :: int
  ev_payload :: 'p

text \<open>A normal event without a payload, for the witnesses.\<close>

definition plain_event :: "int \<Rightarrow> unit sensors_event" where
  "plain_event sensor = \<lparr>ev_sensor = sensor, ev_type = 1, ev_meta_sensor = 0, ev_payload = ()\<rparr>"

text \<open>\<open>sensor_t\<close>: the fields the code uses, and the rest of the description.\<close>

record 'i sensor =
  s_handle :: int
  s_type :: int
  s_maxDelay :: int
  s_minDelay :: int
  s_flags :: "64 word"
  s_info :: 'i

end
