(* ===== verification/Sensor_Device.thy ===== *)
theory Sensor_Device
  imports Sensor_Handles Sensors_Types
begin

text \<open>
  The device operations of the multi-HAL, \<open>sensors/multihal.cpp\<close> lines 176 to 328 and 394 to 561:
  a call of the framework names a sensor by its global handle, and the proxy device passes it on to
  the sub-HAL that owns the sensor. For sub-HALs older than version 1.1 the proxy also keeps the
  sampling period of a disabled sensor and sets it when the sensor is enabled.
\<close>

section \<open>State\<close>

text \<open>
  A sub-HAL is code outside this repository. The model records every call made to one, with the
  device pointer it is made through and all arguments; \<open>ret\<close>, a parameter of the operations, gives
  the \<open>int\<close> that the latest call of a history returns.
\<close>

record hw_device =
  dev_id :: nat
  dev_version :: int

datatype device_ptr = ProxyDevice | SubDevice nat

datatype 'p hal_call =
    Activate nat device_ptr int int
  | SetDelay nat device_ptr int int
  | Batch nat device_ptr int int int int
  | Flush nat device_ptr int
  | InjectSensorData nat device_ptr "'p sensors_event"
  | Close nat device_ptr

type_synonym 'p sub_hals = "'p hal_call list \<Rightarrow> int"

text \<open>
  \<open>batch_data\<close>: the constructor sets only \<open>empty\<close>; the other members are indeterminate until
  \<open>update_batch_data\<close>, which takes \<open>period_ns\<close> and \<open>timeout\<close> as \<open>int\<close>.
\<close>

record batch_data =
  b_empty :: bool
  b_handle :: int
  b_flags :: int
  b_period_ns :: int
  b_timeout :: int

definition new_batch_data :: "batch_data \<Rightarrow> batch_data" where
  "new_batch_data indeterminate = indeterminate\<lparr>b_empty := True\<rparr>"

definition update_batch_data :: "int \<Rightarrow> int \<Rightarrow> int \<Rightarrow> int \<Rightarrow> batch_data \<Rightarrow> batch_data" where
  "update_batch_data handle flags period_ns timeout b =
     b\<lparr>b_empty := False, b_handle := handle, b_flags := flags,
       b_period_ns := s32 period_ns, b_timeout := s32 timeout\<rparr>"

text \<open>
  The context and the file's static data. The three lists that \<open>lazy_init_sensors_list\<close> allocates
  are \<^const>\<open>None\<close> while their pointers are null.
\<close>

record ('p, 'i) multihal =
  hm :: handle_maps
  sub_hw_devices :: "hw_device list"
  global_sensors_list :: "'i sensor list option"
  sensors_batch_list :: "batch_data list option"
  sensors_enable_state :: "int list option"
  hal_calls :: "'p hal_call list"

definition hal_invoke :: "'p sub_hals \<Rightarrow> 'p hal_call \<Rightarrow> ('p, 'i) multihal \<Rightarrow> int \<times> ('p, 'i) multihal" where
  "hal_invoke ret c s =
     (ret (hal_calls s @ [c]), s\<lparr>hal_calls := hal_calls s @ [c]\<rparr>)"

section \<open>Looking up the device of a handle\<close>

definition get_v0_device_by_handle :: "('p, 'i) multihal \<Rightarrow> int \<Rightarrow> hw_device option" where
  "get_v0_device_by_handle s global_handle =
     (let sub_index = get_module_index (hm s) global_handle
      in if sub_index < 0 \<or> sub_index \<ge> int (length (sub_hw_devices s)) then None
         else Some (sub_hw_devices s ! nat sub_index))"

definition get_v1_device_by_handle :: "('p, 'i) multihal \<Rightarrow> int \<Rightarrow> hw_device option" where
  "get_v1_device_by_handle s global_handle =
     (let sub_index = get_module_index (hm s) global_handle
      in if sub_index < 0 \<or> sub_index \<ge> int (length (sub_hw_devices s)) then None
         else Some (sub_hw_devices s ! nat sub_index))"

definition get_device_version_by_handle :: "('p, 'i) multihal \<Rightarrow> int \<Rightarrow> int" where
  "get_device_version_by_handle s handle =
     (case get_v0_device_by_handle s handle of Some v0 \<Rightarrow> dev_version v0 | None \<Rightarrow> -1)"

definition halIsAPILevelCompliant :: "('p, 'i) multihal \<Rightarrow> int \<Rightarrow> int \<Rightarrow> bool" where
  "halIsAPILevelCompliant s handle level =
     (let version = get_device_version_by_handle s handle
      in version \<noteq> -1 \<and> version \<ge> level)"

definition apiNumToStr :: "sensors_h \<Rightarrow> int \<Rightarrow> string" where
  "apiNumToStr H version =
     (if version = SENSORS_DEVICE_API_VERSION_1_0 H then ''SENSORS_DEVICE_API_VERSION_1_0''
      else if version = SENSORS_DEVICE_API_VERSION_1_1 H then ''SENSORS_DEVICE_API_VERSION_1_1''
      else if version = SENSORS_DEVICE_API_VERSION_1_2 H then ''SENSORS_DEVICE_API_VERSION_1_2''
      else if version = SENSORS_DEVICE_API_VERSION_1_3 H then ''SENSORS_DEVICE_API_VERSION_1_3''
      else if version = SENSORS_DEVICE_API_VERSION_1_4 H then ''SENSORS_DEVICE_API_VERSION_1_4''
      else ''UNKNOWN'')"

section \<open>Operations of the context\<close>

definition activate :: "'p sub_hals \<Rightarrow> int \<Rightarrow> int \<Rightarrow> ('p, 'i) multihal \<Rightarrow> int \<times> ('p, 'i) multihal" where
  "activate ret handle enabled s =
     (let local_handle = get_local_handle (hm s) handle
      in case get_v0_device_by_handle s handle of
           Some v0 \<Rightarrow>
             (if local_handle \<ge> 0
              then hal_invoke ret (Activate (dev_id v0) (SubDevice (dev_id v0)) local_handle enabled) s
              else (- EINVAL, s))
         | None \<Rightarrow> (- EINVAL, s))"

definition setDelay :: "'p sub_hals \<Rightarrow> int \<Rightarrow> int \<Rightarrow> ('p, 'i) multihal \<Rightarrow> int \<times> ('p, 'i) multihal" where
  "setDelay ret handle ns s =
     (let local_handle = get_local_handle (hm s) handle
      in case get_v0_device_by_handle s handle of
           Some v0 \<Rightarrow>
             (if local_handle \<ge> 0
              then hal_invoke ret (SetDelay (dev_id v0) (SubDevice (dev_id v0)) local_handle ns) s
              else (- EINVAL, s))
         | None \<Rightarrow> (- EINVAL, s))"

text \<open>
  In the branch for sub-HALs without \<open>batch\<close>, the limits are read from the sensor list at the index
  of the module, and the global handle is passed on.
\<close>

definition batch :: "sensors_h \<Rightarrow> 'p sub_hals \<Rightarrow> int \<Rightarrow> int \<Rightarrow> int \<Rightarrow> int \<Rightarrow> ('p, 'i) multihal
    \<Rightarrow> (int \<times> ('p, 'i) multihal) c_result" where
  "batch H ret handle flags period_ns timeout s =
     (let local_handle = get_local_handle (hm s) handle
      in case get_v1_device_by_handle s handle of
           Some v1 \<Rightarrow>
             (if local_handle \<ge> 0 then
                (if halIsAPILevelCompliant s handle (SENSORS_DEVICE_API_VERSION_1_1 H)
                 then Inr (hal_invoke ret (Batch (dev_id v1) (SubDevice (dev_id v1)) local_handle
                             flags period_ns timeout) s)
                 else if period_ns < 0 \<or> timeout < 0 then Inr (- EINVAL, s)
                 else let sub_index = get_module_index (hm s) handle
                      in case global_sensors_list s of
                           None \<Rightarrow> Inl NullDeref
                         | Some l \<Rightarrow>
                             (if sub_index < 0 \<or> sub_index \<ge> int (length l) then Inl OutOfBounds
                              else let maxDelay = s_maxDelay (l ! nat sub_index);
                                       minDelay = s_minDelay (l ! nat sub_index);
                                       period_ns = (if period_ns < minDelay then minDelay
                                                    else if period_ns > maxDelay then maxDelay
                                                    else period_ns)
                                   in Inr (hal_invoke ret (SetDelay (dev_id v1)
                                             (SubDevice (dev_id v1)) handle period_ns) s)))
              else Inr (- EINVAL, s))
         | None \<Rightarrow> Inr (- EINVAL, s))"

definition flush :: "sensors_h \<Rightarrow> 'p sub_hals \<Rightarrow> int \<Rightarrow> ('p, 'i) multihal \<Rightarrow> int \<times> ('p, 'i) multihal" where
  "flush H ret handle s =
     (let local_handle = get_local_handle (hm s) handle
      in case get_v1_device_by_handle s handle of
           Some v1 \<Rightarrow>
             (if local_handle \<ge> 0 then
                (if halIsAPILevelCompliant s handle (SENSORS_DEVICE_API_VERSION_1_1 H)
                 then hal_invoke ret (Flush (dev_id v1) (SubDevice (dev_id v1)) local_handle) s
                 else (- EINVAL, s))
              else (- EINVAL, s))
         | None \<Rightarrow> (- EINVAL, s))"

definition inject_sensor_data :: "sensors_h \<Rightarrow> 'p sub_hals \<Rightarrow> device_ptr \<Rightarrow> 'p sensors_event
    \<Rightarrow> ('p, 'i) multihal \<Rightarrow> int \<times> ('p, 'i) multihal" where
  "inject_sensor_data H ret dev event s =
     (let local_handle = get_local_handle (hm s) (ev_sensor event)
      in case get_v1_device_by_handle s (ev_sensor event) of
           Some v1 \<Rightarrow>
             (if halIsAPILevelCompliant s (ev_sensor event) (SENSORS_DEVICE_API_VERSION_1_4 H)
                 \<and> local_handle \<ge> 0
              then hal_invoke ret (InjectSensorData (dev_id v1) dev event) s
              else (- EINVAL, s))
         | None \<Rightarrow> (- EINVAL, s))"

fun close_devices :: "'p sub_hals \<Rightarrow> hw_device list \<Rightarrow> ('p, 'i) multihal \<Rightarrow> ('p, 'i) multihal" where
  "close_devices ret [] s = s"
| "close_devices ret (dev # devs) s =
     close_devices ret devs (snd (hal_invoke ret (Close (dev_id dev) (SubDevice (dev_id dev))) s))"

definition close :: "'p sub_hals \<Rightarrow> ('p, 'i) multihal \<Rightarrow> int \<times> ('p, 'i) multihal" where
  "close ret s = (0, close_devices ret (sub_hw_devices s) s)"

section \<open>Entry points of the proxy device\<close>

definition device_close :: "'p sub_hals \<Rightarrow> ('p, 'i) multihal option \<Rightarrow> int \<times> ('p, 'i) multihal option" where
  "device_close ret ctx =
     (case ctx of
        None \<Rightarrow> (0, None)
      | Some s \<Rightarrow> (let (retval, s) = close ret s in (0, Some (s\<lparr>sub_hw_devices := []\<rparr>))))"

text \<open>\<open>array_index a i\<close> is the element \<open>a[i]\<close>, with the faults of a null pointer and a bad index.\<close>

definition array_index :: "'a list option \<Rightarrow> int \<Rightarrow> 'a c_result" where
  "array_index a i =
     (case a of
        None \<Rightarrow> Inl NullDeref
      | Some xs \<Rightarrow> (if 0 \<le> i \<and> i < int (length xs) then Inr (xs ! nat i) else Inl OutOfBounds))"

definition device_activate :: "sensors_h \<Rightarrow> 'p sub_hals \<Rightarrow> int \<Rightarrow> int \<Rightarrow> ('p, 'i) multihal
    \<Rightarrow> (int \<times> ('p, 'i) multihal) c_result" where
  "device_activate H ret handle enabled s =
     (let (activate_retval, s) = activate ret handle enabled s
      in if \<not> halIsAPILevelCompliant s handle (SENSORS_DEVICE_API_VERSION_1_1 H) then
           (let index = s32 (handle - 1)
            in case array_index (sensors_enable_state s) index of
                 Inl f \<Rightarrow> Inl f
               | Inr _ \<Rightarrow>
                   (let s = s\<lparr>sensors_enable_state :=
                          map_option (\<lambda>xs. xs[nat index := enabled]) (sensors_enable_state s)\<rparr>
                    in if enabled \<noteq> 0 then
                         (case array_index (sensors_batch_list s) index of
                            Inl f \<Rightarrow> Inl f
                          | Inr b \<Rightarrow>
                              (if \<not> b_empty b then
                                 (let (delay_retval, s) = setDelay ret handle (b_period_ns b) s;
                                      s = s\<lparr>sensors_batch_list := map_option
                                             (\<lambda>xs. xs[nat index := (xs ! nat index)\<lparr>b_empty := True\<rparr>])
                                             (sensors_batch_list s)\<rparr>
                                  in Inr (if delay_retval \<noteq> 0 \<or> activate_retval \<noteq> 0 then 1 else 0, s))
                               else Inr (activate_retval, s)))
                       else Inr (activate_retval, s)))
         else Inr (activate_retval, s))"

definition device_setDelay :: "'p sub_hals \<Rightarrow> int \<Rightarrow> int \<Rightarrow> ('p, 'i) multihal
    \<Rightarrow> int \<times> ('p, 'i) multihal" where
  "device_setDelay ret handle ns s = setDelay ret handle ns s"

text \<open>
  The test \<open>&sensors_batch_list[index] == NULL\<close> holds only for the null pointer itself, at index 0.
\<close>

definition device_batch :: "sensors_h \<Rightarrow> 'p sub_hals \<Rightarrow> int \<Rightarrow> int \<Rightarrow> int \<Rightarrow> int \<Rightarrow> ('p, 'i) multihal
    \<Rightarrow> (int \<times> ('p, 'i) multihal) c_result" where
  "device_batch H ret handle flags period_ns timeout s =
     (if halIsAPILevelCompliant s handle (SENSORS_DEVICE_API_VERSION_1_1 H)
      then batch H ret handle flags period_ns timeout s
      else let index = s32 (handle - 1)
           in case array_index (sensors_enable_state s) index of
                Inl f \<Rightarrow> Inl f
              | Inr enabled \<Rightarrow>
                  (if enabled = 0 then
                     (if sensors_batch_list s = None \<and> index = 0 then Inr (0, s)
                      else case array_index (sensors_batch_list s) index of
                             Inl f \<Rightarrow> Inl f
                           | Inr b \<Rightarrow> Inr (0, s\<lparr>sensors_batch_list := map_option
                               (\<lambda>xs. xs[nat index := update_batch_data handle flags period_ns timeout b])
                               (sensors_batch_list s)\<rparr>))
                   else Inr (setDelay ret handle period_ns s)))"

definition device_flush :: "sensors_h \<Rightarrow> 'p sub_hals \<Rightarrow> int \<Rightarrow> ('p, 'i) multihal
    \<Rightarrow> int \<times> ('p, 'i) multihal" where
  "device_flush H ret handle s = flush H ret handle s"

definition device_inject_sensor_data :: "sensors_h \<Rightarrow> 'p sub_hals \<Rightarrow> 'p sensors_event
    \<Rightarrow> ('p, 'i) multihal \<Rightarrow> int \<times> ('p, 'i) multihal" where
  "device_inject_sensor_data H ret event s = inject_sensor_data H ret ProxyDevice event s"

text \<open>
  The function table that \<open>open_sensors\<close> installs in the proxy device, as a request of the framework
  and its dispatch.
\<close>

datatype 'p request =
    ReqActivate int int
  | ReqSetDelay int int
  | ReqBatch int int int int
  | ReqFlush int
  | ReqInject "'p sensors_event"

fun proxy_device :: "sensors_h \<Rightarrow> 'p sub_hals \<Rightarrow> 'p request \<Rightarrow> ('p, 'i) multihal
    \<Rightarrow> (int \<times> ('p, 'i) multihal) c_result" where
  "proxy_device H ret (ReqActivate handle enabled) s = device_activate H ret handle enabled s"
| "proxy_device H ret (ReqSetDelay handle ns) s = Inr (device_setDelay ret handle ns s)"
| "proxy_device H ret (ReqBatch handle flags period_ns timeout) s =
     device_batch H ret handle flags period_ns timeout s"
| "proxy_device H ret (ReqFlush handle) s = Inr (device_flush H ret handle s)"
| "proxy_device H ret (ReqInject event) s = Inr (device_inject_sensor_data H ret event s)"

fun request_handle :: "'p request \<Rightarrow> int" where
  "request_handle (ReqActivate handle _) = handle"
| "request_handle (ReqSetDelay handle _) = handle"
| "request_handle (ReqBatch handle _ _ _) = handle"
| "request_handle (ReqFlush handle) = handle"
| "request_handle (ReqInject event) = ev_sensor event"

definition serve :: "sensors_h \<Rightarrow> 'p sub_hals \<Rightarrow> 'p request list \<Rightarrow> ('p, 'i) multihal
    \<Rightarrow> (int list \<times> ('p, 'i) multihal) c_result" where
  "serve H ret = serve_all (proxy_device H ret)"

section \<open>Well-formed contexts\<close>

definition owner :: "('p, 'i) multihal \<Rightarrow> int \<Rightarrow> (hw_device \<times> int) option" where
  "owner s handle = (case global_to_full (hm s) handle of
     None \<Rightarrow> None
   | Some f \<Rightarrow> Some (sub_hw_devices s ! nat (moduleIndex f), localHandle f))"

text \<open>
  Handles are numbered from 1 without a gap, the three arrays have one element for each handle, and
  every handle belongs to a device of the context and has a local handle that is not negative.
\<close>

definition multihal_ok :: "('p, 'i) multihal \<Rightarrow> bool" where
  "multihal_ok s \<longleftrightarrow> handle_inv (hm s)
     \<and> (\<exists>l bs es. global_sensors_list s = Some l \<and> sensors_batch_list s = Some bs
          \<and> sensors_enable_state s = Some es
          \<and> int (length l) = next_global_handle (hm s) - 1
          \<and> int (length bs) = next_global_handle (hm s) - 1
          \<and> int (length es) = next_global_handle (hm s) - 1)
     \<and> (\<forall>g f. global_to_full (hm s) g = Some f \<longrightarrow> 0 \<le> moduleIndex f
          \<and> moduleIndex f < int (length (sub_hw_devices s)) \<and> 0 \<le> localHandle f)"

text \<open>
  A call is well addressed when it is made on the device that owns some registered sensor, through
  that device's own pointer, and with that sensor's local handle.
\<close>

fun call_target :: "'p hal_call \<Rightarrow> nat \<times> device_ptr \<times> int" where
  "call_target (Activate d p h _) = (d, p, h)"
| "call_target (SetDelay d p h _) = (d, p, h)"
| "call_target (Batch d p h _ _ _) = (d, p, h)"
| "call_target (Flush d p h) = (d, p, h)"
| "call_target (InjectSensorData d p e) = (d, p, ev_sensor e)"
| "call_target (Close d p) = (d, p, 0)"

definition well_addressed :: "('p, 'i) multihal \<Rightarrow> int \<Rightarrow> 'p hal_call \<Rightarrow> bool" where
  "well_addressed s handle c \<longleftrightarrow>
     (\<exists>d l. owner s handle = Some (d, l) \<and> call_target c = (dev_id d, SubDevice (dev_id d), l))"

section \<open>Lemmas\<close>

lemma hal_invoke_simps [simp]:
  "hm (snd (hal_invoke ret c s)) = hm s"
  "sub_hw_devices (snd (hal_invoke ret c s)) = sub_hw_devices s"
  "global_sensors_list (snd (hal_invoke ret c s)) = global_sensors_list s"
  "sensors_batch_list (snd (hal_invoke ret c s)) = sensors_batch_list s"
  "sensors_enable_state (snd (hal_invoke ret c s)) = sensors_enable_state s"
  "hal_calls (snd (hal_invoke ret c s)) = hal_calls s @ [c]"
  by (simp_all add: hal_invoke_def)

lemma device_unknown:
  "global_to_full (hm s) g = None \<Longrightarrow> get_v0_device_by_handle s g = None
    \<and> get_v1_device_by_handle s g = None \<and> get_device_version_by_handle s g = -1"
  by (simp add: get_v0_device_by_handle_def get_v1_device_by_handle_def
      get_device_version_by_handle_def get_module_index_def)

lemma not_compliant_unknown:
  "global_to_full (hm s) g = None \<Longrightarrow> \<not> halIsAPILevelCompliant s g level"
  by (simp add: halIsAPILevelCompliant_def device_unknown)

lemma owner_lookup:
  assumes "multihal_ok s" and "owner s g = Some (d, l)"
  shows "get_local_handle (hm s) g = l" "0 \<le> l"
    "get_v0_device_by_handle s g = Some d" "get_v1_device_by_handle s g = Some d"
    "get_device_version_by_handle s g = dev_version d"
    "0 \<le> get_module_index (hm s) g"
    "1 \<le> g" "g < next_global_handle (hm s)"
proof -
  obtain f where f: "global_to_full (hm s) g = Some f"
    and dl: "d = sub_hw_devices s ! nat (moduleIndex f)" "l = localHandle f"
    using assms(2) by (auto simp: owner_def split: option.splits)
  have b: "0 \<le> moduleIndex f" "moduleIndex f < int (length (sub_hw_devices s))" "0 \<le> localHandle f"
    using assms(1) f unfolding multihal_ok_def by blast+
  have "g \<in> {1..<next_global_handle (hm s)}"
    using assms(1) f unfolding multihal_ok_def handle_inv_def by blast
  then show "1 \<le> g" "g < next_global_handle (hm s)" by simp_all
  show "get_local_handle (hm s) g = l" "0 \<le> l" "0 \<le> get_module_index (hm s) g"
    using f b dl by (simp_all add: get_local_handle_def get_module_index_def)
  show v0: "get_v0_device_by_handle s g = Some d" and "get_v1_device_by_handle s g = Some d"
    using f b dl by (simp_all add: get_v0_device_by_handle_def get_v1_device_by_handle_def
        get_module_index_def)
  then show "get_device_version_by_handle s g = dev_version d"
    by (simp add: get_device_version_by_handle_def)
qed

lemma array_index_ok:
  assumes "multihal_ok s" and "owner s g = Some (d, l)"
  obtains es bs where "sensors_enable_state s = Some es" "sensors_batch_list s = Some bs"
    "nat (g - 1) < length es" "nat (g - 1) < length bs" "s32 (g - 1) = g - 1"
    "array_index (sensors_enable_state s) (g - 1) = Inr (es ! nat (g - 1))"
    "array_index (sensors_batch_list s) (g - 1) = Inr (bs ! nat (g - 1))"
proof -
  obtain es bs where arrays: "sensors_enable_state s = Some es" "sensors_batch_list s = Some bs"
      "int (length es) = next_global_handle (hm s) - 1"
      "int (length bs) = next_global_handle (hm s) - 1"
    using assms(1) unfolding multihal_ok_def by blast
  have n: "next_global_handle (hm s) < 2 ^ 31"
    using assms(1) by (simp add: multihal_ok_def handle_inv_def)
  note g = owner_lookup(7,8) [OF assms]
  have "s32 (g - 1) = g - 1" using g n by (intro s32_id) simp_all
  with that [OF arrays(1,2)] arrays g show ?thesis by (simp add: array_index_def)
qed

text \<open>The operations on a registered sensor, and on a handle nobody has.\<close>

lemma activate_owner:
  assumes "multihal_ok s" and "owner s g = Some (d, l)"
  shows "activate ret g en s = hal_invoke ret (Activate (dev_id d) (SubDevice (dev_id d)) l en) s"
  using owner_lookup [OF assms] by (simp add: activate_def Let_def)

lemma setDelay_owner:
  assumes "multihal_ok s" and "owner s g = Some (d, l)"
  shows "setDelay ret g ns s = hal_invoke ret (SetDelay (dev_id d) (SubDevice (dev_id d)) l ns) s"
  using owner_lookup [OF assms] by (simp add: setDelay_def Let_def)

lemma compliant_owner:
  assumes "multihal_ok s" and "owner s g = Some (d, l)"
  shows "halIsAPILevelCompliant s g level \<longleftrightarrow> dev_version d \<noteq> -1 \<and> level \<le> dev_version d"
  using owner_lookup(5) [OF assms] by (simp add: halIsAPILevelCompliant_def Let_def)

lemma batch_owner_compliant:
  assumes "multihal_ok s" and "owner s g = Some (d, l)"
    and "halIsAPILevelCompliant s g (SENSORS_DEVICE_API_VERSION_1_1 H)"
  shows "batch H ret g flags period timeout s =
    Inr (hal_invoke ret (Batch (dev_id d) (SubDevice (dev_id d)) l flags period timeout) s)"
  using owner_lookup [OF assms(1,2)] assms(3) by (simp add: batch_def Let_def)

lemma flush_owner:
  assumes "multihal_ok s" and "owner s g = Some (d, l)"
  shows "flush H ret g s =
    (if halIsAPILevelCompliant s g (SENSORS_DEVICE_API_VERSION_1_1 H)
     then hal_invoke ret (Flush (dev_id d) (SubDevice (dev_id d)) l) s else (- EINVAL, s))"
  using owner_lookup [OF assms] by (simp add: flush_def Let_def)

lemma operations_unknown:
  assumes "global_to_full (hm s) g = None"
  shows "activate ret g en s = (- EINVAL, s)" "setDelay ret g ns s = (- EINVAL, s)"
    "batch H ret g flags period timeout s = Inr (- EINVAL, s)" "flush H ret g s = (- EINVAL, s)"
  using device_unknown [OF assms]
  by (simp_all add: activate_def setDelay_def batch_def flush_def Let_def)

lemma halIsAPILevelCompliant_frame:
  "hm s' = hm s \<Longrightarrow> sub_hw_devices s' = sub_hw_devices s
    \<Longrightarrow> halIsAPILevelCompliant s' g level = halIsAPILevelCompliant s g level"
  by (simp only: halIsAPILevelCompliant_def get_device_version_by_handle_def
      get_v0_device_by_handle_def)

lemma owner_frame:
  "hm s' = hm s \<Longrightarrow> sub_hw_devices s' = sub_hw_devices s \<Longrightarrow> owner s' g = owner s g"
  by (simp add: owner_def cong: option.case_cong)

definition same_shape :: "('p, 'i) multihal \<Rightarrow> ('p, 'i) multihal \<Rightarrow> bool" where
  "same_shape s s' \<longleftrightarrow> hm s' = hm s \<and> sub_hw_devices s' = sub_hw_devices s
     \<and> global_sensors_list s' = global_sensors_list s
     \<and> map_option length (sensors_batch_list s') = map_option length (sensors_batch_list s)
     \<and> map_option length (sensors_enable_state s') = map_option length (sensors_enable_state s)"

lemma same_shape_refl [simp]: "same_shape s s"
  by (simp add: same_shape_def)

lemma same_shape_trans: "same_shape s t \<Longrightarrow> same_shape t u \<Longrightarrow> same_shape s u"
  by (simp add: same_shape_def)

lemma same_shape_invoke [simp]: "same_shape s (snd (hal_invoke ret c s))"
  by (simp add: same_shape_def)

lemma same_shape_ok:
  assumes "same_shape s s'" and "multihal_ok s"
  shows "multihal_ok s'"
proof -
  obtain l bs es where arrays: "global_sensors_list s = Some l" "sensors_batch_list s = Some bs"
      "sensors_enable_state s = Some es" "int (length l) = next_global_handle (hm s) - 1"
      "int (length bs) = next_global_handle (hm s) - 1"
      "int (length es) = next_global_handle (hm s) - 1"
    using assms(2) unfolding multihal_ok_def by blast
  moreover obtain bs' es' where "sensors_batch_list s' = Some bs'" "length bs' = length bs"
      "sensors_enable_state s' = Some es'" "length es' = length es"
    using assms(1) arrays by (auto simp: same_shape_def)
  ultimately show ?thesis
    using assms unfolding multihal_ok_def same_shape_def by simp
qed

section \<open>Device entry points, step by step\<close>

lemma device_activate_owner:
  fixes ret :: "'p sub_hals" and en :: int and s :: "('p, 'i) multihal"
  assumes "multihal_ok s" and "owner s g = Some (d, l)"
    and "sensors_enable_state s = Some es" and "sensors_batch_list s = Some bs"
  defines "act \<equiv> hal_invoke ret (Activate (dev_id d) (SubDevice (dev_id d)) l en) s"
  shows "device_activate H ret g en s =
    (if halIsAPILevelCompliant s g (SENSORS_DEVICE_API_VERSION_1_1 H) then Inr act
     else let s1 = (snd act)\<lparr>sensors_enable_state := Some (es[nat (g - 1) := en])\<rparr>;
              b = bs ! nat (g - 1)
          in if en \<noteq> 0 \<and> \<not> b_empty b
             then let del = hal_invoke ret
                        (SetDelay (dev_id d) (SubDevice (dev_id d)) l (b_period_ns b)) s1
                  in Inr (if fst del \<noteq> 0 \<or> fst act \<noteq> 0 then 1 else 0,
                          (snd del)\<lparr>sensors_batch_list := Some (bs[nat (g - 1) := b\<lparr>b_empty := True\<rparr>])\<rparr>)
             else Inr (fst act, s1))"
proof -
  obtain es' bs' where es': "sensors_enable_state s = Some es'" "sensors_batch_list s = Some bs'"
    and len: "nat (g - 1) < length es'" "nat (g - 1) < length bs'"
    and idx: "s32 (g - 1) = g - 1"
    and rd: "array_index (sensors_enable_state s) (g - 1) = Inr (es' ! nat (g - 1))"
      "array_index (sensors_batch_list s) (g - 1) = Inr (bs' ! nat (g - 1))"
    using array_index_ok [OF assms(1,2)] .
  have eq: "es' = es" "bs' = bs" using es' assms(3,4) by simp_all
  let ?s1 = "(snd act)\<lparr>sensors_enable_state := Some (es[nat (g - 1) := en])\<rparr>"
  have ok1: "multihal_ok ?s1"
    by (rule same_shape_ok [OF _ assms(1)]) (simp add: same_shape_def act_def assms(3))
  have own1: "owner ?s1 g = Some (d, l)"
    using assms(2) by (subst owner_frame [of _ s]) (simp_all add: act_def)
  have comp: "halIsAPILevelCompliant (snd act) g (SENSORS_DEVICE_API_VERSION_1_1 H)
      = halIsAPILevelCompliant s g (SENSORS_DEVICE_API_VERSION_1_1 H)"
    by (rule halIsAPILevelCompliant_frame) (simp_all add: act_def)
  have rd1: "array_index (sensors_enable_state (snd act)) (g - 1) = Inr (es ! nat (g - 1))"
    "array_index (sensors_batch_list (snd act)) (g - 1) = Inr (bs ! nat (g - 1))"
    using rd by (simp_all add: act_def eq)
  show ?thesis
    unfolding device_activate_def activate_owner [OF assms(1,2)] act_def [symmetric]
      case_prod_beta Let_def comp idx rd1 sum.case
    using setDelay_owner [OF ok1 own1] rd1 assms(3,4)
    by (simp add: act_def case_prod_beta)
qed

lemma device_batch_owner:
  assumes "multihal_ok s" and "owner s g = Some (d, l)"
    and "sensors_enable_state s = Some es" and "sensors_batch_list s = Some bs"
  shows "device_batch H ret g flags period timeout s =
    (if halIsAPILevelCompliant s g (SENSORS_DEVICE_API_VERSION_1_1 H)
     then Inr (hal_invoke ret (Batch (dev_id d) (SubDevice (dev_id d)) l flags period timeout) s)
     else if es ! nat (g - 1) = 0
     then Inr (0, s\<lparr>sensors_batch_list := Some (bs[nat (g - 1) :=
            update_batch_data g flags period timeout (bs ! nat (g - 1))])\<rparr>)
     else Inr (hal_invoke ret (SetDelay (dev_id d) (SubDevice (dev_id d)) l period) s))"
proof -
  obtain es' bs' where es': "sensors_enable_state s = Some es'" "sensors_batch_list s = Some bs'"
    and len: "nat (g - 1) < length es'" "nat (g - 1) < length bs'"
    and idx: "s32 (g - 1) = g - 1"
    and rd: "array_index (sensors_enable_state s) (g - 1) = Inr (es' ! nat (g - 1))"
      "array_index (sensors_batch_list s) (g - 1) = Inr (bs' ! nat (g - 1))"
    using array_index_ok [OF assms(1,2)] .
  have eq: "es' = es" "bs' = bs" using es' assms(3,4) by simp_all
  show ?thesis
    using batch_owner_compliant [OF assms(1,2)] setDelay_owner [OF assms(1,2)] rd
    by (simp add: device_batch_def Let_def idx eq assms(3,4))
qed

lemma well_addressed_owner:
  "owner s g = Some (d, l) \<Longrightarrow> call_target c = (dev_id d, SubDevice (dev_id d), l)
    \<Longrightarrow> well_addressed s g c"
  by (simp add: well_addressed_def)

lemma well_addressed_frame:
  "same_shape s s' \<Longrightarrow> well_addressed s' g c = well_addressed s g c"
  by (simp add: same_shape_def well_addressed_def owner_frame [of s' s])

text \<open>
  A request for a sensor is served well when it ends without a fault, keeps the shape of the context, and
  every call it makes goes to the device of the sensor, through that device's own pointer and with
  the local handle.
\<close>

definition served_well :: "('p, 'i) multihal \<Rightarrow> hw_device \<Rightarrow> int \<Rightarrow> (int \<times> ('p, 'i) multihal) c_result \<Rightarrow> bool" where
  "served_well s d l out \<longleftrightarrow> (\<exists>v s' cs. out = Inr (v, s') \<and> same_shape s s' \<and> hal_calls s' = hal_calls s @ cs
     \<and> (\<forall>c \<in> set cs. call_target c = (dev_id d, SubDevice (dev_id d), l)))"

lemma served_wellI:
  "same_shape s s' \<Longrightarrow> hal_calls s' = hal_calls s @ cs \<Longrightarrow> \<forall>c \<in> set cs. call_target c = (dev_id d, SubDevice (dev_id d), l)
    \<Longrightarrow> served_well s d l (Inr (v, s'))"
  by (auto simp: served_well_def)

lemma served_well_invoke:
  "call_target c = (dev_id d, SubDevice (dev_id d), l) \<Longrightarrow> served_well s d l (Inr (hal_invoke ret c s))"
  by (cases "hal_invoke ret c s") (auto simp: hal_invoke_def intro!: served_wellI [where cs = "[c]"] simp: same_shape_def)

lemma activate_served:
  assumes "multihal_ok s" and "owner s g = Some (d, l)"
  shows "served_well s d l (device_activate H ret g en s)"
proof -
  obtain es bs where arrays: "sensors_enable_state s = Some es" "sensors_batch_list s = Some bs"
    using array_index_ok [OF assms] .
  note act = device_activate_owner [OF assms arrays, of H ret en]
  let ?on = "Activate (dev_id d) (SubDevice (dev_id d)) l en"
  let ?b = "bs ! nat (g - 1)"
  let ?rate = "SetDelay (dev_id d) (SubDevice (dev_id d)) l (b_period_ns ?b)"
  consider (direct) "halIsAPILevelCompliant s g (SENSORS_DEVICE_API_VERSION_1_1 H)"
    | (pending) "\<not> halIsAPILevelCompliant s g (SENSORS_DEVICE_API_VERSION_1_1 H)" "en \<noteq> 0 \<and> \<not> b_empty ?b"
    | (plain) "\<not> halIsAPILevelCompliant s g (SENSORS_DEVICE_API_VERSION_1_1 H)" "\<not> (en \<noteq> 0 \<and> \<not> b_empty ?b)"
    by blast
  then show ?thesis
  proof cases
    case direct
    then show ?thesis by (simp only: act if_True) (simp add: served_well_invoke)
  next
    case pending
    then show ?thesis
      by (simp only: act Let_def if_True if_False simp_thms)
        (rule served_wellI [where cs = "[?on, ?rate]"]; simp add: same_shape_def arrays)
  next
    case plain
    then show ?thesis
      by (simp only: act Let_def if_True if_False simp_thms)
        (rule served_wellI [where cs = "[?on]"]; simp add: same_shape_def arrays)
  qed
qed

lemma batch_served:
  assumes "multihal_ok s" and "owner s g = Some (d, l)"
  shows "served_well s d l (device_batch H ret g flags period timeout s)"
proof -
  obtain es bs where arrays: "sensors_enable_state s = Some es" "sensors_batch_list s = Some bs"
    using array_index_ok [OF assms] .
  show ?thesis
    unfolding device_batch_owner [OF assms arrays]
    by (auto simp: same_shape_def arrays intro!: served_well_invoke served_wellI [where cs = "[]"])
qed

lemma flush_served:
  assumes "multihal_ok s" and "owner s g = Some (d, l)"
  shows "served_well s d l (Inr (device_flush H ret g s))"
  unfolding device_flush_def flush_owner [OF assms]
  by (auto intro!: served_well_invoke served_wellI [where cs = "[]"])

lemma proxy_device_served:
  assumes "multihal_ok s" and "owner s (request_handle r) = Some (d, l)" and "\<forall>e. r \<noteq> ReqInject e"
  shows "served_well s d l (proxy_device H ret r s)"
proof (cases r)
  case (ReqSetDelay g ns)
  with assms(2) have "owner s g = Some (d, l)" by simp
  from setDelay_owner [OF assms(1) this] ReqSetDelay show ?thesis
    by (auto simp: device_setDelay_def intro!: served_well_invoke)
qed (use assms activate_served batch_served flush_served in auto)

text \<open>
  Injected data goes to the device of the sensor whose global handle it carries, with the proxy's own
  pointer and the untranslated event, or it is refused.
\<close>

lemma inject_served:
  assumes "multihal_ok s" and "owner s (ev_sensor e) = Some (d, l)"
  shows "\<exists>v s' cs. proxy_device H ret (ReqInject e) s = Inr (v, s') \<and> same_shape s s'
    \<and> hal_calls s' = hal_calls s @ cs \<and> set cs \<subseteq> {InjectSensorData (dev_id d) ProxyDevice e}"
  using owner_lookup(4) [OF assms]
  by (auto simp: device_inject_sensor_data_def inject_sensor_data_def Let_def hal_invoke_def same_shape_def)

text \<open>A sequence of requests for the sensors of \<open>s0\<close>, started in \<open>s0\<close>.\<close>

definition requests_inv :: "('p, 'i) multihal \<Rightarrow> 'p request set \<Rightarrow> ('p, 'i) multihal \<Rightarrow> bool" where
  "requests_inv s0 R s \<longleftrightarrow> multihal_ok s0 \<and> same_shape s0 s \<and> (\<exists>cs. hal_calls s = hal_calls s0 @ cs
     \<and> (\<forall>c \<in> set cs. \<exists>r \<in> R. well_addressed s0 (request_handle r) c))"

lemma proxy_device_step:
  assumes "requests_inv s0 R s" and "r \<in> R" and "owner s0 (request_handle r) \<noteq> None" and "\<forall>e. r \<noteq> ReqInject e"
  shows "\<exists>v s'. proxy_device H ret r s = Inr (v, s') \<and> requests_inv s0 R s'"
proof -
  obtain cs where inv: "multihal_ok s0" "same_shape s0 s" "hal_calls s = hal_calls s0 @ cs"
    "\<forall>c \<in> set cs. \<exists>r \<in> R. well_addressed s0 (request_handle r) c"
    using assms(1) unfolding requests_inv_def by blast
  obtain d l where own: "owner s0 (request_handle r) = Some (d, l)" using assms(3) by auto
  have "owner s (request_handle r) = Some (d, l)"
    using own inv(2) owner_frame [of s s0] by (simp add: same_shape_def)
  from proxy_device_served [OF same_shape_ok [OF inv(2,1)] this assms(4), of H ret] obtain v s' cs'
    where out: "proxy_device H ret r s = Inr (v, s')" "same_shape s s'" "hal_calls s' = hal_calls s @ cs'"
      "\<forall>c \<in> set cs'. call_target c = (dev_id d, SubDevice (dev_id d), l)"
    unfolding served_well_def by blast
  have "hal_calls s' = hal_calls s0 @ (cs @ cs')" using inv(3) out(3) by simp
  moreover have "\<forall>c \<in> set (cs @ cs'). \<exists>r \<in> R. well_addressed s0 (request_handle r) c"
    using inv(4) out(4) well_addressed_owner [OF own] assms(2) by auto
  ultimately have "requests_inv s0 R s'"
    using inv(1) same_shape_trans [OF inv(2) out(2)] unfolding requests_inv_def by blast
  with out(1) show ?thesis by blast
qed

interpretation device: request_server "requests_inv s0 R"
    "\<lambda>r. r \<in> R \<and> owner s0 (request_handle r) \<noteq> None \<and> (\<forall>e. r \<noteq> ReqInject e)" "\<lambda>_ _. False" "proxy_device H ret"
  for s0 R H ret
  by unfold_locales (elim conjE, drule (3) proxy_device_step [where H = H and ret = ret], clarsimp)+

lemma serve_registered:
  assumes "multihal_ok s"
    and "\<forall>r \<in> set rs. owner s (request_handle r) \<noteq> None \<and> (\<forall>e. r \<noteq> ReqInject e)"
  shows "\<exists>vs s' cs. serve H ret rs s = Inr (vs, s') \<and> length vs = length rs \<and> same_shape s s'
    \<and> hal_calls s' = hal_calls s @ cs
    \<and> (\<forall>c \<in> set cs. \<exists>r \<in> set rs. well_addressed s (request_handle r) c)"
proof -
  have "requests_inv s (set rs) s" using assms(1) by (auto simp: requests_inv_def intro: exI [of _ "[]"])
  from device.serve_all_total [OF _ this, of rs H ret] assms(2) obtain vs s'
    where "serve_all (proxy_device H ret) rs s = Inr (vs, s')" "requests_inv s (set rs) s'" "length vs = length rs"
    by blast
  then show ?thesis unfolding requests_inv_def serve_def by blast
qed

section \<open>The sensor of an old sub-HAL as a small state machine\<close>

text \<open>
  What the proxy keeps for one sensor of a sub-HAL older than version 1.1: whether the sensor was
  last enabled, and the sampling period that waits for it to be enabled.
\<close>

definition sensor_view :: "('p, 'i) multihal \<Rightarrow> int \<Rightarrow> bool \<times> int option" where
  "sensor_view s g =
     (the (sensors_enable_state s) ! nat (g - 1) \<noteq> 0,
      let b = the (sensors_batch_list s) ! nat (g - 1)
      in if b_empty b then None else Some (b_period_ns b))"

text \<open>
  The abstract machine: a step gives the new view and the periods passed to the sub-HAL. Enabling
  flushes the waiting period; a period for a disabled sensor is kept, replacing the one before.
\<close>

definition spec_activate :: "bool \<Rightarrow> bool \<times> int option \<Rightarrow> (bool \<times> int option) \<times> int list" where
  "spec_activate en v =
     (if en then ((True, None), case snd v of None \<Rightarrow> [] | Some p \<Rightarrow> [p]) else ((False, snd v), []))"

definition spec_batch :: "int \<Rightarrow> bool \<times> int option \<Rightarrow> (bool \<times> int option) \<times> int list" where
  "spec_batch period v = (if fst v then (v, [period]) else ((False, Some (s32 period)), []))"

lemma sensor_view_arrays:
  "sensors_enable_state s = Some es \<Longrightarrow> sensors_batch_list s = Some bs \<Longrightarrow>
    sensor_view s g = (es ! nat (g - 1) \<noteq> 0,
      if b_empty (bs ! nat (g - 1)) then None else Some (b_period_ns (bs ! nat (g - 1))))"
  by (simp add: sensor_view_def Let_def)

lemma handles_differ:
  assumes "multihal_ok s" and "owner s g = Some (d, l)" and "owner s g' = Some (d', l')" and "g' \<noteq> g"
  shows "nat (g' - 1) \<noteq> nat (g - 1)"
  using owner_lookup(7) [OF assms(1,2)] owner_lookup(7) [OF assms(1,3)] assms(4) by simp

lemma activate_refines:
  assumes "multihal_ok s" and "owner s g = Some (d, l)"
    and "\<not> halIsAPILevelCompliant s g (SENSORS_DEVICE_API_VERSION_1_1 H)"
  shows "\<exists>v s'. device_activate H ret g en s = Inr (v, s')
    \<and> sensor_view s' g = fst (spec_activate (en \<noteq> 0) (sensor_view s g))
    \<and> hal_calls s' = hal_calls s @ Activate (dev_id d) (SubDevice (dev_id d)) l en
        # map (SetDelay (dev_id d) (SubDevice (dev_id d)) l) (snd (spec_activate (en \<noteq> 0) (sensor_view s g)))
    \<and> (snd (spec_activate (en \<noteq> 0) (sensor_view s g)) \<noteq> [] \<longrightarrow> v \<in> {0, 1})
    \<and> (\<forall>g'. owner s g' \<noteq> None \<and> g' \<noteq> g \<longrightarrow> sensor_view s' g' = sensor_view s g')"
proof -
  have that: ?thesis if "device_activate H ret g en s = Inr (v, s')"
      and "sensor_view s' g = fst (spec_activate (en \<noteq> 0) (sensor_view s g))"
      and "hal_calls s' = hal_calls s @ Activate (dev_id d) (SubDevice (dev_id d)) l en
        # map (SetDelay (dev_id d) (SubDevice (dev_id d)) l) (snd (spec_activate (en \<noteq> 0) (sensor_view s g)))"
      and "(snd (spec_activate (en \<noteq> 0) (sensor_view s g)) \<noteq> [] \<longrightarrow> v \<in> {0, 1})"
      and "(\<forall>g'. owner s g' \<noteq> None \<and> g' \<noteq> g \<longrightarrow> sensor_view s' g' = sensor_view s g')" for v s'
    using that by blast
  obtain es bs where arrays: "sensors_enable_state s = Some es" "sensors_batch_list s = Some bs"
    and len: "nat (g - 1) < length es" "nat (g - 1) < length bs"
    using array_index_ok [OF assms(1,2)] .
  note act = device_activate_owner [OF assms(1,2) arrays, of H ret en]
  have other: "nat (g - 1) \<noteq> nat (g' - 1)" if "owner s g' \<noteq> None" "g' \<noteq> g" for g'
    using that handles_differ [OF assms(1,2), THEN not_sym] by (cases "owner s g'") auto
  let ?act = "hal_invoke ret (Activate (dev_id d) (SubDevice (dev_id d)) l en) s"
  let ?s1 = "(snd ?act)\<lparr>sensors_enable_state := Some (es[nat (g - 1) := en])\<rparr>"
  let ?b = "bs ! nat (g - 1)"
  let ?del = "hal_invoke ret (SetDelay (dev_id d) (SubDevice (dev_id d)) l (b_period_ns ?b)) ?s1"
  let ?s2 = "(snd ?del)\<lparr>sensors_batch_list := Some (bs[nat (g - 1) := ?b\<lparr>b_empty := True\<rparr>])\<rparr>"
  show ?thesis
  proof (cases "en \<noteq> 0 \<and> \<not> b_empty ?b")
    case True
    with act assms(3) have run: "device_activate H ret g en s
        = Inr (if fst ?del \<noteq> 0 \<or> fst ?act \<noteq> 0 then 1 else 0, ?s2)"
      by (simp only: Let_def if_True if_False simp_thms)
    show ?thesis
      by (rule that [OF run])
        (simp_all add: sensor_view_def Let_def spec_activate_def True len arrays other)
  next
    case False
    with act assms(3) have run: "device_activate H ret g en s = Inr (fst ?act, ?s1)"
      by (simp only: Let_def if_True if_False simp_thms)
    show ?thesis
      using False
      by (intro that [OF run])
        (auto simp: sensor_view_def Let_def spec_activate_def len arrays other split: if_splits)
  qed
qed

lemma batch_refines:
  assumes "multihal_ok s" and "owner s g = Some (d, l)"
    and "\<not> halIsAPILevelCompliant s g (SENSORS_DEVICE_API_VERSION_1_1 H)"
  shows "\<exists>v s'. device_batch H ret g flags period timeout s = Inr (v, s')
    \<and> same_shape s s'
    \<and> (\<not> fst (sensor_view s g) \<longrightarrow> v = 0)
    \<and> sensor_view s' g = fst (spec_batch period (sensor_view s g))
    \<and> hal_calls s' = hal_calls s
        @ map (SetDelay (dev_id d) (SubDevice (dev_id d)) l) (snd (spec_batch period (sensor_view s g)))
    \<and> (\<forall>g'. owner s g' \<noteq> None \<and> g' \<noteq> g \<longrightarrow> sensor_view s' g' = sensor_view s g')"
proof -
  have that: ?thesis if "device_batch H ret g flags period timeout s = Inr (v, s')"
      and "same_shape s s'"
      and "(\<not> fst (sensor_view s g) \<longrightarrow> v = 0)"
      and "sensor_view s' g = fst (spec_batch period (sensor_view s g))"
      and "hal_calls s' = hal_calls s
        @ map (SetDelay (dev_id d) (SubDevice (dev_id d)) l) (snd (spec_batch period (sensor_view s g)))"
      and "(\<forall>g'. owner s g' \<noteq> None \<and> g' \<noteq> g \<longrightarrow> sensor_view s' g' = sensor_view s g')" for v s'
    using that by blast
  obtain es bs where arrays: "sensors_enable_state s = Some es" "sensors_batch_list s = Some bs"
    and len: "nat (g - 1) < length es" "nat (g - 1) < length bs"
    using array_index_ok [OF assms(1,2)] .
  note bat = device_batch_owner [OF assms(1,2) arrays, of H ret flags period timeout]
  have other: "nat (g - 1) \<noteq> nat (g' - 1)" if "owner s g' \<noteq> None" "g' \<noteq> g" for g'
    using that handles_differ [OF assms(1,2), THEN not_sym] by (cases "owner s g'") auto
  let ?b = "update_batch_data g flags period timeout (bs ! nat (g - 1))"
  let ?s1 = "s\<lparr>sensors_batch_list := Some (bs[nat (g - 1) := ?b])\<rparr>"
  let ?del = "hal_invoke ret (SetDelay (dev_id d) (SubDevice (dev_id d)) l period) s"
  show ?thesis
  proof (cases "es ! nat (g - 1) = 0")
    case True
    with bat assms(3) have run: "device_batch H ret g flags period timeout s = Inr (0, ?s1)"
      by simp
    show ?thesis
      by (rule that [OF run])
        (simp_all add: same_shape_def sensor_view_def Let_def spec_batch_def update_batch_data_def
          True len arrays other)
  next
    case False
    with bat assms(3) have run: "device_batch H ret g flags period timeout s = Inr (fst ?del, snd ?del)"
      by simp
    show ?thesis
      by (rule that [OF run]) (simp_all add: sensor_view_def Let_def spec_batch_def False len arrays other)
  qed
qed

text \<open>The concrete context of the witnesses: an old sub-HAL and one of version 1.4.\<close>

definition two_devices :: "(unit, unit) multihal" where
  "two_devices = \<lparr>hm = two_hals,
     sub_hw_devices = [\<lparr>dev_id = 100, dev_version = 16777217\<rparr>, \<lparr>dev_id = 200, dev_version = 17039361\<rparr>],
     global_sensors_list = Some (replicate 2 \<lparr>s_handle = 1, s_type = 1, s_maxDelay = 10,
        s_minDelay = 1, s_flags = 0, s_info = ()\<rparr>),
     sensors_batch_list = Some (replicate 2 \<lparr>b_empty = True, b_handle = 0, b_flags = 0,
        b_period_ns = 0, b_timeout = 0\<rparr>),
     sensors_enable_state = Some [0, 0], hal_calls = []\<rparr>"

lemma two_hals_tables:
  "global_to_full two_hals = [1 \<mapsto> FullHandle 0 5, 2 \<mapsto> FullHandle 1 6]"
  "next_global_handle two_hals = 3"
  by (simp_all add: two_hals_def register_full_def assign_global_handle_def initial_handles_def
      s32_def Let_def)

lemma two_devices_ok: "multihal_ok two_devices"
  by (auto simp: multihal_ok_def two_devices_def two_hals_inv two_hals_tables split: if_splits)

lemma two_devices_owner:
  "owner two_devices 1 = Some (\<lparr>dev_id = 100, dev_version = 16777217\<rparr>, 5)"
  "owner two_devices 2 = Some (\<lparr>dev_id = 200, dev_version = 17039361\<rparr>, 6)"
  by (simp_all add: owner_def two_devices_def two_hals_tables)

text \<open>The same context with a period of 20 waiting for the first sensor.\<close>

definition waiting_device :: "(unit, unit) multihal" where
  "waiting_device = two_devices\<lparr>sensors_batch_list := Some (replicate 2 \<lparr>b_empty = False,
     b_handle = 1, b_flags = 0, b_period_ns = 20, b_timeout = 0\<rparr>)\<rparr>"

lemma waiting_device_ok:
  "multihal_ok waiting_device" "owner waiting_device 1 = Some (\<lparr>dev_id = 100, dev_version = 16777217\<rparr>, 5)"
proof -
  show "multihal_ok waiting_device"
    by (rule same_shape_ok [OF _ two_devices_ok])
      (simp add: same_shape_def waiting_device_def two_devices_def)
  show "owner waiting_device 1 = Some (\<lparr>dev_id = 100, dev_version = 16777217\<rparr>, 5)"
    by (simp add: owner_def waiting_device_def two_devices_def two_hals_tables)
qed

section \<open>Properties\<close>

text \<open>
  Any sequence of activate, setDelay, batch and flush requests on registered sensors is served
  to the end without a memory fault, and every call it makes to a sub-HAL goes to the device that
  owns the requested sensor, through that device's own pointer and with the sensor's local handle.
  In particular the branch of \<open>batch\<close> that passes the global handle on is never taken.
\<close>

theorem requests_well_addressed:
  assumes "multihal_ok s"
    and "\<forall>r \<in> set rs. owner s (request_handle r) \<noteq> None \<and> (\<forall>e. r \<noteq> ReqInject e)"
  shows "\<exists>vs s' cs. serve H ret rs s = Inr (vs, s') \<and> length vs = length rs \<and> multihal_ok s'
    \<and> hal_calls s' = hal_calls s @ cs
    \<and> (\<forall>c \<in> set cs. \<exists>r \<in> set rs. well_addressed s (request_handle r) c)"
proof -
  from serve_registered [OF assms, of H ret] obtain vs s' cs
    where "serve H ret rs s = Inr (vs, s')" "length vs = length rs" "same_shape s s'"
      "hal_calls s' = hal_calls s @ cs"
      "\<forall>c \<in> set cs. \<exists>r \<in> set rs. well_addressed s (request_handle r) c"
    by blast
  with same_shape_ok [OF \<open>same_shape s s'\<close> assms(1)] show ?thesis by blast
qed

theorem requests_well_addressed_witness:
  "\<exists>vs s'. serve android_9 (\<lambda>_. 0) [ReqBatch 1 0 20 0, ReqActivate 1 1, ReqFlush 2] two_devices
     = Inr (vs, s') \<and> length vs = 3 \<and> multihal_ok s'"
proof -
  let ?rs = "[ReqBatch 1 0 20 0, ReqActivate 1 1, ReqFlush 2] :: unit request list"
  have "\<forall>r \<in> set ?rs. owner two_devices (request_handle r) \<noteq> None \<and> (\<forall>e. r \<noteq> ReqInject e)"
    by (simp add: two_devices_owner)
  from requests_well_addressed [OF two_devices_ok this, of android_9 "\<lambda>_. 0"] show ?thesis by auto
qed

text \<open>
  C17: a handle nobody has. \<open>setDelay\<close> and \<open>flush\<close> answer \<open>-EINVAL\<close> without calling anyone, but
  activate and batch take the missing sensor for one of an old sub-HAL and index their tables with
  it, outside the bounds of the arrays.
\<close>

theorem unknown_handle:
  assumes "multihal_ok s" and "owner s g = None" and "in_s32 (g - 1)"
  shows "device_setDelay ret g ns s = (- EINVAL, s) \<and> device_flush H ret g s = (- EINVAL, s)
    \<and> device_activate H ret g en s = Inl OutOfBounds
    \<and> device_batch H ret g flags period timeout s = Inl OutOfBounds"
proof -
  have none: "global_to_full (hm s) g = None"
    using assms(2) by (simp add: owner_def split: option.splits)
  obtain es where es: "sensors_enable_state s = Some es"
      "int (length es) = next_global_handle (hm s) - 1"
    using assms(1) unfolding multihal_ok_def by blast
  have "g \<notin> {1..<next_global_handle (hm s)}"
    using assms(1) none unfolding multihal_ok_def handle_inv_def by blast
  then have "array_index (sensors_enable_state s) (g - 1) = Inl OutOfBounds"
    using es by (auto simp: array_index_def)
  then show ?thesis
    using operations_unknown [OF none] not_compliant_unknown [OF none] s32_in_range [OF assms(3)]
    by (simp add: device_setDelay_def device_flush_def device_activate_def device_batch_def)
qed

theorem unknown_handle_witness:
  "device_activate android_9 (\<lambda>_. 0) 3 1 two_devices = Inl OutOfBounds"
proof -
  have "owner two_devices 3 = None" by (simp add: owner_def two_devices_def two_hals_tables)
  from unknown_handle [OF two_devices_ok this] show ?thesis by (simp add: in_s32_def)
qed

text \<open>
  C10: for a sensor of an old sub-HAL, activate and batch implement the abstract machine: batch on a
  disabled sensor makes no call and only remembers the period; enabling passes the request on and
  then sets the waiting period; batch on an enabled sensor sets the period at once. The views of all
  other sensors stay as they are. When a waiting period is set, the result is 0 or 1: an error code
  of the sub-HAL does not reach the caller.
\<close>

theorem old_hal_refines_machine:
  assumes "multihal_ok s" and "owner s g = Some (d, l)"
    and "\<not> halIsAPILevelCompliant s g (SENSORS_DEVICE_API_VERSION_1_1 H)"
  shows "\<exists>v s' v'' s''.
      device_activate H ret g en s = Inr (v, s')
    \<and> sensor_view s' g = fst (spec_activate (en \<noteq> 0) (sensor_view s g))
    \<and> hal_calls s' = hal_calls s @ Activate (dev_id d) (SubDevice (dev_id d)) l en
        # map (SetDelay (dev_id d) (SubDevice (dev_id d)) l) (snd (spec_activate (en \<noteq> 0) (sensor_view s g)))
    \<and> (snd (spec_activate (en \<noteq> 0) (sensor_view s g)) \<noteq> [] \<longrightarrow> v \<in> {0, 1})
    \<and> device_batch H ret g flags period timeout s = Inr (v'', s'')
    \<and> sensor_view s'' g = fst (spec_batch period (sensor_view s g))
    \<and> hal_calls s'' = hal_calls s
        @ map (SetDelay (dev_id d) (SubDevice (dev_id d)) l) (snd (spec_batch period (sensor_view s g)))
    \<and> (\<forall>g'. owner s g' \<noteq> None \<and> g' \<noteq> g \<longrightarrow>
         sensor_view s' g' = sensor_view s g' \<and> sensor_view s'' g' = sensor_view s g')"
proof -
  from activate_refines [OF assms, of ret en] obtain v s'
    where act: "device_activate H ret g en s = Inr (v, s')"
      "sensor_view s' g = fst (spec_activate (en \<noteq> 0) (sensor_view s g))"
      "hal_calls s' = hal_calls s @ Activate (dev_id d) (SubDevice (dev_id d)) l en
        # map (SetDelay (dev_id d) (SubDevice (dev_id d)) l) (snd (spec_activate (en \<noteq> 0) (sensor_view s g)))"
      "snd (spec_activate (en \<noteq> 0) (sensor_view s g)) \<noteq> [] \<longrightarrow> v \<in> {0, 1}"
      "\<forall>g'. owner s g' \<noteq> None \<and> g' \<noteq> g \<longrightarrow> sensor_view s' g' = sensor_view s g'"
    by blast
  from batch_refines [OF assms, of ret flags period timeout] obtain v'' s''
    where bat: "device_batch H ret g flags period timeout s = Inr (v'', s'')"
      "sensor_view s'' g = fst (spec_batch period (sensor_view s g))"
      "hal_calls s'' = hal_calls s
        @ map (SetDelay (dev_id d) (SubDevice (dev_id d)) l) (snd (spec_batch period (sensor_view s g)))"
      "\<forall>g'. owner s g' \<noteq> None \<and> g' \<noteq> g \<longrightarrow> sensor_view s'' g' = sensor_view s g'"
    by blast
  have frame: "\<forall>g'. owner s g' \<noteq> None \<and> g' \<noteq> g \<longrightarrow>
      sensor_view s' g' = sensor_view s g' \<and> sensor_view s'' g' = sensor_view s g'"
    using act(5) bat(4) by blast
  show ?thesis
    by (intro exI [of _ v] exI [of _ s'] exI [of _ v''] exI [of _ s''] conjI) (rule act bat frame)+
qed

theorem old_hal_refines_machine_witness:
  "\<exists>v s'. device_activate android_9 (\<lambda>_. -22) 1 1 waiting_device = Inr (v, s') \<and> v \<in> {0, 1}
     \<and> hal_calls s' = [Activate 100 (SubDevice 100) 5 1, SetDelay 100 (SubDevice 100) 5 20]"
proof -
  have view: "sensor_view waiting_device 1 = (False, Some 20)"
    by (simp add: sensor_view_def waiting_device_def two_devices_def)
  have calls: "hal_calls waiting_device = []"
    by (simp add: waiting_device_def two_devices_def)
  have "\<not> halIsAPILevelCompliant waiting_device 1 (SENSORS_DEVICE_API_VERSION_1_1 android_9)"
    by (simp add: compliant_owner [OF waiting_device_ok] android_9_def)
  from old_hal_refines_machine [OF waiting_device_ok this, of "\<lambda>_. -22" 1 0 0 0] obtain v s'
    where "device_activate android_9 (\<lambda>_. -22) 1 1 waiting_device = Inr (v, s')"
      "hal_calls s' = [Activate 100 (SubDevice 100) 5 1, SetDelay 100 (SubDevice 100) 5 20]"
      "v \<in> {0, 1}"
    by (auto simp: view calls spec_activate_def)
  then show ?thesis by blast
qed

text \<open>
  The period that reaches an old sub-HAL is the one that was asked for only when it fits an
  \<open>int\<close>: the table keeps periods in nanoseconds through an \<open>int\<close> parameter, so a period of three
  seconds becomes a negative one. Whenever the period does not fit, the sub-HAL is given another.
\<close>

theorem deferred_period_truncated:
  assumes "multihal_ok s" and "owner s g = Some (d, l)"
    and "\<not> halIsAPILevelCompliant s g (SENSORS_DEVICE_API_VERSION_1_1 H)"
    and "\<not> fst (sensor_view s g)"
  shows "\<exists>s1 v s2. device_batch H ret g flags period timeout s = Inr (0, s1)
    \<and> device_activate H ret g 1 s1 = Inr (v, s2)
    \<and> last (hal_calls s2) = SetDelay (dev_id d) (SubDevice (dev_id d)) l (s32 period)
    \<and> (s32 period = period \<longleftrightarrow> in_s32 period)"
proof -
  from batch_refines [OF assms(1-3), of ret flags period timeout] obtain v0 s1
    where "device_batch H ret g flags period timeout s = Inr (v0, s1)" "same_shape s s1"
      "\<not> fst (sensor_view s g) \<longrightarrow> v0 = 0"
      "sensor_view s1 g = fst (spec_batch period (sensor_view s g))"
    by blast
  with assms(4) have bat: "device_batch H ret g flags period timeout s = Inr (0, s1)" "same_shape s s1"
      "sensor_view s1 g = (False, Some (s32 period))"
    by (simp_all add: spec_batch_def)
  have own: "owner s1 g = Some (d, l)"
    using bat(2) assms(2) by (subst owner_frame [of _ s]) (simp_all add: same_shape_def)
  have "\<not> halIsAPILevelCompliant s1 g (SENSORS_DEVICE_API_VERSION_1_1 H)"
    using bat(2) assms(3) by (subst halIsAPILevelCompliant_frame [of _ s]) (simp_all add: same_shape_def)
  from activate_refines [OF same_shape_ok [OF bat(2) assms(1)] own this, of ret 1] obtain v s2
    where act: "device_activate H ret g 1 s1 = Inr (v, s2)"
      "hal_calls s2 = hal_calls s1 @ Activate (dev_id d) (SubDevice (dev_id d)) l 1
        # map (SetDelay (dev_id d) (SubDevice (dev_id d)) l) (snd (spec_activate (1 \<noteq> (0 :: int)) (sensor_view s1 g)))"
    by blast
  have "last (hal_calls s2) = SetDelay (dev_id d) (SubDevice (dev_id d)) l (s32 period)"
    by (simp add: act(2) bat(3) spec_activate_def)
  moreover have "s32 period = period \<longleftrightarrow> in_s32 period"
    by (metis in_s32_s32 s32_in_range)
  ultimately show ?thesis using bat(1) act(1) by blast
qed

theorem deferred_period_truncated_witness:
  "\<exists>s1 v s2. device_batch android_9 (\<lambda>_. 0) 1 0 3000000000 0 two_devices = Inr (0, s1)
     \<and> device_activate android_9 (\<lambda>_. 0) 1 1 s1 = Inr (v, s2)
     \<and> last (hal_calls s2) = SetDelay 100 (SubDevice 100) 5 (-1294967296)"
proof -
  have "\<not> halIsAPILevelCompliant two_devices 1 (SENSORS_DEVICE_API_VERSION_1_1 android_9)"
    by (simp add: compliant_owner [OF two_devices_ok two_devices_owner(1)] android_9_def)
  moreover have "\<not> fst (sensor_view two_devices 1)"
    by (simp add: sensor_view_def two_devices_def)
  moreover have "s32 3000000000 = -1294967296" by (simp add: s32_def)
  ultimately show ?thesis
    using deferred_period_truncated [OF two_devices_ok two_devices_owner(1), of android_9 "\<lambda>_. 0" 0 3000000000 0]
    by auto
qed

text \<open>
  An injected event is passed to the owner of its sensor with the pointer of the proxy device
  and with the global handle still in it, so the call is not addressed as the sub-HAL expects.
\<close>

theorem inject_not_translated:
  assumes "multihal_ok s" and "owner s (ev_sensor e) = Some (d, l)"
    and "halIsAPILevelCompliant s (ev_sensor e) (SENSORS_DEVICE_API_VERSION_1_4 H)"
  shows "hal_calls (snd (device_inject_sensor_data H ret e s))
      = hal_calls s @ [InjectSensorData (dev_id d) ProxyDevice e]
    \<and> \<not> well_addressed s (ev_sensor e) (InjectSensorData (dev_id d) ProxyDevice e)"
  using owner_lookup [OF assms(1,2)] assms(3)
  by (simp add: device_inject_sensor_data_def inject_sensor_data_def Let_def well_addressed_def)

theorem inject_not_translated_witness:
  "hal_calls (snd (device_inject_sensor_data android_9 (\<lambda>_. 0) (plain_event 2) two_devices))
     = [InjectSensorData 200 ProxyDevice (plain_event 2)]"
proof -
  have own: "owner two_devices (ev_sensor (plain_event 2)) = Some (\<lparr>dev_id = 200, dev_version = 17039361\<rparr>, 6)"
    by (simp add: plain_event_def two_devices_owner)
  have "halIsAPILevelCompliant two_devices (ev_sensor (plain_event 2)) (SENSORS_DEVICE_API_VERSION_1_4 android_9)"
    by (simp add: compliant_owner [OF two_devices_ok own] android_9_def)
  from inject_not_translated [OF two_devices_ok own this, of "\<lambda>_. 0"] show ?thesis
    by (simp add: two_devices_def)
qed

end
