(* ===== verification/Event_Queue.thy ===== *)
theory Event_Queue
  imports Mozart_Prelude
begin

text \<open>
  The circular event queue of the sensor multi-HAL, \<open>sensors/SensorEventQueue.cpp\<close>. The readable
  records start at \<open>mStart\<close> and wrap around at \<open>mCapacity\<close>; the writer gets a contiguous region
  after them, fills it without the lock and reports how much it wrote. The theory gives the exact
  region, shows that it never touches a readable record, and that the ring implements a bounded
  first-in first-out queue.
\<close>

section \<open>State and operations\<close>

text \<open>The capacity of every queue of the multi-HAL, from \<open>multihal.cpp\<close>.\<close>

definition SENSOR_EVENT_QUEUE_CAPACITY :: int where
  "SENSOR_EVENT_QUEUE_CAPACITY = 36"

record 'e SensorEventQueue =
  mCapacity :: int
  mStart :: int
  mSize :: int
  mData :: "'e list"

text \<open>
  The constructor allocates an array whose slots are not initialised; \<open>junk\<close> is what they hold.
\<close>

definition new_queue :: "(nat \<Rightarrow> 'e) \<Rightarrow> int \<Rightarrow> 'e SensorEventQueue" where
  "new_queue junk capacity =
     \<lparr>mCapacity = capacity, mStart = 0, mSize = 0, mData = map junk [0..<nat capacity]\<rparr>"

text \<open>
  \<open>getWritableRegion\<close> returns the offset of \<open>*out\<close> in \<open>mData\<close> (\<^const>\<open>None\<close> for a null pointer)
  and the length of the region.
\<close>

definition getWritableRegion :: "'e SensorEventQueue \<Rightarrow> int \<Rightarrow> int option \<times> int" where
  "getWritableRegion q requestedLength =
     (if mSize q = mCapacity q \<or> requestedLength \<le> 0 then (None, 0)
      else let firstWritable = s32 (mStart q + mSize q) smod mCapacity q;
               lastWritable = s32 (s32 (firstWritable + requestedLength) - 1);
               lastWritable = (if lastWritable > mCapacity q - 1 then mCapacity q - 1
                               else lastWritable);
               lastWritable = (if firstWritable < mStart q \<and> lastWritable \<ge> mStart q
                               then mStart q - 1 else lastWritable)
           in (Some firstWritable, lastWritable - firstWritable + 1))"

definition markAsWritten :: "int \<Rightarrow> 'e SensorEventQueue \<Rightarrow> 'e SensorEventQueue" where
  "markAsWritten count q = q\<lparr>mSize := s32 (mSize q + count)\<rparr>"

definition getSize :: "'e SensorEventQueue \<Rightarrow> int" where
  "getSize q = mSize q"

definition queue_peek :: "'e SensorEventQueue \<Rightarrow> 'e option" where
  "queue_peek q = (if mSize q = 0 then None else Some (mData q ! nat (mStart q)))"

text \<open>
  \<open>dequeue\<close> also returns whether it broadcast \<open>mSpaceAvailableCondition\<close>.
\<close>

definition dequeue :: "'e SensorEventQueue \<Rightarrow> 'e SensorEventQueue \<times> bool" where
  "dequeue q =
     (if mSize q = 0 then (q, False)
      else (q\<lparr>mSize := mSize q - 1, mStart := s32 (mStart q + 1) smod mCapacity q\<rparr>,
            mSize q = mCapacity q))"

text \<open>
  \<open>waitForSpace\<close> runs with the mutex held and gives it up inside \<open>pthread_cond_wait\<close>. The list
  holds the states of the queue the successive wake-ups find; the result is \<^const>\<open>None\<close> while the
  call has not returned.
\<close>

fun waitForSpace :: "bool \<Rightarrow> 'e SensorEventQueue \<Rightarrow> 'e SensorEventQueue list
    \<Rightarrow> (bool \<times> 'e SensorEventQueue) option" where
  "waitForSpace waited q wakes =
     (if mSize q = mCapacity q
      then (case wakes of [] \<Rightarrow> None | q' # wakes' \<Rightarrow> waitForSpace True q' wakes')
      else Some (waited, q))"

declare waitForSpace.simps [simp del]

text \<open>The destructor frees the array and sets the pointer to null, here the empty array.\<close>

definition delete_queue :: "'e SensorEventQueue \<Rightarrow> 'e SensorEventQueue" where
  "delete_queue q = q\<lparr>mData := []\<rparr>"

text \<open>
  What a sub-HAL does with the region inside its \<open>poll()\<close>: it writes events from the region's
  start on.
\<close>

definition fill_region :: "int \<Rightarrow> 'e list \<Rightarrow> 'e SensorEventQueue \<Rightarrow> 'e SensorEventQueue" where
  "fill_region first es q = q\<lparr>mData := write_at (mData q) (nat first) es\<rparr>"

text \<open>
  One turn of the writer loop without interference: get a region, fill it with as many of the
  offered events as fit, and mark them as written.
\<close>

definition offer :: "int \<Rightarrow> 'e SensorEventQueue \<Rightarrow> 'e list \<Rightarrow> 'e list \<times> 'e SensorEventQueue" where
  "offer requestedLength q es =
     (case getWritableRegion q requestedLength of
        (None, _) \<Rightarrow> ([], q)
      | (Some first, n) \<Rightarrow>
          (let acc = take (nat n) es
           in (acc, markAsWritten (int (length acc)) (fill_region first acc q))))"

lemma waitForSpace_dropWhile:
  "waitForSpace waited q wakes =
    (case dropWhile (\<lambda>r. mSize r = mCapacity r) (q # wakes) of
       [] \<Rightarrow> None
     | r # _ \<Rightarrow> Some (waited \<or> mSize q = mCapacity q, r))"
proof (induction wakes arbitrary: waited q)
  case Nil
  then show ?case by (simp add: waitForSpace.simps)
next
  case (Cons q' wakes)
  show ?case
    by (subst waitForSpace.simps) (auto simp: Cons.IH cong: list.case_cong)
qed

section \<open>Invariant and abstraction\<close>

definition queue_inv :: "'e SensorEventQueue \<Rightarrow> bool" where
  "queue_inv q \<longleftrightarrow> 0 < mCapacity q \<and> mCapacity q \<le> 2 ^ 30
     \<and> 0 \<le> mStart q \<and> mStart q < mCapacity q
     \<and> 0 \<le> mSize q \<and> mSize q \<le> mCapacity q
     \<and> length (mData q) = nat (mCapacity q)"

text \<open>The slot of the array that holds the \<open>i\<close>-th readable record, and the readable records.\<close>

definition slot :: "'e SensorEventQueue \<Rightarrow> nat \<Rightarrow> nat" where
  "slot q i = nat ((mStart q + int i) mod mCapacity q)"

text \<open>The slot after the last readable record.\<close>

definition queue_end :: "'e SensorEventQueue \<Rightarrow> int" where
  "queue_end q = (mStart q + mSize q) mod mCapacity q"

definition contents :: "'e SensorEventQueue \<Rightarrow> 'e list" where
  "contents q = map (\<lambda>i. mData q ! slot q i) [0..<nat (mSize q)]"

definition free_space :: "'e SensorEventQueue \<Rightarrow> int" where
  "free_space q = mCapacity q - mSize q"

section \<open>Lemmas\<close>

lemma length_contents [simp]: "length (contents q) = nat (mSize q)"
  by (simp add: contents_def)

lemma queue_inv_new: "0 < c \<Longrightarrow> c \<le> 2 ^ 30 \<Longrightarrow> queue_inv (new_queue junk c)"
  by (simp add: queue_inv_def new_queue_def)

lemma contents_new [simp]: "contents (new_queue junk c) = []"
  by (simp add: contents_def new_queue_def)

lemma queue_invD:
  assumes "queue_inv q"
  shows "0 < mCapacity q" "mCapacity q \<le> 1073741824" "0 \<le> mStart q" "mStart q < mCapacity q"
    "0 \<le> mSize q" "mSize q \<le> mCapacity q" "length (mData q) = nat (mCapacity q)"
  using assms by (simp_all add: queue_inv_def)

lemma queue_end_bounds: "queue_inv q \<Longrightarrow> 0 \<le> queue_end q" "queue_inv q \<Longrightarrow> queue_end q < mCapacity q"
  by (simp_all add: queue_end_def queue_inv_def)

text \<open>The end of the readable region, in the two shapes the ring can have.\<close>

lemma queue_end_cases:
  assumes "queue_inv q"
  shows "queue_end q =
    (if mStart q + mSize q < mCapacity q then mStart q + mSize q
     else mStart q + mSize q - mCapacity q)"
proof (cases "mStart q + mSize q < mCapacity q")
  case True
  with assms show ?thesis by (simp add: queue_inv_def queue_end_def)
next
  case False
  then have "queue_end q = (mStart q + mSize q - mCapacity q) mod mCapacity q"
    by (simp add: queue_end_def)
  also have "\<dots> = mStart q + mSize q - mCapacity q"
    using False queue_invD [OF assms] by (intro mod_pos_pos_trivial) linarith+
  finally show ?thesis using False by simp
qed

lemma getWritableRegion_eq:
  assumes "queue_inv q" and "0 < req" and "req \<le> 2 ^ 30" and "mSize q < mCapacity q"
  shows "getWritableRegion q req =
    (Some (queue_end q), min req (min (mCapacity q - queue_end q) (free_space q)))"
proof -
  note inv = queue_invD [OF assms(1)] and eb = queue_end_bounds [OF assms(1)]
  have sum: "s32 (mStart q + mSize q) = mStart q + mSize q"
    using inv by (intro s32_id) simp_all
  have f: "s32 (mStart q + mSize q) smod mCapacity q = queue_end q"
    using inv by (simp add: sum smod_nonneg queue_end_def)
  have req: "s32 (queue_end q + req) = queue_end q + req"
    using inv eb assms(2,3) by (intro s32_id) simp_all
  have last: "s32 (s32 (queue_end q + req) - 1) = queue_end q + req - 1"
    unfolding req using inv eb assms(2,3) by (intro s32_id) simp_all
  show ?thesis
    using assms(2,4) inv eb queue_end_cases [OF assms(1)]
    unfolding getWritableRegion_def Let_def f last free_space_def min_def
    by (simp split: if_splits)
qed

lemma getWritableRegion_full [simp]: "mSize q = mCapacity q \<Longrightarrow> getWritableRegion q req = (None, 0)"
  by (simp add: getWritableRegion_def)

subsection \<open>Slots of the ring\<close>

lemma slot_less: "queue_inv q \<Longrightarrow> slot q i < nat (mCapacity q)"
  by (simp add: slot_def queue_inv_def)

lemma slot_inj:
  assumes "queue_inv q" and "i < nat (mCapacity q)" and "j < nat (mCapacity q)"
    and "slot q i = slot q j"
  shows "i = j"
proof -
  have c: "0 < mCapacity q" using assms(1) by (simp add: queue_inv_def)
  have "(mStart q + int i) mod mCapacity q = (mStart q + int j) mod mCapacity q"
    using assms(4) c by (simp add: slot_def eq_nat_nat_iff)
  then have "mCapacity q dvd int i - int j"
    by (simp add: mod_eq_dvd_iff)
  moreover have "\<bar>int i - int j\<bar> < mCapacity q"
    using assms(2,3) by linarith
  ultimately have "int i - int j = 0" by (rule dvd_small_zero)
  then show ?thesis by simp
qed

text \<open>
  The writable region consists of the slots right after the readable ones, as long as it does not
  run past the end of the array.
\<close>

lemma region_slot:
  assumes "queue_inv q" and "queue_end q + int j < mCapacity q"
  shows "slot q (nat (mSize q) + j) = nat (queue_end q) + j"
proof -
  note inv = queue_invD [OF assms(1)] and eb = queue_end_bounds [OF assms(1)]
  have "(mStart q + int (nat (mSize q) + j)) mod mCapacity q = (queue_end q + int j) mod mCapacity q"
    using inv by (simp add: queue_end_def mod_add_left_eq add.assoc)
  also have "\<dots> = queue_end q + int j"
    using eb assms(2) by (intro mod_pos_pos_trivial) linarith+
  finally show ?thesis
    using eb by (simp add: slot_def nat_add_distrib)
qed

definition region_ok :: "'e SensorEventQueue \<Rightarrow> int \<Rightarrow> int \<Rightarrow> bool" where
  "region_ok q f n \<longleftrightarrow> f = queue_end q \<and> 0 \<le> n \<and> n \<le> free_space q \<and> f + n \<le> mCapacity q"

lemma region_okD:
  assumes "region_ok q f n"
  shows "f = queue_end q" "0 \<le> n" "n \<le> mCapacity q - mSize q" "f + n \<le> mCapacity q"
  using assms by (simp_all add: region_ok_def free_space_def)

lemma region_disjoint:
  assumes "queue_inv q" and "region_ok q f n"
    and "f \<le> int k" and "int k < f + n" and "i < nat (mSize q)"
  shows "slot q i \<noteq> k"
proof
  assume eq: "slot q i = k"
  note inv = queue_invD [OF assms(1)] and eb = queue_end_bounds [OF assms(1)]
    and reg = region_okD [OF assms(2)]
  define j where "j = nat (int k - f)"
  have j: "int j = int k - f" using assms(3) by (simp add: j_def)
  have "slot q (nat (mSize q) + j) = nat (queue_end q) + j"
    using reg j assms(4) by (intro region_slot [OF assms(1)]) linarith
  also have "\<dots> = k" using j eb reg(1) by linarith
  finally have "slot q i = slot q (nat (mSize q) + j)" using eq by simp
  moreover have "i < nat (mCapacity q)" using inv assms(5) by linarith
  moreover have "nat (mSize q) + j < nat (mCapacity q)" using inv reg j assms(4) by linarith
  ultimately have "i = nat (mSize q) + j" using slot_inj [OF assms(1)] by blast
  with assms(5) show False by simp
qed

lemma getWritableRegion_ok:
  assumes "queue_inv q" and "0 < req" and "req \<le> 2 ^ 30"
    and "getWritableRegion q req = (Some f, n)"
  shows "region_ok q f n" and "0 < n" and "n \<le> req" and "mSize q < mCapacity q"
proof -
  note inv = queue_invD [OF assms(1)] and eb = queue_end_bounds [OF assms(1)]
  have "mSize q \<noteq> mCapacity q" using assms(4) by auto
  with inv show less: "mSize q < mCapacity q" by linarith
  have eq: "f = queue_end q \<and> n = min req (min (mCapacity q - queue_end q) (free_space q))"
    using assms(4) unfolding getWritableRegion_eq [OF assms(1-3) less] by auto
  show "region_ok q f n" and "0 < n" and "n \<le> req"
    using assms(2) less eb eq by (auto simp: region_ok_def free_space_def)
qed

subsection \<open>Preservation and the abstract effect of each operation\<close>

lemma fill_region_simps [simp]:
  "mCapacity (fill_region f es q) = mCapacity q"
  "mStart (fill_region f es q) = mStart q"
  "mSize (fill_region f es q) = mSize q"
  by (simp_all add: fill_region_def)

lemma queue_inv_fill [simp]: "queue_inv (fill_region f es q) = queue_inv q"
  by (simp add: queue_inv_def fill_region_def)

lemma markAsWritten_eq:
  assumes "queue_inv q" and "0 \<le> n" and "n \<le> free_space q"
  shows "markAsWritten n q = q\<lparr>mSize := mSize q + n\<rparr>"
proof -
  have "s32 (mSize q + n) = mSize q + n"
    using queue_invD [OF assms(1)] assms(2,3) by (intro s32_id) (simp_all add: free_space_def)
  then show ?thesis by (simp add: markAsWritten_def)
qed

lemma markAsWritten_inv:
  "queue_inv q \<Longrightarrow> 0 \<le> n \<Longrightarrow> n \<le> free_space q \<Longrightarrow> queue_inv (markAsWritten n q)"
  by (simp add: markAsWritten_eq) (simp add: queue_inv_def free_space_def)

lemma markAsWritten_contents:
  assumes "queue_inv q" and "region_ok q f n" and "0 \<le> m" and "m \<le> n"
  shows "contents (markAsWritten m q) =
    contents q @ map (\<lambda>j. mData q ! (nat f + j)) [0..<nat m]"
proof -
  note inv = queue_invD [OF assms(1)] and reg = region_okD [OF assms(2)]
  have mark: "markAsWritten m q = q\<lparr>mSize := mSize q + m\<rparr>"
    using assms by (intro markAsWritten_eq) (auto simp: region_ok_def)
  have same: "slot (q\<lparr>mSize := mSize q + m\<rparr>) = slot q"
    by (rule ext) (simp add: slot_def)
  have upt: "[0..<nat (mSize q + m)]
      = [0..<nat (mSize q)] @ map (\<lambda>j. nat (mSize q) + j) [0..<nat m]"
    unfolding nat_add_distrib [OF inv(5) assms(3)] by (rule upt_split)
  have "slot q (nat (mSize q) + j) = nat f + j" if "j < nat m" for j
    unfolding reg(1) using reg assms(4) that by (intro region_slot [OF assms(1)]) linarith
  then have "map (\<lambda>i. mData q ! slot q i) (map (\<lambda>j. nat (mSize q) + j) [0..<nat m])
      = map (\<lambda>j. mData q ! (nat f + j)) [0..<nat m]"
    by simp
  moreover have "mSize (markAsWritten m q) = mSize q + m" "mData (markAsWritten m q) = mData q"
    "slot (markAsWritten m q) = slot q"
    by (simp_all add: mark same)
  ultimately show ?thesis
    unfolding contents_def by (simp only: upt map_append)
qed

lemma dequeue_inv: "queue_inv q \<Longrightarrow> queue_inv (fst (dequeue q))"
  by (auto simp: queue_inv_def dequeue_def s32_id smod_nonneg)

lemma contents_dequeue_Cons:
  assumes "queue_inv q" and "mSize q \<noteq> 0"
  shows "contents q = mData q ! nat (mStart q) # contents (fst (dequeue q))"
proof -
  note inv = queue_invD [OF assms(1)]
  have start: "s32 (mStart q + 1) smod mCapacity q = (mStart q + 1) mod mCapacity q"
    using inv by (simp add: s32_id smod_nonneg)
  have slot: "slot (fst (dequeue q)) i = slot q (Suc i)" for i
    using assms(2) by (simp add: slot_def dequeue_def start mod_add_left_eq add.assoc)
  have size: "nat (mSize q) = Suc (nat (mSize q - 1))"
    using inv(5) assms(2) by linarith
  have "[0..<nat (mSize q)] = 0 # map Suc [0..<nat (mSize q - 1)]"
    unfolding size map_Suc_upt by (rule upt_conv_Cons) simp
  then have "contents q
      = mData q ! slot q 0 # map (\<lambda>i. mData q ! slot q (Suc i)) [0..<nat (mSize q - 1)]"
    by (simp add: contents_def del: upt_Suc)
  moreover have "slot q 0 = nat (mStart q)"
    using inv by (simp add: slot_def)
  moreover have "mData (fst (dequeue q)) = mData q" "mSize (fst (dequeue q)) = mSize q - 1"
    using assms(2) by (simp_all add: dequeue_def)
  ultimately show ?thesis by (simp add: contents_def slot)
qed

lemma contents_empty_iff: "queue_inv q \<Longrightarrow> contents q = [] \<longleftrightarrow> mSize q = 0"
  using contents_dequeue_Cons [of q] by (cases "mSize q = 0") (auto simp: contents_def)

lemma dequeue_contents: "queue_inv q \<Longrightarrow> contents (fst (dequeue q)) = tl (contents q)"
  by (cases "mSize q = 0")
    (simp_all add: contents_dequeue_Cons, simp add: dequeue_def contents_def)

lemma queue_peek_contents:
  assumes "queue_inv q"
  shows "queue_peek q = (case contents q of [] \<Rightarrow> None | e # _ \<Rightarrow> Some e)"
proof (cases "mSize q = 0")
  case True
  then show ?thesis by (simp add: queue_peek_def contents_def)
next
  case False
  with contents_dequeue_Cons [OF assms] show ?thesis by (simp add: queue_peek_def)
qed

lemma dequeue_size: "mSize q \<noteq> 0 \<Longrightarrow> mSize (fst (dequeue q)) = mSize q - 1"
  by (simp add: dequeue_def)

text \<open>Filling a writable region leaves the readable records alone.\<close>

lemma fill_region_contents:
  assumes "queue_inv q" and "region_ok q f n" and "int (length es) \<le> n"
  shows "contents (fill_region f es q) = contents q"
proof -
  note inv = queue_invD [OF assms(1)] and eb = queue_end_bounds [OF assms(1)]
    and reg = region_okD [OF assms(2)]
  have "write_at (mData q) (nat f) es ! slot q i = mData q ! slot q i" if "i < nat (mSize q)" for i
  proof -
    have "\<not> (f \<le> int (slot q i) \<and> int (slot q i) < f + n)"
      using region_disjoint [OF assms(1,2) _ _ that, of "slot q i"] by blast
    then have "\<not> (nat f \<le> slot q i \<and> slot q i < nat f + length es)"
      using assms(3) eb(1) reg(1) by linarith
    moreover have "nat f + length es \<le> length (mData q)"
      using inv eb reg assms(3) by linarith
    moreover have "slot q i < length (mData q)"
      using inv slot_less [OF assms(1), of i] by simp
    ultimately show ?thesis by (subst nth_write_at) auto
  qed
  then show ?thesis by (simp add: contents_def slot_def fill_region_def)
qed

text \<open>Filling a writable region and marking it appends exactly the events written.\<close>

lemma fill_mark_contents:
  assumes "queue_inv q" and "region_ok q f n" and "int (length es) \<le> n"
  shows "contents (markAsWritten (int (length es)) (fill_region f es q)) = contents q @ es"
proof -
  note inv = queue_invD [OF assms(1)] and eb = queue_end_bounds [OF assms(1)]
    and reg = region_okD [OF assms(2)]
  have reg': "region_ok (fill_region f es q) f n"
    using assms(2) by (simp add: region_ok_def queue_end_def free_space_def)
  have "mData (fill_region f es q) ! (nat f + j) = es ! j" if "j < length es" for j
  proof -
    have "nat f + length es \<le> length (mData q)"
      using inv eb reg assms(3) by linarith
    with that show ?thesis by (simp add: fill_region_def nth_write_at)
  qed
  then have "map (\<lambda>j. mData (fill_region f es q) ! (nat f + j)) [0..<length es] = es"
    by (intro nth_equalityI) simp_all
  then show ?thesis
    using markAsWritten_contents [OF _ reg', of "int (length es)"] assms
    by (simp add: fill_region_contents)
qed

lemma fill_mark_inv:
  assumes "queue_inv q" and "region_ok q f n" and "int (length es) \<le> n"
  shows "queue_inv (markAsWritten (int (length es)) (fill_region f es q))"
  using assms by (intro markAsWritten_inv) (auto simp: region_ok_def free_space_def)

section \<open>The ring is a bounded FIFO\<close>

lemma offer_cases:
  assumes "queue_inv q" and "0 < req" and "req \<le> 2 ^ 30" and "offer req q es = (acc, q')"
  obtains "mSize q = mCapacity q" "acc = []" "q' = q"
  | f n where "region_ok q f n" "0 < n" "acc = take (nat n) es" "int (length acc) \<le> n"
      "q' = markAsWritten (int (length acc)) (fill_region f acc q)"
proof (cases "mSize q = mCapacity q")
  case True
  then have "offer req q es = ([], q)" by (simp add: offer_def)
  with assms(4) True show ?thesis by (intro that(1)) simp_all
next
  case False
  with queue_invD [OF assms(1)] have "mSize q < mCapacity q" by linarith
  from getWritableRegion_eq [OF assms(1-3) this] obtain f n
    where region: "getWritableRegion q req = (Some f, n)" by blast
  note ok = getWritableRegion_ok [OF assms(1-3) region]
  show ?thesis
  proof (rule that(2) [OF ok(1,2)])
    show acc: "acc = take (nat n) es"
      using assms(4) by (simp add: offer_def region Let_def)
    then show "q' = markAsWritten (int (length acc)) (fill_region f acc q)"
      using assms(4) by (simp add: offer_def region Let_def)
    show "int (length acc) \<le> n" using ok(2) unfolding acc length_take by linarith
  qed
qed

interpretation ring: bounded_fifo queue_inv contents "\<lambda>q. nat (free_space q)" "offer 36"
  queue_peek "\<lambda>q. fst (dequeue q)"
proof (unfold_locales, goal_cases)
  case (1 q es acc q')
  show ?case
    by (rule offer_cases [OF 1(1) _ _ 1(2)]) (simp_all add: fill_mark_contents [OF 1(1)] del: length_take)
next
  case (2 q es acc q')
  show ?case
    by (rule offer_cases [OF 2(1) _ _ 2(2)]) (simp_all add: min_def)
next
  case (3 q es acc q')
  show ?case
    using 3(3,4) by (rule_tac offer_cases [OF 3(1) _ _ 3(2)]) (auto simp: free_space_def)
next
  case (4 q es acc q')
  show ?case
    by (rule offer_cases [OF 4(1) _ _ 4(2)])
      (simp_all add: 4(1) fill_mark_inv [OF 4(1)] del: length_take)
qed (simp_all add: queue_peek_contents dequeue_contents dequeue_inv)

section \<open>Readers do not disturb a writer that is filling its region\<close>

lemma dequeue_start:
  assumes "queue_inv q" and "mSize q \<noteq> 0"
  shows "fst (dequeue q) = q\<lparr>mSize := mSize q - 1, mStart := (mStart q + 1) mod mCapacity q\<rparr>"
  using queue_invD [OF assms(1)] assms(2) by (simp add: dequeue_def s32_id smod_nonneg)

lemma queue_end_dequeue: "queue_inv q \<Longrightarrow> queue_end (fst (dequeue q)) = queue_end q"
  by (cases "mSize q = 0")
    (simp add: dequeue_def, simp add: dequeue_start queue_end_def mod_add_left_eq)

lemma mCapacity_dequeue [simp]: "mCapacity (fst (dequeue q)) = mCapacity q"
  by (simp add: dequeue_def)

lemma mSize_dequeue_le: "mSize (fst (dequeue q)) \<le> mSize q"
  by (simp add: dequeue_def)

lemma region_ok_dequeue: "queue_inv q \<Longrightarrow> region_ok q f n \<Longrightarrow> region_ok (fst (dequeue q)) f n"
  using mSize_dequeue_le [of q] by (auto simp: region_ok_def queue_end_dequeue free_space_def)

definition dequeue_times :: "nat \<Rightarrow> 'e SensorEventQueue \<Rightarrow> 'e SensorEventQueue" where
  "dequeue_times k = (\<lambda>q. fst (dequeue q)) ^^ k"

lemma dequeue_times_region:
  "queue_inv q \<Longrightarrow> region_ok q f n
    \<Longrightarrow> queue_inv (dequeue_times k q) \<and> region_ok (dequeue_times k q) f n"
  by (induction k) (auto simp: dequeue_times_def intro: dequeue_inv region_ok_dequeue)

section \<open>Properties\<close>

text \<open>
  C6: the region handed to the writer. On a full queue it is null and empty; otherwise it starts
  right after the last readable record and has exactly the requested length, cut at the end of the
  array and at the free space. So it is never longer than \<open>min(capacity, requestedLength)\<close>, it has
  at least one slot whenever there is space, and no intermediate \<open>int\<close> overflows.
\<close>

theorem writable_region_exact:
  assumes "queue_inv q" and "0 < requestedLength" and "requestedLength \<le> 2 ^ 30"
  shows "getWritableRegion q requestedLength =
    (if mSize q = mCapacity q then (None, 0)
     else (Some (queue_end q),
           min requestedLength (min (mCapacity q - queue_end q) (mCapacity q - getSize q))))
    \<and> (mSize q \<noteq> mCapacity q \<longleftrightarrow> 1 \<le> snd (getWritableRegion q requestedLength))"
proof (cases "mSize q = mCapacity q")
  case True
  then show ?thesis by simp
next
  case False
  note inv = queue_invD [OF assms(1)] and eb = queue_end_bounds [OF assms(1)]
  from False inv have "mSize q < mCapacity q" by linarith
  with getWritableRegion_eq [OF assms this] False eb assms(2) show ?thesis
    by (simp add: free_space_def getSize_def)
qed

theorem writable_region_exact_witness:
  "getWritableRegion \<lparr>mCapacity = 4, mStart = 3, mSize = 2, mData = [10, 20, 30, 40 :: nat]\<rparr> 36
    = (Some 1, 2)"
proof -
  let ?q = "\<lparr>mCapacity = 4, mStart = 3, mSize = 2, mData = [10, 20, 30, 40 :: nat]\<rparr>"
  have "queue_inv ?q" by (simp add: queue_inv_def)
  from writable_region_exact [OF this, of 36] show ?thesis
    by (simp add: queue_end_def getSize_def)
qed

text \<open>
  C7: reading under the lock is safe while the writer fills its region without it. After the region
  was handed out and however many records were dequeued since, writing into the region leaves the
  readable records as they are, and marking what was written appends exactly that.
\<close>

theorem region_write_safe:
  assumes "queue_inv q" and "0 < req" and "req \<le> 2 ^ 30"
    and "getWritableRegion q req = (Some f, n)" and "int (length es) \<le> n"
  shows "contents (fill_region f es (dequeue_times k q)) = contents (dequeue_times k q)
    \<and> contents (markAsWritten (int (length es)) (fill_region f es (dequeue_times k q)))
      = contents (dequeue_times k q) @ es"
proof -
  have "queue_inv (dequeue_times k q) \<and> region_ok (dequeue_times k q) f n"
    using assms by (intro dequeue_times_region getWritableRegion_ok(1))
  then have inv: "queue_inv (dequeue_times k q)" and reg: "region_ok (dequeue_times k q) f n"
    by simp_all
  show ?thesis
    using fill_region_contents [OF inv reg assms(5)] fill_mark_contents [OF inv reg assms(5)]
    by simp
qed

theorem region_write_safe_witness:
  "contents (fill_region 1 [50, 60] (dequeue_times 1
     \<lparr>mCapacity = 4, mStart = 3, mSize = 2, mData = [10, 20, 30, 40 :: nat]\<rparr>)) = [10]"
proof -
  let ?q = "\<lparr>mCapacity = 4, mStart = 3, mSize = 2, mData = [10, 20, 30, 40 :: nat]\<rparr>"
  have inv: "queue_inv ?q" by (simp add: queue_inv_def)
  have region: "getWritableRegion ?q 36 = (Some 1, 2)"
    by (simp add: getWritableRegion_def s32_def smod_nonneg)
  have "contents (dequeue_times 1 ?q) = [10]"
    by (simp add: dequeue_times_def dequeue_def contents_def slot_def s32_def smod_nonneg)
  with region_write_safe [OF inv _ _ region, of "[50, 60]" 1] show ?thesis by simp
qed

text \<open>
  C15: the ring is first-in first-out over every sequence of writer turns and dequeues, starting from
  the constructor: what was accepted is what was consumed followed by what is still readable, and
  every turn accepts a prefix of what it was offered.
\<close>

theorem ring_fifo:
  assumes "0 < capacity" and "capacity \<le> 2 ^ 30"
    and "queue_run (offer 36) queue_peek (\<lambda>q. fst (dequeue q)) ops (new_queue junk capacity)
         = (accepted, consumed, q)"
  shows "accepted = consumed @ contents q
    \<and> getSize q = int (length accepted) - int (length consumed)
    \<and> getSize q \<le> mCapacity q"
proof -
  have "queue_inv q" and eq: "accepted = consumed @ contents q"
    using ring.queue_run_fifo [OF queue_inv_new [OF assms(1,2)] assms(3)] by simp_all
  from queue_invD [OF this(1)] show ?thesis by (simp add: eq getSize_def)
qed

theorem ring_fifo_witness:
  "\<exists>q. [1, 2, 3, 4] = [1, 2 :: nat] @ contents q \<and> getSize q = 2"
proof -
  let ?q0 = "new_queue (\<lambda>_. 0) 3"
  let ?ops = "[Offer [1, 2 :: nat], Take, Offer [3, 9], Take, Offer [4]]"
  obtain q where run: "queue_run (offer 36) queue_peek (\<lambda>q. fst (dequeue q)) ?ops ?q0
      = ([1, 2, 3, 4], [1, 2], q)"
    by (simp add: new_queue_def offer_def getWritableRegion_def queue_peek_def dequeue_def
        fill_region_def markAsWritten_def s32_def smod_nonneg Let_def upt_rec)
  from ring_fifo [OF _ _ run] show ?thesis by (intro exI [of _ q]) simp
qed

text \<open>
  \<open>waitForSpace\<close> returns the queue of the first moment (the call itself or one of its wake-ups)
  at which there is space, reports that it waited exactly when the call found the queue full, and
  stays blocked only while every wake-up finds the queue full.
\<close>

theorem waitForSpace_correct:
  "waitForSpace False q wakes =
    (case dropWhile (\<lambda>r. mSize r = mCapacity r) (q # wakes) of
       [] \<Rightarrow> None
     | r # _ \<Rightarrow> Some (mSize q = mCapacity q, r))"
  by (simp only: waitForSpace_dropWhile simp_thms)

end
