(* ===== verification/Sensor_Init.thy ===== *)
theory Sensor_Init
  imports Sensor_Device Event_Queue
begin

text \<open>
  Initialisation of the multi-HAL, \<open>sensors/multihal.cpp\<close> lines 234 to 248 and 563 to 848: reading
  the configuration, loading the sub-HALs, opening them, and building the list of all sensors with
  global handles. \<open>open_sensors\<close> takes \<open>queue_mutex\<close> and leaves it locked; the first run of
  \<open>lazy_init_sensors_list\<close> releases it, so that no event is handled before the handles are known.
\<close>

section \<open>The world outside\<close>

datatype load_result = DlopenFailed | DlsymError | NullModule | Module nat

text \<open>
  Files, the dynamic linker and the sub-HALs are parameters: the content of a configuration file,
  what loading a library gives, the sensors a module reports at its first and at its second
  request, what opening a module gives, and the values of memory that is not initialised.
\<close>

record 'i hal_env =
  config_file :: "string \<Rightarrow> string option"
  load_module :: "string \<Rightarrow> load_result"
  module_sensors :: "nat \<Rightarrow> nat \<Rightarrow> 'i sensor list"
  module_open :: "nat \<Rightarrow> int \<times> hw_device"
  junk_sensor :: "'i sensor"
  junk_batch :: batch_data

text \<open>
  The state of the process: the context and the tables of the proxy device, the loaded modules, the
  versions \<open>open_sensors\<close> leaves for \<open>lazy_init_sensors_list\<close>, the capacities of the queues of the
  context, and whether \<open>queue_mutex\<close> is locked.
\<close>

record ('p, 'i) hal_process =
  mh :: "('p, 'i) multihal"
  sub_hw_modules :: "nat list option"
  sub_hw_versions :: "(nat \<rightharpoonup> int) option"
  global_sensors_count :: int
  ctx_queues :: "'p sensors_event SensorEventQueue list"
  queue_mutex_locked :: bool

definition process_start :: "('p, 'i) hal_process" where
  "process_start = \<lparr>
     mh = \<lparr>hm = initial_handles, sub_hw_devices = [], global_sensors_list = None,
       sensors_batch_list = None, sensors_enable_state = None, hal_calls = []\<rparr>,
     sub_hw_modules = None, sub_hw_versions = None, global_sensors_count = -1,
     ctx_queues = [], queue_mutex_locked = False\<rparr>"

section \<open>Configuration and loading\<close>

definition starts_with :: "string option \<Rightarrow> string option \<Rightarrow> bool" where
  "starts_with s pre =
     (case (s, pre) of
        (Some s, Some pre) \<Rightarrow>
          length s \<ge> length pre \<and> take (length pre) s = take (length pre) pre
      | _ \<Rightarrow> False)"

definition MULTI_HAL_CONFIG_FILE_PATH :: string where
  "MULTI_HAL_CONFIG_FILE_PATH = ''/vendor/etc/sensors/_hals.conf''"

definition DEPRECATED_MULTI_HAL_CONFIG_FILE_PATH :: string where
  "DEPRECATED_MULTI_HAL_CONFIG_FILE_PATH = ''/system/etc/sensors/_hals.conf''"

text \<open>The lines that successive calls of \<open>std::getline\<close> extract.\<close>

function getlines :: "string \<Rightarrow> string list" where
  "getlines buf =
     (if buf = [] then []
      else takeWhile (\<lambda>c. c \<noteq> CHR 0x0A) buf
           # getlines (drop 1 (dropWhile (\<lambda>c. c \<noteq> CHR 0x0A) buf)))"
  by pat_completeness auto
termination
proof (relation "measure length")
  fix buf :: string
  assume "buf \<noteq> []"
  moreover have "length (dropWhile (\<lambda>c. c \<noteq> CHR 0x0A) buf) \<le> length buf"
    by (rule length_dropWhile_le)
  ultimately show "(drop 1 (dropWhile (\<lambda>c. c \<noteq> CHR 0x0A) buf), buf) \<in> measure length"
    by (simp, cases buf) auto
qed simp

declare getlines.simps [simp del]

text \<open>
  The first configuration file that opens is read. When none does, the stream object is still the
  default one, whose state is good, so the test \<open>!stream\<close> fails and the null path goes to \<open>strcmp\<close>.
\<close>

definition get_so_paths :: "'i hal_env \<Rightarrow> string list c_result" where
  "get_so_paths E =
     (case config_file E MULTI_HAL_CONFIG_FILE_PATH of
        Some content \<Rightarrow> Inr (getlines content)
      | None \<Rightarrow>
          (case config_file E DEPRECATED_MULTI_HAL_CONFIG_FILE_PATH of
             Some content \<Rightarrow> Inr (getlines content)
           | None \<Rightarrow> Inl NullDeref))"

fun load_modules :: "'i hal_env \<Rightarrow> string list \<Rightarrow> nat list" where
  "load_modules E [] = []"
| "load_modules E (path # paths) =
     (case load_module E path of
        DlopenFailed \<Rightarrow> load_modules E paths
      | DlsymError \<Rightarrow> load_modules E paths
      | NullModule \<Rightarrow> load_modules E paths
      | Module m \<Rightarrow> m # load_modules E paths)"

definition lazy_init_modules :: "'i hal_env \<Rightarrow> ('p, 'i) hal_process \<Rightarrow> ('p, 'i) hal_process c_result" where
  "lazy_init_modules E st =
     (if sub_hw_modules st \<noteq> None then Inr st
      else case get_so_paths E of
             Inl f \<Rightarrow> Inl f
           | Inr so_paths \<Rightarrow> Inr (st\<lparr>sub_hw_modules := Some (load_modules E so_paths)\<rparr>))"

section \<open>Opening\<close>

definition addSubHwDevice :: "(nat \<Rightarrow> 'p sensors_event) \<Rightarrow> hw_device \<Rightarrow> ('p, 'i) hal_process
    \<Rightarrow> ('p, 'i) hal_process" where
  "addSubHwDevice junk sub_hw_device st =
     st\<lparr>mh := (mh st)\<lparr>sub_hw_devices := sub_hw_devices (mh st) @ [sub_hw_device]\<rparr>,
       ctx_queues := ctx_queues st @ [new_queue junk SENSOR_EVENT_QUEUE_CAPACITY]\<rparr>"

fun open_modules :: "'i hal_env \<Rightarrow> (nat \<Rightarrow> 'p sensors_event) \<Rightarrow> nat list \<Rightarrow> ('p, 'i) hal_process
    \<Rightarrow> ('p, 'i) hal_process" where
  "open_modules E junk [] st = st"
| "open_modules E junk (m # ms) st =
     (let (sub_open_result, sub_hw_device) = module_open E m
      in if sub_open_result = 0 then
           (let st = addSubHwDevice junk sub_hw_device st;
                st = st\<lparr>sub_hw_versions := map_option
                       (\<lambda>vs. if vs m = None then vs(m \<mapsto> dev_version sub_hw_device) else vs)
                       (sub_hw_versions st)\<rparr>
            in open_modules E junk ms st)
         else open_modules E junk ms st)"

definition open_sensors :: "'i hal_env \<Rightarrow> (nat \<Rightarrow> 'p sensors_event) \<Rightarrow> ('p, 'i) hal_process
    \<Rightarrow> (int \<times> ('p, 'i) hal_process) c_result" where
  "open_sensors E junk st =
     (case lazy_init_modules E st of
        Inl f \<Rightarrow> Inl f
      | Inr st \<Rightarrow>
          (let st = st\<lparr>mh := (mh st)\<lparr>sub_hw_devices := []\<rparr>, ctx_queues := []\<rparr>
           in if queue_mutex_locked st then Inl Deadlock
              else let st = st\<lparr>queue_mutex_locked := True, sub_hw_versions := Some Map.empty\<rparr>
                   in case sub_hw_modules st of
                        None \<Rightarrow> Inl NullDeref
                      | Some ms \<Rightarrow> Inr (0, open_modules E junk ms st)))"

section \<open>The list of all sensors\<close>

definition fix_sensor_flags :: "sensors_h \<Rightarrow> int \<Rightarrow> 'i sensor \<Rightarrow> 'i sensor" where
  "fix_sensor_flags H version sensor =
     (if version < SENSORS_DEVICE_API_VERSION_1_3 H then
        (if s_type sensor = SENSOR_TYPE_PROXIMITY H
         then sensor\<lparr>s_flags := or (or (s_flags sensor) (SENSOR_FLAG_ON_CHANGE_MODE H))
                (SENSOR_FLAG_WAKE_UP H)\<rparr>
         else if s_type sensor = SENSOR_TYPE_TEMPERATURE H
         then sensor\<lparr>s_flags := or (s_flags sensor) (SENSOR_FLAG_ON_CHANGE_MODE H)\<rparr>
         else if s_type sensor = SENSOR_TYPE_LIGHT H
         then sensor\<lparr>s_flags := or (s_flags sensor) (SENSOR_FLAG_ON_CHANGE_MODE H)\<rparr>
         else sensor)
      else sensor)"

fun count_sensors :: "'i hal_env \<Rightarrow> nat list \<Rightarrow> int \<Rightarrow> int" where
  "count_sensors E [] count = count"
| "count_sensors E (m # ms) count =
     count_sensors E ms (s32 (count + int (length (module_sensors E m 0))))"

text \<open>The inner and the outer copy loop, over the array, the next index and the handle tables.\<close>

fun copy_sensors :: "sensors_h \<Rightarrow> (nat \<rightharpoonup> int) option \<Rightarrow> nat \<Rightarrow> nat \<Rightarrow> 'i sensor list
    \<Rightarrow> 'i sensor list \<times> nat \<times> handle_maps \<Rightarrow> ('i sensor list \<times> nat \<times> handle_maps) c_result" where
  "copy_sensors H versions m module_index [] acc = Inr acc"
| "copy_sensors H versions m module_index (local_sensor # rest) (l, i, h) =
     (if length l \<le> i then Inl OutOfBounds
      else let l = l[i := local_sensor];
               (global_handle, h) = assign_global_handle (int module_index) (s_handle local_sensor) h;
               l = l[i := (l ! i)\<lparr>s_handle := global_handle\<rparr>]
           in case versions of
                None \<Rightarrow> Inl NullDeref
              | Some vs \<Rightarrow>
                  (case vs m of
                     None \<Rightarrow> Inl OutOfRange
                   | Some version \<Rightarrow>
                       copy_sensors H versions m module_index rest
                         (l[i := fix_sensor_flags H version (l ! i)], Suc i, h)))"

fun copy_modules :: "'i hal_env \<Rightarrow> sensors_h \<Rightarrow> (nat \<rightharpoonup> int) option \<Rightarrow> nat list \<Rightarrow> nat
    \<Rightarrow> 'i sensor list \<times> nat \<times> handle_maps \<Rightarrow> ('i sensor list \<times> nat \<times> handle_maps) c_result" where
  "copy_modules E H versions [] module_index acc = Inr acc"
| "copy_modules E H versions (m # ms) module_index acc =
     (case copy_sensors H versions m module_index (module_sensors E m 1) acc of
        Inl f \<Rightarrow> Inl f
      | Inr acc \<Rightarrow> copy_modules E H versions ms (Suc module_index) acc)"

definition lazy_init_sensors_list :: "'i hal_env \<Rightarrow> sensors_h \<Rightarrow> ('p, 'i) hal_process
    \<Rightarrow> ('p, 'i) hal_process c_result" where
  "lazy_init_sensors_list E H st =
     (if global_sensors_list (mh st) \<noteq> None then Inr st
      else case lazy_init_modules E st of
             Inl f \<Rightarrow> Inl f
           | Inr st \<Rightarrow>
               (case sub_hw_modules st of
                  None \<Rightarrow> Inl NullDeref
                | Some ms \<Rightarrow>
                    (let count = count_sensors E ms 0
                     in case copy_modules E H (sub_hw_versions st) ms 0
                               (replicate (nat count) (junk_sensor E), 0, hm (mh st)) of
                          Inl f \<Rightarrow> Inl f
                        | Inr (l, i, h) \<Rightarrow>
                            Inr (st\<lparr>global_sensors_count := count,
                                   mh := (mh st)\<lparr>hm := h,
                                     global_sensors_list := Some l,
                                     sensors_batch_list := Some (map (\<lambda>b. b\<lparr>b_empty := True\<rparr>)
                                       (replicate (nat count) (new_batch_data (junk_batch E)))),
                                     sensors_enable_state := Some (replicate (nat count) 0)\<rparr>,
                                   sub_hw_versions := None,
                                   queue_mutex_locked := False\<rparr>))))"

definition get_sensors_list :: "'i hal_env \<Rightarrow> sensors_h \<Rightarrow> ('p, 'i) hal_process
    \<Rightarrow> (int \<times> 'i sensor list option \<times> ('p, 'i) hal_process) c_result" where
  "get_sensors_list E H st =
     (case lazy_init_sensors_list E H st of
        Inl f \<Rightarrow> Inl f
      | Inr st \<Rightarrow> Inr (global_sensors_count st, global_sensors_list (mh st), st))"

definition set_operation_mode :: "32 word \<Rightarrow> int" where
  "set_operation_mode mode = sint mode"

text \<open>The table of the module that the framework looks up by its id.\<close>

record ('open, 'list, 'mode) sensors_module_t =
  sm_version_major :: int
  sm_version_minor :: int
  sm_name :: string
  sm_author :: string
  sm_open :: 'open
  sm_get_sensors_list :: 'list
  sm_set_operation_mode :: 'mode

definition sensors_module_info where
  "sensors_module_info E junk H =
     \<lparr>sm_version_major = 1, sm_version_minor = 1, sm_name = ''MultiHal Sensor Module'', sm_author = ''Google, Inc'',
      sm_open = open_sensors E junk, sm_get_sensors_list = get_sensors_list E H,
      sm_set_operation_mode = set_operation_mode\<rparr>"

definition get_multi_hal_module_info where
  "get_multi_hal_module_info E junk H = sensors_module_info E junk H"

section \<open>What the loops compute\<close>

text \<open>
  All sensors of all modules in the order of the copy loops, each with its module index and its
  module, and the entry the list gets for one of them.
\<close>

fun sensor_rows :: "'i hal_env \<Rightarrow> nat list \<Rightarrow> nat \<Rightarrow> (nat \<times> nat \<times> 'i sensor) list" where
  "sensor_rows E [] k = []"
| "sensor_rows E (m # ms) k =
     map (\<lambda>s. (k, m, s)) (module_sensors E m 1) @ sensor_rows E ms (Suc k)"

definition row_full :: "nat \<times> nat \<times> 'i sensor \<Rightarrow> FullHandle" where
  "row_full = (\<lambda>(k, m, s). FullHandle (int k) (s_handle s))"

definition row_entry :: "sensors_h \<Rightarrow> (nat \<rightharpoonup> int) \<Rightarrow> nat \<times> nat \<times> 'i sensor \<Rightarrow> int \<Rightarrow> 'i sensor" where
  "row_entry H vs = (\<lambda>(k, m, s) g. fix_sensor_flags H (the (vs m)) (s\<lparr>s_handle := g\<rparr>))"

definition row_entries :: "sensors_h \<Rightarrow> (nat \<rightharpoonup> int) \<Rightarrow> (nat \<times> nat \<times> 'i sensor) list \<Rightarrow> int list
    \<Rightarrow> 'i sensor list" where
  "row_entries H vs rows gs = map2 (row_entry H vs) rows gs"

lemma row_entries_simps [simp]:
  "row_entries H vs [] gs = []"
  "row_entries H vs (r # rows) (g # gs) = row_entry H vs r g # row_entries H vs rows gs"
  by (simp_all add: row_entries_def)

lemma row_entries_append:
  "length rows = length gs \<Longrightarrow>
    row_entries H vs (rows @ rows') (gs @ gs') = row_entries H vs rows gs @ row_entries H vs rows' gs'"
  by (simp add: row_entries_def)

lemma length_row_entries [simp]:
  "length gs = length rows \<Longrightarrow> length (row_entries H vs rows gs) = length rows"
  by (simp add: row_entries_def)

lemma copy_sensors_rows:
  "i + length ss \<le> length l \<Longrightarrow> vs m = Some v \<Longrightarrow>
    copy_sensors H (Some vs) m k ss (l, i, h) =
      (let rows = map (\<lambda>s. (k, m, s)) ss; (gs, h') = register_all register_full (map row_full rows) h
       in Inr (write_at l i (row_entries H vs rows gs), i + length ss, h'))"
proof (induction ss arbitrary: l i h)
  case Nil
  then show ?case by simp
next
  case (Cons s ss)
  obtain g h1 where reg: "assign_global_handle (int k) (s_handle s) h = (g, h1)" by fastforce
  then have reg': "register_full (row_full (k, m, s)) h = (g, h1)"
    by (simp add: register_full_def row_full_def)
  let ?l1 = "l[i := row_entry H vs (k, m, s) g]"
  have "copy_sensors H (Some vs) m k (s # ss) (l, i, h)
      = copy_sensors H (Some vs) m k ss (?l1, Suc i, h1)"
    using Cons.prems by (simp add: reg Let_def row_entry_def)
  also have "\<dots> = (let rows = map (\<lambda>s. (k, m, s)) ss;
        (gs, h') = register_all register_full (map row_full rows) h1
      in Inr (write_at ?l1 (Suc i) (row_entries H vs rows gs), Suc i + length ss, h'))"
    using Cons.prems by (intro Cons.IH) simp_all
  finally show ?case
    by (simp add: reg' Let_def case_prod_beta)
qed

lemma copy_modules_rows:
  "i + length (sensor_rows E ms k) \<le> length l
    \<Longrightarrow> (\<forall>m \<in> set ms. module_sensors E m 1 \<noteq> [] \<longrightarrow> vs m \<noteq> None) \<Longrightarrow>
    copy_modules E H (Some vs) ms k (l, i, h) =
      (let rows = sensor_rows E ms k; (gs, h') = register_all register_full (map row_full rows) h
       in Inr (write_at l i (row_entries H vs rows gs), i + length rows, h'))"
proof (induction ms arbitrary: k l i h)
  case Nil
  then show ?case by simp
next
  case (Cons m ms)
  let ?ss = "module_sensors E m 1"
  let ?rows = "map (\<lambda>s. (k, m, s)) ?ss"
  let ?reg = "register_all register_full (map row_full ?rows) h"
  let ?l1 = "write_at l i (row_entries H vs ?rows (fst ?reg))"
  have "copy_sensors H (Some vs) m k ?ss (l, i, h) = Inr (?l1, i + length ?ss, snd ?reg)"
  proof (cases "?ss = []")
    case True
    then show ?thesis by simp
  next
    case False
    then obtain v where "vs m = Some v" using Cons.prems(2) by auto
    with Cons.prems(1) show ?thesis
      by (subst copy_sensors_rows) (simp_all add: Let_def case_prod_beta)
  qed
  then have "copy_modules E H (Some vs) (m # ms) k (l, i, h)
      = copy_modules E H (Some vs) ms (Suc k) (?l1, i + length ?ss, snd ?reg)"
    by simp
  also have "\<dots> = (let rows = sensor_rows E ms (Suc k);
        (gs, h') = register_all register_full (map row_full rows) (snd ?reg)
      in Inr (write_at ?l1 (i + length ?ss) (row_entries H vs rows gs),
              i + length ?ss + length rows, h'))"
    using Cons.prems by (intro Cons.IH) simp_all
  finally show ?case
    by (simp add: Let_def case_prod_beta register_all_append row_entries_append write_at_append)
qed

lemma count_sensors_rows:
  "(\<forall>m \<in> set ms. module_sensors E m 0 = module_sensors E m 1) \<Longrightarrow> 0 \<le> c
    \<Longrightarrow> c + int (length (sensor_rows E ms k)) < 2 ^ 31
    \<Longrightarrow> count_sensors E ms c = c + int (length (sensor_rows E ms k))"
proof (induction ms arbitrary: c k)
  case Nil
  then show ?case by simp
next
  case (Cons m ms)
  have "s32 (c + int (length (module_sensors E m 1))) = c + int (length (module_sensors E m 1))"
    using Cons.prems by (intro s32_id) simp_all
  with Cons.prems Cons.IH [of "c + int (length (module_sensors E m 1))" "Suc k"] show ?case
    by simp
qed

definition opened_versions :: "'i hal_env \<Rightarrow> nat list \<Rightarrow> (nat \<rightharpoonup> int) \<Rightarrow> (nat \<rightharpoonup> int)" where
  "opened_versions E ms vs =
     (\<lambda>m. if vs m \<noteq> None then vs m
          else if m \<in> set ms then Some (dev_version (snd (module_open E m))) else None)"

lemma open_modules_all:
  "(\<forall>m \<in> set ms. fst (module_open E m) = 0) \<Longrightarrow> sub_hw_versions st = Some vs \<Longrightarrow>
    sub_hw_devices (mh (open_modules E junk ms st))
      = sub_hw_devices (mh st) @ map (\<lambda>m. snd (module_open E m)) ms
    \<and> sub_hw_versions (open_modules E junk ms st) = Some (opened_versions E ms vs)
    \<and> ctx_queues (open_modules E junk ms st)
      = ctx_queues st @ replicate (length ms) (new_queue junk SENSOR_EVENT_QUEUE_CAPACITY)"
proof (induction ms arbitrary: st vs)
  case Nil
  then show ?case by (auto simp: opened_versions_def)
next
  case (Cons m ms)
  obtain d where open_m: "module_open E m = (0, d)"
    using Cons.prems(1) by (cases "module_open E m") auto
  let ?vs = "if vs m = None then vs(m \<mapsto> dev_version d) else vs"
  let ?st = "(addSubHwDevice junk d st)\<lparr>sub_hw_versions := Some ?vs\<rparr>"
  have step: "open_modules E junk (m # ms) st = open_modules E junk ms ?st"
    using Cons.prems(2) by (simp add: open_m Let_def addSubHwDevice_def)
  have "opened_versions E ms ?vs = opened_versions E (m # ms) vs"
    by (rule ext) (auto simp: opened_versions_def open_m)
  moreover have "sub_hw_devices (mh ?st) = sub_hw_devices (mh st) @ [d]"
    "ctx_queues ?st = ctx_queues st @ [new_queue junk SENSOR_EVENT_QUEUE_CAPACITY]"
    by (simp_all add: addSubHwDevice_def)
  ultimately show ?case
    using Cons.IH [of ?st ?vs] Cons.prems(1) unfolding step by (simp add: open_m)
qed

lemma open_modules_frame:
  "global_sensors_list (mh (open_modules E junk ms st)) = global_sensors_list (mh st)"
  "hm (mh (open_modules E junk ms st)) = hm (mh st)"
  "hal_calls (mh (open_modules E junk ms st)) = hal_calls (mh st)"
  "sub_hw_modules (open_modules E junk ms st) = sub_hw_modules st"
  "queue_mutex_locked (open_modules E junk ms st) = queue_mutex_locked st"
  by (induction ms arbitrary: st)
    (simp_all add: addSubHwDevice_def Let_def case_prod_beta split: prod.splits)

lemma open_modules_arrays:
  "sensors_batch_list (mh (open_modules E junk ms st)) = sensors_batch_list (mh st)"
  "sensors_enable_state (mh (open_modules E junk ms st)) = sensors_enable_state (mh st)"
  by (induction ms arbitrary: st)
    (simp_all add: addSubHwDevice_def Let_def case_prod_beta split: prod.splits)

section \<open>Bringing the multi-HAL up\<close>

text \<open>
  The documented behaviour of the sub-HALs that the code relies on: each opens without an error,
  reports the same sensors whenever it is asked, numbers them with different handles that are not
  negative, and there are fewer sensors than \<open>int\<close> values.
\<close>

definition hals_ok :: "'i hal_env \<Rightarrow> nat list \<Rightarrow> bool" where
  "hals_ok E ms \<longleftrightarrow> (\<forall>m \<in> set ms. fst (module_open E m) = 0
       \<and> module_sensors E m 0 = module_sensors E m 1
       \<and> distinct (map s_handle (module_sensors E m 1))
       \<and> (\<forall>s \<in> set (module_sensors E m 1). 0 \<le> s_handle s))
     \<and> int (length (sensor_rows E ms 0)) < 2 ^ 31 - 1"

lemma sensor_rows_mem:
  "(k', m, s) \<in> set (sensor_rows E ms k)
    \<Longrightarrow> k \<le> k' \<and> k' < k + length ms \<and> ms ! (k' - k) = m \<and> s \<in> set (module_sensors E m 1)"
proof (induction ms arbitrary: k)
  case Nil
  then show ?case by simp
next
  case (Cons m' ms)
  from Cons.prems consider "(k', m, s) \<in> (\<lambda>s. (k, m', s)) ` set (module_sensors E m' 1)"
    | "(k', m, s) \<in> set (sensor_rows E ms (Suc k))"
    by auto
  then show ?case
  proof cases
    case 1
    then show ?thesis by auto
  next
    case 2
    from Cons.IH [OF this] show ?thesis by (auto simp: nth_Cons')
  qed
qed

lemma distinct_row_full:
  "(\<forall>m \<in> set ms. distinct (map s_handle (module_sensors E m 1)))
    \<Longrightarrow> distinct (map row_full (sensor_rows E ms k))"
proof (induction ms arbitrary: k)
  case Nil
  then show ?case by simp
next
  case (Cons m ms)
  have "distinct (map (\<lambda>s. FullHandle (int k) (s_handle s)) (module_sensors E m 1))"
    using Cons.prems by (auto simp: distinct_map inj_on_def)
  moreover have "moduleIndex f \<noteq> int k" if "f \<in> row_full ` set (sensor_rows E ms (Suc k))" for f
    using that by (auto simp: row_full_def dest: sensor_rows_mem)
  ultimately show ?case
    using Cons.IH [of "Suc k"] Cons.prems by (fastforce simp: row_full_def o_def)
qed

text \<open>
  The state of the process between \<open>open_sensors\<close> and the first request of the sensor list, and after
  that request, when everything went well.
\<close>

definition opened_for :: "'i hal_env \<Rightarrow> (nat \<Rightarrow> 'p sensors_event) \<Rightarrow> nat list \<Rightarrow> ('p, 'i) hal_process \<Rightarrow> bool" where
  "opened_for E junk ms st \<longleftrightarrow> queue_mutex_locked st \<and> sub_hw_modules st = Some ms
     \<and> global_sensors_list (mh st) = None \<and> hm (mh st) = initial_handles
     \<and> sub_hw_devices (mh st) = map (\<lambda>m. snd (module_open E m)) ms
     \<and> sub_hw_versions st = Some (opened_versions E ms Map.empty)
     \<and> ctx_queues st = replicate (length ms) (new_queue junk SENSOR_EVENT_QUEUE_CAPACITY)"

definition listed_for :: "'i hal_env \<Rightarrow> sensors_h \<Rightarrow> (nat \<Rightarrow> 'p sensors_event) \<Rightarrow> nat list
    \<Rightarrow> 'i sensor list \<Rightarrow> ('p, 'i) hal_process \<Rightarrow> bool" where
  "listed_for E H junk ms l st \<longleftrightarrow> \<not> queue_mutex_locked st
     \<and> (let rows = sensor_rows E ms 0;
            (gs, h) = register_all register_full (map row_full rows) initial_handles
        in hm (mh st) = h \<and> l = row_entries H (opened_versions E ms Map.empty) rows gs
           \<and> global_sensors_list (mh st) = Some l
           \<and> (\<exists>bs. sensors_batch_list (mh st) = Some bs \<and> length bs = length rows)
           \<and> sensors_enable_state (mh st) = Some (replicate (length rows) 0))
     \<and> sub_hw_devices (mh st) = map (\<lambda>m. snd (module_open E m)) ms
     \<and> ctx_queues st = replicate (length ms) (new_queue junk SENSOR_EVENT_QUEUE_CAPACITY)"

lemma open_sensors_start:
  fixes E :: "'i hal_env" and junk :: "nat \<Rightarrow> 'p sensors_event"
  assumes "get_so_paths E = Inr paths" and "hals_ok E (load_modules E paths)"
  obtains st :: "('p, 'i) hal_process" where "open_sensors E junk process_start = Inr (0, st)"
    "opened_for E junk (load_modules E paths) st"
proof -
  let ?ms = "load_modules E paths"
  let ?begun = "(process_start :: ('p, 'i) hal_process)\<lparr>sub_hw_modules := Some ?ms,
    queue_mutex_locked := True, sub_hw_versions := Some Map.empty\<rparr>"
  have run: "open_sensors E junk process_start = Inr (0, open_modules E junk ?ms ?begun)"
    using assms(1) by (simp add: open_sensors_def lazy_init_modules_def process_start_def Let_def)
  have "\<forall>m \<in> set ?ms. fst (module_open E m) = 0"
    using assms(2) by (simp add: hals_ok_def)
  from open_modules_all [OF this, of ?begun Map.empty junk] open_modules_frame [of E junk ?ms ?begun]
  show ?thesis
    by (intro that [OF run]) (simp add: process_start_def opened_for_def)
qed

lemma copy_all:
  assumes "hals_ok E ms"
  obtains gs h where
    "copy_modules E H (Some (opened_versions E ms Map.empty)) ms 0
       (replicate (nat (count_sensors E ms 0)) junk, 0, initial_handles)
     = Inr (row_entries H (opened_versions E ms Map.empty) (sensor_rows E ms 0) gs,
            length (sensor_rows E ms 0), h)"
    "register_all register_full (map row_full (sensor_rows E ms 0)) initial_handles = (gs, h)"
    "length gs = length (sensor_rows E ms 0)"
    "count_sensors E ms 0 = int (length (sensor_rows E ms 0))"
proof -
  let ?rows = "sensor_rows E ms 0"
  obtain gs h where reg: "register_all register_full (map row_full ?rows) initial_handles = (gs, h)"
    by fastforce
  have len: "length gs = length ?rows"
    using length_register_all [of register_full "map row_full ?rows" initial_handles]
    by (simp add: reg)
  have count: "count_sensors E ms 0 = int (length ?rows)"
    using assms count_sensors_rows [of ms E 0 0] by (simp add: hals_ok_def)
  have "\<forall>m \<in> set ms. module_sensors E m 1 \<noteq> [] \<longrightarrow> opened_versions E ms Map.empty m \<noteq> None"
    by (simp add: opened_versions_def)
  then have "copy_modules E H (Some (opened_versions E ms Map.empty)) ms 0
       (replicate (nat (count_sensors E ms 0)) junk, 0, initial_handles)
     = Inr (row_entries H (opened_versions E ms Map.empty) ?rows gs, length ?rows, h)"
    by (subst copy_modules_rows) (simp_all add: count reg Let_def write_at_all len)
  from that [OF this reg len count] show ?thesis .
qed

lemma registered_rows:
  assumes "hals_ok E ms"
    and "register_all register_full (map row_full (sensor_rows E ms 0)) initial_handles = (gs, h)"
  shows "handle_inv h" "next_global_handle h = 1 + int (length (sensor_rows E ms 0))"
    "gs = map (\<lambda>i. 1 + int i) [0..<length (sensor_rows E ms 0)]"
    "\<And>i. i < length (sensor_rows E ms 0)
      \<Longrightarrow> global_to_full h (1 + int i) = Some (row_full (sensor_rows E ms 0 ! i))"
    "\<And>i. i < length (sensor_rows E ms 0)
      \<Longrightarrow> full_to_global h (row_full (sensor_rows E ms 0 ! i)) = Some (1 + int i)"
proof -
  let ?rows = "sensor_rows E ms 0"
  have len: "length (map row_full ?rows) \<le> handles_left initial_handles"
    using assms(1) by (simp add: hals_ok_def handles_left_def initial_handles_def)
  have dist: "distinct (map row_full ?rows)"
    using assms(1) by (intro distinct_row_full) (simp add: hals_ok_def)
  note numbers = register_all_numbers [OF handle_inv_initial len assms(2)]
  show "handle_inv h"
    using handle_table.register_all_frame [OF handle_inv_initial len assms(2)] by simp
  show "next_global_handle h = 1 + int (length ?rows)"
    and gs: "gs = map (\<lambda>i. 1 + int i) [0..<length ?rows]"
    using numbers by (simp_all add: initial_handles_def)
  fix i
  assume i: "i < length ?rows"
  then show "global_to_full h (1 + int i) = Some (row_full (?rows ! i))"
    and "full_to_global h (row_full (?rows ! i)) = Some (1 + int i)"
    using handle_table.register_all_roundtrip [OF handle_inv_initial len dist assms(2), of i]
    by (simp_all add: gs)
qed

lemma get_sensors_list_start:
  fixes st :: "('p, 'i) hal_process"
  assumes ok: "hals_ok E ms" and st: "opened_for E junk ms st"
  obtains l and st' :: "('p, 'i) hal_process" where
    "get_sensors_list E H st = Inr (int (length (sensor_rows E ms 0)), Some l, st')"
    "listed_for E H junk ms l st'"
proof -
  let ?rows = "sensor_rows E ms 0" and ?vs = "opened_versions E ms Map.empty"
  note st = st [unfolded opened_for_def]
  from copy_all [OF ok, of H "junk_sensor E"] obtain gs h where copy:
    "copy_modules E H (Some ?vs) ms 0 (replicate (nat (count_sensors E ms 0)) (junk_sensor E), 0, initial_handles)
     = Inr (row_entries H ?vs ?rows gs, length ?rows, h)"
    "register_all register_full (map row_full ?rows) initial_handles = (gs, h)"
    "length gs = length ?rows" "count_sensors E ms 0 = int (length ?rows)"
    by blast
  have modules: "lazy_init_modules E st = Inr st"
    by (simp add: lazy_init_modules_def st)
  let ?st' = "st\<lparr>
      global_sensors_count := int (length ?rows),
      mh := (mh st)\<lparr>hm := h, global_sensors_list := Some (row_entries H ?vs ?rows gs),
        sensors_batch_list := Some (map (\<lambda>b. b\<lparr>b_empty := True\<rparr>)
          (replicate (length ?rows) (new_batch_data (junk_batch E)))),
        sensors_enable_state := Some (replicate (length ?rows) 0)\<rparr>,
      sub_hw_versions := None, queue_mutex_locked := False\<rparr>"
  have "lazy_init_sensors_list E H st = Inr ?st'"
    using copy(1) unfolding copy(4)
    by (simp add: lazy_init_sensors_list_def modules st Let_def copy(4))
  then have "get_sensors_list E H st = Inr (int (length ?rows), Some (row_entries H ?vs ?rows gs), ?st')"
    by (simp add: get_sensors_list_def)
  from that [OF this] show ?thesis by (simp add: listed_for_def st copy(2))
qed

lemma row_full_nonneg:
  assumes "hals_ok E ms" and "i < length (sensor_rows E ms 0)"
    and "sensor_rows E ms 0 ! i = (k, m, s)"
  shows "k < length ms" "ms ! k = m" "0 \<le> s_handle s" "m \<in> set ms" "s \<in> set (module_sensors E m 1)"
proof -
  have "(k, m, s) \<in> set (sensor_rows E ms 0)"
    using assms(2,3) nth_mem by fastforce
  from sensor_rows_mem [OF this] show "k < length ms" "ms ! k = m" "s \<in> set (module_sensors E m 1)"
    by simp_all
  then show "m \<in> set ms" by (metis nth_mem)
  with \<open>s \<in> _\<close> assms(1) show "0 \<le> s_handle s" by (simp add: hals_ok_def)
qed

lemma domain_of_registered:
  assumes "hals_ok E ms" and "global_to_full h g = Some f"
    and "register_all register_full (map row_full (sensor_rows E ms 0)) initial_handles = (gs, h)"
  obtains i where "i < length (sensor_rows E ms 0)" "g = 1 + int i" "f = row_full (sensor_rows E ms 0 ! i)"
proof -
  note reg = registered_rows [OF assms(1,3)]
  have "g \<in> {1..<1 + int (length (sensor_rows E ms 0))}"
    using reg(1,2) domI [of "global_to_full h", OF assms(2)] by (simp add: handle_inv_def)
  then have "nat (g - 1) < length (sensor_rows E ms 0)" "g = 1 + int (nat (g - 1))" by auto
  with reg(4) [OF this(1)] assms(2) that [of "nat (g - 1)"] show ?thesis by simp
qed

text \<open>What the tables of a listed process say about the sensors of the sub-HALs.\<close>

lemma listed_forD:
  assumes "listed_for E H junk ms l st"
  obtains gs where "\<not> queue_mutex_locked st"
    "register_all register_full (map row_full (sensor_rows E ms 0)) initial_handles = (gs, hm (mh st))"
    "l = row_entries H (opened_versions E ms Map.empty) (sensor_rows E ms 0) gs"
    "global_sensors_list (mh st) = Some l"
    "\<exists>bs. sensors_batch_list (mh st) = Some bs \<and> length bs = length (sensor_rows E ms 0)"
    "sensors_enable_state (mh st) = Some (replicate (length (sensor_rows E ms 0)) 0)"
    "sub_hw_devices (mh st) = map (\<lambda>m. snd (module_open E m)) ms"
    "ctx_queues st = replicate (length ms) (new_queue junk SENSOR_EVENT_QUEUE_CAPACITY)"
  using assms by (auto simp: listed_for_def Let_def split: prod.splits)

lemma listed_queues:
  "listed_for E H junk ms l st \<Longrightarrow> ctx_queues st = replicate (length ms) (new_queue junk SENSOR_EVENT_QUEUE_CAPACITY)"
  by (simp add: listed_for_def)

lemma listed_tables:
  assumes ok: "hals_ok E ms" and listed: "listed_for E H junk ms l st"
  shows "multihal_ok (mh st)" and "length l = length (sensor_rows E ms 0)" and "\<not> queue_mutex_locked st"
proof -
  from listed obtain gs where reg: "register_all register_full (map row_full (sensor_rows E ms 0)) initial_handles = (gs, hm (mh st))"
    and t: "l = row_entries H (opened_versions E ms Map.empty) (sensor_rows E ms 0) gs"
      "global_sensors_list (mh st) = Some l"
      "\<exists>bs. sensors_batch_list (mh st) = Some bs \<and> length bs = length (sensor_rows E ms 0)"
      "sensors_enable_state (mh st) = Some (replicate (length (sensor_rows E ms 0)) 0)"
      "sub_hw_devices (mh st) = map (\<lambda>m. snd (module_open E m)) ms"
    by (rule listed_forD)
  note reg' = registered_rows [OF ok reg]
  have "0 \<le> moduleIndex f \<and> moduleIndex f < int (length ms) \<and> 0 \<le> localHandle f"
    if full: "global_to_full (hm (mh st)) g = Some f" for g f
  proof -
    obtain i where i: "i < length (sensor_rows E ms 0)" "f = row_full (sensor_rows E ms 0 ! i)"
      using domain_of_registered [OF ok full reg] by blast
    with row_full_nonneg [OF ok i(1)] show ?thesis
      by (cases "sensor_rows E ms 0 ! i") (simp add: row_full_def)
  qed
  with t reg'(1-3) show "multihal_ok (mh st)" by (auto simp: multihal_ok_def)
  show "length l = length (sensor_rows E ms 0)" by (simp add: t(1) reg'(3))
  show "\<not> queue_mutex_locked st" using listed by (simp add: listed_for_def)
qed

lemma s_handle_fix_sensor_flags [simp]: "s_handle (fix_sensor_flags H v s) = s_handle s"
  by (simp add: fix_sensor_flags_def)

lemma listed_row:
  assumes ok: "hals_ok E ms" and listed: "listed_for E H junk ms l st"
    and i: "i < length (sensor_rows E ms 0)" and r: "sensor_rows E ms 0 ! i = (k, m, s)"
  shows "k < length ms"
    and "l ! i = fix_sensor_flags H (dev_version (snd (module_open E m))) (s\<lparr>s_handle := 1 + int i\<rparr>)"
    and "owner (mh st) (1 + int i) = Some (snd (module_open E m), s_handle s)"
    and "get_global_handle (hm (mh st)) (FullHandle (int k) (s_handle s)) = 1 + int i"
proof -
  from listed obtain gs where reg: "register_all register_full (map row_full (sensor_rows E ms 0)) initial_handles = (gs, hm (mh st))"
    and t: "l = row_entries H (opened_versions E ms Map.empty) (sensor_rows E ms 0) gs"
      "sub_hw_devices (mh st) = map (\<lambda>m. snd (module_open E m)) ms"
    by (rule listed_forD)
  note reg' = registered_rows [OF ok reg] and row = row_full_nonneg [OF ok i r]
  show "k < length ms" by (rule row(1))
  show "l ! i = fix_sensor_flags H (dev_version (snd (module_open E m))) (s\<lparr>s_handle := 1 + int i\<rparr>)"
    using i row by (simp add: t(1) r row_entries_def row_entry_def reg'(3) opened_versions_def)
  show "owner (mh st) (1 + int i) = Some (snd (module_open E m), s_handle s)"
    "get_global_handle (hm (mh st)) (FullHandle (int k) (s_handle s)) = 1 + int i"
    using reg'(4,5) [OF i] row by (simp_all add: r owner_def get_global_handle_def row_full_def t(2))
qed

text \<open>Conversely, every pair of a module and a local handle the tables know is one of these sensors.\<close>

lemma listed_origin:
  assumes ok: "hals_ok E ms" and listed: "listed_for E H junk ms l st"
    and full: "full_to_global (hm (mh st)) f = Some g"
  obtains i k m s where "i < length (sensor_rows E ms 0)" "sensor_rows E ms 0 ! i = (k, m, s)"
    "g = 1 + int i" "f = FullHandle (int k) (s_handle s)"
proof -
  from listed obtain gs where reg: "register_all register_full (map row_full (sensor_rows E ms 0)) initial_handles = (gs, hm (mh st))"
    by (rule listed_forD)
  have "global_to_full (hm (mh st)) g = Some f"
    using registered_rows(1) [OF ok reg] full by (simp add: handle_inv_def)
  from domain_of_registered [OF ok this reg] obtain i where "i < length (sensor_rows E ms 0)"
    "g = 1 + int i" "f = row_full (sensor_rows E ms 0 ! i)" .
  with that [of i] show thesis by (cases "sensor_rows E ms 0 ! i") (simp add: row_full_def)
qed

lemma bring_up_state:
  fixes E :: "'i hal_env" and junk :: "nat \<Rightarrow> 'p sensors_event"
  assumes "get_so_paths E = Inr paths" and "hals_ok E (load_modules E paths)"
  obtains st l and st' :: "('p, 'i) hal_process" where "open_sensors E junk process_start = Inr (0, st)"
    "opened_for E junk (load_modules E paths) st"
    "get_sensors_list E H st = Inr (int (length (sensor_rows E (load_modules E paths) 0)), Some l, st')"
    "listed_for E H junk (load_modules E paths) l st'"
  using open_sensors_start [OF assms] get_sensors_list_start [OF assms(2)] by metis

text \<open>
  An environment for the witnesses: a configuration with two libraries, the first an old sub-HAL with
  a proximity sensor, the second one of version 1.4 with an accelerometer.
\<close>

definition demo_sensor :: "int \<Rightarrow> int \<Rightarrow> unit sensor" where
  "demo_sensor h t = \<lparr>s_handle = h, s_type = t, s_maxDelay = 0, s_minDelay = 0, s_flags = 0, s_info = ()\<rparr>"

lemma s_handle_demo_sensor [simp]: "s_handle (demo_sensor h t) = h"
  by (simp add: demo_sensor_def)

definition demo_env :: "unit hal_env" where
  "demo_env = \<lparr>config_file = [MULTI_HAL_CONFIG_FILE_PATH \<mapsto> ''a'' @ [CHR 0x0A] @ ''b''],
     load_module = (\<lambda>p. if p = ''a'' then Module 0 else if p = ''b'' then Module 1 else DlopenFailed),
     module_sensors = (\<lambda>m _. if m = 0 then [demo_sensor 5 8] else [demo_sensor 6 1]),
     module_open = (\<lambda>m. (0, if m = 0 then \<lparr>dev_id = 100, dev_version = 16777217\<rparr>
                             else \<lparr>dev_id = 200, dev_version = 17039361\<rparr>)),
     junk_sensor = demo_sensor 0 0,
     junk_batch = \<lparr>b_empty = False, b_handle = 0, b_flags = 0, b_period_ns = 0, b_timeout = 0\<rparr>\<rparr>"

lemma demo_env_paths: "get_so_paths demo_env = Inr [''a'', ''b'']"
  by (simp add: get_so_paths_def demo_env_def getlines.simps)

lemma demo_env_modules: "load_modules demo_env [''a'', ''b''] = [0, 1]"
  by (simp add: demo_env_def)

lemma demo_env_ok: "hals_ok demo_env (load_modules demo_env [''a'', ''b''])"
  unfolding demo_env_modules by (simp add: hals_ok_def demo_env_def demo_sensor_def)

lemma copy_sensors_no_versions:
  "ss \<noteq> [] \<Longrightarrow> i < length l \<Longrightarrow> copy_sensors H None m k ss (l, i, h) = Inl NullDeref"
  by (cases ss) (simp_all add: Let_def split: prod.split)

lemma copy_modules_no_versions:
  "sensor_rows E ms k \<noteq> [] \<Longrightarrow> i < length l \<Longrightarrow> copy_modules E H None ms k (l, i, h) = Inl NullDeref"
proof (induction ms arbitrary: k)
  case Nil
  then show ?case by simp
next
  case (Cons m ms)
  then show ?case
    by (cases "module_sensors E m 1 = []") (simp_all add: copy_sensors_no_versions)
qed

lemma copy_modules_unknown_version:
  "i + length (sensor_rows E ms k) \<le> length l
    \<Longrightarrow> (\<exists>m \<in> set ms. module_sensors E m 1 \<noteq> [] \<and> vs m = None)
    \<Longrightarrow> copy_modules E H (Some vs) ms k (l, i, h) = Inl OutOfRange"
proof (induction ms arbitrary: k l i h)
  case Nil
  then show ?case by simp
next
  case (Cons m ms)
  let ?ss = "module_sensors E m 1"
  show ?case
  proof (cases "?ss = [] \<or> vs m \<noteq> None")
    case True
    then have "\<exists>l' h'. copy_sensors H (Some vs) m k ?ss (l, i, h) = Inr (l', i + length ?ss, h')
        \<and> length l' = length l"
    proof
      assume "vs m \<noteq> None"
      then obtain v where "vs m = Some v" by blast
      from copy_sensors_rows [of i ?ss l vs m, OF _ this, of H k h] Cons.prems(1) show ?thesis
        by (simp add: Let_def case_prod_beta)
    qed simp
    then obtain l' h' where copied: "copy_sensors H (Some vs) m k ?ss (l, i, h) = Inr (l', i + length ?ss, h')"
      and len: "length l' = length l"
      by blast
    have "copy_modules E H (Some vs) ms (Suc k) (l', i + length ?ss, h') = Inl OutOfRange"
      using Cons.prems True by (intro Cons.IH) (auto simp: len)
    then show ?thesis by (simp add: copied [unfolded One_nat_def])
  next
    case False
    then obtain s ss where ss: "?ss = s # ss" and v: "vs m = None" by (cases ?ss) auto
    then have "copy_sensors H (Some vs) m k ?ss (l, i, h) = Inl OutOfRange"
      using Cons.prems(1) by (simp add: Let_def split: prod.split)
    then show ?thesis by simp
  qed
qed

lemma open_modules_versions:
  "sub_hw_versions st = Some vs \<Longrightarrow> fst (module_open E m) \<noteq> 0 \<Longrightarrow>
    \<exists>vs'. sub_hw_versions (open_modules E junk ms st) = Some vs' \<and> vs' m = vs m"
proof (induction ms arbitrary: st vs)
  case Nil
  then show ?case by simp
next
  case (Cons m' ms)
  show ?case
  proof (cases "fst (module_open E m') = 0")
    case True
    then obtain d where d: "module_open E m' = (0, d)" by (cases "module_open E m'") auto
    with Cons.prems(2) have other: "m' \<noteq> m" by auto
    let ?vs = "if vs m' = None then vs(m' \<mapsto> dev_version d) else vs"
    have "\<exists>vs'. sub_hw_versions (open_modules E junk ms
        ((addSubHwDevice junk d st)\<lparr>sub_hw_versions := Some ?vs\<rparr>)) = Some vs' \<and> vs' m = ?vs m"
      using Cons.prems(2) by (intro Cons.IH) simp_all
    moreover have "?vs m = vs m" using other by simp
    moreover have "open_modules E junk (m' # ms) st = open_modules E junk ms
        ((addSubHwDevice junk d st)\<lparr>sub_hw_versions := Some ?vs\<rparr>)"
      using Cons.prems(1) by (simp add: d Let_def addSubHwDevice_def)
    ultimately show ?thesis by metis
  next
    case False
    with Cons show ?thesis by (simp add: case_prod_beta)
  qed
qed

lemma getlines_line: "CHR 0x0A \<notin> set l \<Longrightarrow> getlines (l @ CHR 0x0A # rest) = l # getlines rest"
proof -
  assume "CHR 0x0A \<notin> set l"
  then have "\<And>x. x \<in> set l \<Longrightarrow> x \<noteq> CHR 0x0A" by blast
  then have "takeWhile (\<lambda>c. c \<noteq> CHR 0x0A) (l @ CHR 0x0A # rest) = l"
    "dropWhile (\<lambda>c. c \<noteq> CHR 0x0A) (l @ CHR 0x0A # rest) = CHR 0x0A # rest"
    by (simp_all add: takeWhile_append2 dropWhile_append2)
  then show ?thesis by (subst getlines.simps) simp
qed

lemma getlines_unlines:
  "\<forall>l \<in> set ls. CHR 0x0A \<notin> set l \<Longrightarrow> getlines (concat (map (\<lambda>l. l @ [CHR 0x0A]) ls)) = ls"
  by (induction ls) (simp_all add: getlines_line, simp add: getlines.simps)

section \<open>Properties\<close>

text \<open>
  C9: bringing the multi-HAL up. When a configuration is found and the sub-HALs behave,
  \<open>open_sensors\<close> succeeds and keeps the queue locked; the first request of the list then returns
  every sensor of every sub-HAL in order, with flags completed for its version and the handle
  \<open>1 + i\<close>, releases the queue, and leaves the tables so that handle \<open>1 + i\<close> belongs to the device and
  the local handle of the \<open>i\<close>-th sensor and back, and all tables of the proxy device fit together.
\<close>

theorem bring_up:
  fixes E :: "'i hal_env" and junk :: "nat \<Rightarrow> 'p sensors_event"
  assumes "get_so_paths E = Inr paths" and "hals_ok E (load_modules E paths)"
    and "rows = sensor_rows E (load_modules E paths) 0"
  shows "\<exists>st l st'. open_sensors E junk process_start = Inr (0, st) \<and> queue_mutex_locked st
    \<and> get_sensors_list E H st = Inr (int (length rows), Some l, st') \<and> \<not> queue_mutex_locked st'
    \<and> multihal_ok (mh st') \<and> length l = length rows
    \<and> (\<forall>i < length rows. case rows ! i of (k, m, s) \<Rightarrow>
         l ! i = fix_sensor_flags H (dev_version (snd (module_open E m))) (s\<lparr>s_handle := 1 + int i\<rparr>)
         \<and> owner (mh st') (1 + int i) = Some (snd (module_open E m), s_handle s)
         \<and> get_global_handle (hm (mh st')) (FullHandle (int k) (s_handle s)) = 1 + int i)"
proof -
  obtain st l and st' :: "('p, 'i) hal_process" where up: "open_sensors E junk process_start = Inr (0, st)"
    "opened_for E junk (load_modules E paths) st"
    "get_sensors_list E H st = Inr (int (length rows), Some l, st')" "listed_for E H junk (load_modules E paths) l st'"
    unfolding assms(3) by (rule bring_up_state [OF assms(1,2)])
  note tables = listed_tables [OF assms(2) up(4), folded assms(3)]
  moreover have "queue_mutex_locked st" using up(2) by (simp add: opened_for_def)
  ultimately show ?thesis
    using up(1,3) listed_row(2-4) [OF assms(2) up(4), folded assms(3)]
    by (intro exI [of _ st] exI [of _ l] exI [of _ st']) (simp split: prod.split)
qed

theorem bring_up_witness:
  "\<exists>(st :: (unit, unit) hal_process) l st'. open_sensors demo_env (\<lambda>_. plain_event 0) process_start = Inr (0, st)
    \<and> get_sensors_list demo_env android_9 st = Inr (2, Some l, st') \<and> \<not> queue_mutex_locked st'
    \<and> s_handle (l ! 0) = 1 \<and> s_flags (l ! 0) = 3
    \<and> owner (mh st') 2 = Some (\<lparr>dev_id = 200, dev_version = 17039361\<rparr>, 6)"
proof -
  have rows: "[(0, 0, demo_sensor 5 8), (1, 1, demo_sensor 6 1)]
      = sensor_rows demo_env (load_modules demo_env [''a'', ''b'']) 0"
    unfolding demo_env_modules by (simp add: demo_env_def)
  have fix_ok: "fix_sensor_flags android_9 16777217 ((demo_sensor 5 8)\<lparr>s_handle := 1\<rparr>)
      = (demo_sensor 1 8)\<lparr>s_flags := 3\<rparr>"
    by (simp add: fix_sensor_flags_def android_9_def demo_sensor_def)
  have mods: "module_open demo_env 0 = (0, \<lparr>dev_id = 100, dev_version = 16777217\<rparr>)"
    "module_open demo_env 1 = (0, \<lparr>dev_id = 200, dev_version = 17039361\<rparr>)"
    by (simp_all add: demo_env_def)
  have handles: "s_handle (demo_sensor h t) = h" for h t
    by (simp add: demo_sensor_def)
  obtain st st' :: "(unit, unit) hal_process" and l where up:
    "open_sensors demo_env (\<lambda>_. plain_event 0) process_start = Inr (0, st)"
    "get_sensors_list demo_env android_9 st = Inr (2, Some l, st')" "\<not> queue_mutex_locked st'"
    "\<forall>i < 2. case [(0, 0, demo_sensor 5 8), (1, 1, demo_sensor 6 1)] ! i of (k, m, s) \<Rightarrow>
         l ! i = fix_sensor_flags android_9 (dev_version (snd (module_open demo_env m))) (s\<lparr>s_handle := 1 + int i\<rparr>)
         \<and> owner (mh st') (1 + int i) = Some (snd (module_open demo_env m), s_handle s)
         \<and> get_global_handle (hm (mh st')) (FullHandle (int k) (s_handle s)) = 1 + int i"
    using bring_up [OF demo_env_paths demo_env_ok rows, of "\<lambda>_. plain_event 0" android_9] by auto
  have "l ! 0 = (demo_sensor 1 8)\<lparr>s_flags := 3\<rparr>"
    using spec [OF up(4), of 0] by (simp add: mods fix_ok)
  moreover have "owner (mh st') 2 = Some (\<lparr>dev_id = 200, dev_version = 17039361\<rparr>, 6)"
    using spec [OF up(4), of 1] by (simp add: mods [unfolded One_nat_def] handles)
  ultimately show ?thesis using up(1-3) by (intro exI [of _ st] exI [of _ l] exI [of _ st']) (simp add: handles)
qed

text \<open>
  The configuration is read line by line: a file with one path in each line gives exactly these
  paths, in order, and the vendor file takes precedence over the deprecated one. When neither file
  exists, the process does not log a warning and go on but dereferences a null path, because the
  default stream object is in a good state.
\<close>

theorem config_lines:
  assumes "\<forall>l \<in> set ls. CHR 0x0A \<notin> set l"
  shows "(config_file E MULTI_HAL_CONFIG_FILE_PATH = Some (concat (map (\<lambda>l. l @ [CHR 0x0A]) ls))
      \<longrightarrow> get_so_paths E = Inr ls)
    \<and> (config_file E MULTI_HAL_CONFIG_FILE_PATH = None
      \<and> config_file E DEPRECATED_MULTI_HAL_CONFIG_FILE_PATH = Some (concat (map (\<lambda>l. l @ [CHR 0x0A]) ls))
      \<longrightarrow> get_so_paths E = Inr ls)
    \<and> (config_file E MULTI_HAL_CONFIG_FILE_PATH = None
      \<and> config_file E DEPRECATED_MULTI_HAL_CONFIG_FILE_PATH = None
      \<longrightarrow> open_sensors E junk process_start = Inl NullDeref)"
  using getlines_unlines [OF assms]
  by (auto simp: get_so_paths_def open_sensors_def lazy_init_modules_def process_start_def)

theorem config_lines_witness:
  "get_so_paths (demo_env\<lparr>config_file := [MULTI_HAL_CONFIG_FILE_PATH \<mapsto> ''a'' @ [CHR 0x0A] @ [] @ [CHR 0x0A]]\<rparr>)
     = Inr [''a'', []]
   \<and> open_sensors (demo_env\<lparr>config_file := Map.empty\<rparr>) (\<lambda>_. plain_event 0) process_start = Inl NullDeref"
proof -
  have "\<forall>l \<in> set [''a'', []]. CHR 0x0A \<notin> set l" by simp
  note parse = config_lines [OF this]
  show ?thesis
    using parse [of "demo_env\<lparr>config_file := [MULTI_HAL_CONFIG_FILE_PATH \<mapsto> ''a'' @ [CHR 0x0A] @ [] @ [CHR 0x0A]]\<rparr>" "\<lambda>_. plain_event 0"]
      parse [of "demo_env\<lparr>config_file := Map.empty\<rparr>" "\<lambda>_. plain_event 0"]
    by simp
qed

text \<open>
  C18: the list needs an open device. Asked for the list before \<open>open_sensors\<close>, with at least one
  sensor to report, the code dereferences the null pointer \<open>sub_hw_versions\<close>; and when one of the
  sub-HALs that report sensors could not be opened, its version is missing and \<open>at\<close> throws.
\<close>

theorem list_needs_open:
  fixes E :: "'i hal_env" and junk :: "nat \<Rightarrow> 'p sensors_event"
  assumes "get_so_paths E = Inr paths"
    and "\<forall>m \<in> set (load_modules E paths). module_sensors E m 0 = module_sensors E m 1"
    and "sensor_rows E (load_modules E paths) 0 \<noteq> []"
    and "int (length (sensor_rows E (load_modules E paths) 0)) < 2 ^ 31"
  shows "get_sensors_list E H (process_start :: ('p, 'i) hal_process) = Inl NullDeref
    \<and> (\<forall>m \<in> set (load_modules E paths). module_sensors E m 1 \<noteq> [] \<and> fst (module_open E m) \<noteq> 0 \<longrightarrow>
        (\<exists>st. open_sensors E junk process_start = Inr (0, st)
          \<and> get_sensors_list E H st = Inl OutOfRange))"
proof -
  let ?ms = "load_modules E paths"
  let ?begun = "(process_start :: ('p, 'i) hal_process)\<lparr>sub_hw_modules := Some ?ms,
    queue_mutex_locked := True, sub_hw_versions := Some Map.empty\<rparr>"
  have count: "count_sensors E ?ms 0 = int (length (sensor_rows E ?ms 0))"
    using count_sensors_rows [OF assms(2), of 0 0] assms(4) by simp
  have fresh: "get_sensors_list E H (process_start :: ('p, 'i) hal_process) = Inl NullDeref"
    using assms(1,3)
    by (simp add: get_sensors_list_def lazy_init_sensors_list_def lazy_init_modules_def
        process_start_def Let_def count copy_modules_no_versions)
  have "\<exists>st. open_sensors E junk process_start = Inr (0, st) \<and> get_sensors_list E H st = Inl OutOfRange"
    if "m \<in> set ?ms" "module_sensors E m 1 \<noteq> []" "fst (module_open E m) \<noteq> 0" for m
  proof -
    let ?st = "open_modules E junk ?ms ?begun"
    note failed = that
    have run: "open_sensors E junk process_start = Inr (0, ?st)"
      using assms(1) by (simp add: open_sensors_def lazy_init_modules_def process_start_def Let_def)
    have frame: "sub_hw_modules ?st = Some ?ms" "global_sensors_list (mh ?st) = None"
      by (simp_all add: open_modules_frame) (simp add: process_start_def)
    have "sub_hw_versions ?begun = Some Map.empty" by simp
    then have "\<exists>vs. sub_hw_versions ?st = Some vs \<and> vs m = Map.empty m"
      using failed(3) by (rule open_modules_versions)
    then obtain vs where vs: "sub_hw_versions ?st = Some vs" "vs m = None" by blast
    then have "copy_modules E H (Some vs) ?ms 0 (replicate (nat (count_sensors E ?ms 0)) (junk_sensor E), 0, hm (mh ?st))
        = Inl OutOfRange"
      using failed by (intro copy_modules_unknown_version) (auto simp: count)
    then have "get_sensors_list E H ?st = Inl OutOfRange"
      by (simp add: get_sensors_list_def lazy_init_sensors_list_def lazy_init_modules_def frame vs Let_def)
    with run show ?thesis by blast
  qed
  with fresh show ?thesis by blast
qed

theorem list_needs_open_witness:
  "get_sensors_list demo_env android_9 (process_start :: (unit, unit) hal_process) = Inl NullDeref"
proof -
  have mods: "\<forall>m \<in> set (load_modules demo_env [''a'', ''b'']).
      module_sensors demo_env m 0 = module_sensors demo_env m 1"
    unfolding demo_env_modules by (simp add: demo_env_def)
  have rows: "sensor_rows demo_env (load_modules demo_env [''a'', ''b'']) 0
      = [(0, 0, demo_sensor 5 8), (1, 1, demo_sensor 6 1)]"
    unfolding demo_env_modules by (simp add: demo_env_def)
  show ?thesis
    using list_needs_open [OF demo_env_paths mods, of android_9 "\<lambda>_. plain_event 0"]
    unfolding rows by simp
qed

text \<open>
  The handshake over \<open>queue_mutex\<close> works once. Opening the device again after the list was built
  locks the queue, the next request of the list returns early and does not release it, so nothing
  ever does, and one more \<open>open_sensors\<close> blocks for ever.
\<close>

theorem second_open_keeps_queue_locked:
  assumes "sub_hw_modules st = Some ms" and "global_sensors_list (mh st) = Some l"
    and "\<not> queue_mutex_locked st"
  shows "\<exists>st'. open_sensors E junk st = Inr (0, st') \<and> queue_mutex_locked st'
    \<and> get_sensors_list E H st' = Inr (global_sensors_count st', Some l, st')
    \<and> open_sensors E junk st' = Inl Deadlock"
proof -
  let ?st = "open_modules E junk ms (st\<lparr>mh := (mh st)\<lparr>sub_hw_devices := []\<rparr>, ctx_queues := [],
    queue_mutex_locked := True, sub_hw_versions := Some Map.empty\<rparr>)"
  have run: "open_sensors E junk st = Inr (0, ?st)"
    using assms by (simp add: open_sensors_def lazy_init_modules_def Let_def)
  have frame: "global_sensors_list (mh ?st) = Some l" "sub_hw_modules ?st = Some ms" "queue_mutex_locked ?st"
    by (simp_all add: open_modules_frame assms)
  have "open_sensors E junk ?st = Inl Deadlock"
    by (simp add: open_sensors_def lazy_init_modules_def Let_def frame)
  moreover have "get_sensors_list E H ?st = Inr (global_sensors_count ?st, Some l, ?st)"
    by (simp add: get_sensors_list_def lazy_init_sensors_list_def frame)
  ultimately show ?thesis using run frame(3) by blast
qed

theorem second_open_keeps_queue_locked_witness:
  "\<exists>st'. open_sensors demo_env (\<lambda>_. plain_event 0)
      (process_start\<lparr>sub_hw_modules := Some [], mh := two_devices\<rparr>) = Inr (0, st')
    \<and> queue_mutex_locked st' \<and> open_sensors demo_env (\<lambda>_. plain_event 0) st' = Inl Deadlock"
proof -
  let ?st = "process_start\<lparr>sub_hw_modules := Some [], mh := two_devices\<rparr> :: (unit, unit) hal_process"
  have "sub_hw_modules ?st = Some []" "\<not> queue_mutex_locked ?st"
    by (simp_all add: process_start_def)
  moreover have "global_sensors_list (mh ?st) = Some (replicate 2 \<lparr>s_handle = 1, s_type = 1, s_maxDelay = 10,
        s_minDelay = 1, s_flags = 0, s_info = ()\<rparr>)"
    by (simp add: two_devices_def)
  ultimately show ?thesis
    using second_open_keeps_queue_locked [of ?st "[]" _ demo_env "\<lambda>_. plain_event 0"] by blast
qed

end
