(* ===== verification/Sensor_Poll.thy ===== *)
theory Sensor_Poll
  imports Event_Queue Sensor_Handles Sensors_Types "HOL-Library.While_Combinator"
begin

text \<open>
  The reading side of the multi-HAL, \<open>copy_event_remap_handle\<close> and \<open>poll\<close> of \<open>sensors/multihal.cpp\<close>
  (lines 330 to 392). \<open>poll\<close> visits the queues of the sub-HALs in turn, translates the handles in the
  events, drops events of unknown sensors, and waits while it has nothing to return. The theory
  shows that a scan ends, stays inside the caller's buffer, returns nothing only when every queue is
  empty, and delivers the events of every queue in order and without loss.
\<close>

section \<open>Translating the handle of an event\<close>

definition copy_event_remap_handle ::
    "sensors_h \<Rightarrow> handle_maps \<Rightarrow> 'p sensors_event \<Rightarrow> int \<Rightarrow> 'p sensors_event" where
  "copy_event_remap_handle H hm src sub_index =
     (if ev_type src = SENSOR_TYPE_META_DATA H
      then src\<lparr>ev_meta_sensor := get_global_handle hm (FullHandle sub_index (ev_meta_sensor src))\<rparr>
      else src\<lparr>ev_sensor := get_global_handle hm (FullHandle sub_index (ev_sensor src))\<rparr>)"

section \<open>The scan\<close>

text \<open>
  The variables of \<open>poll\<close>: the caller's buffer, the two counters, \<open>nextReadIndex\<close> and the queues of
  the context; \<open>woken\<close> lists the queues whose dequeue broadcast \<open>mSpaceAvailableCondition\<close>, and
  \<open>poll_fault\<close> records the exception of \<open>queues.at\<close>.
\<close>

record 'p poll_vars =
  data :: "'p sensors_event list"
  empties :: int
  eventsRead :: int
  nextReadIndex :: int
  queues :: "'p sensors_event SensorEventQueue list"
  woken :: "nat list"
  poll_fault :: "c_fault option"

definition poll_body :: "sensors_h \<Rightarrow> handle_maps \<Rightarrow> int \<Rightarrow> 'p poll_vars \<Rightarrow> 'p poll_vars" where
  "poll_body H hm queueCount s =
     (if nextReadIndex s < 0 \<or> int (length (queues s)) \<le> nextReadIndex s
      then s\<lparr>poll_fault := Some OutOfRange\<rparr>
      else let i = nat (nextReadIndex s);
               queue = queues s ! i;
               s = (case queue_peek queue of
                      None \<Rightarrow> s\<lparr>empties := empties s + 1\<rparr>
                    | Some event \<Rightarrow>
                        (let event' = copy_event_remap_handle H hm event (nextReadIndex s);
                             (queue', broadcast) = dequeue queue
                         in s\<lparr>empties := 0,
                              data := (data s)[nat (eventsRead s) := event'],
                              eventsRead := (if ev_sensor event' = -1 then eventsRead s
                                             else eventsRead s + 1),
                              queues := (queues s)[i := queue'],
                              woken := (if broadcast then woken s @ [i] else woken s)\<rparr>))
           in s\<lparr>nextReadIndex := (nextReadIndex s + 1) smod queueCount\<rparr>)"

definition poll_guard :: "int \<Rightarrow> int \<Rightarrow> 'p poll_vars \<Rightarrow> bool" where
  "poll_guard queueCount maxReads s \<longleftrightarrow>
     poll_fault s = None \<and> empties s < queueCount \<and> eventsRead s < maxReads"

definition poll_scan ::
    "sensors_h \<Rightarrow> handle_maps \<Rightarrow> int \<Rightarrow> 'p poll_vars \<Rightarrow> 'p poll_vars option" where
  "poll_scan H hm maxReads s =
     while_option (poll_guard (int (length (queues s))) maxReads)
       (poll_body H hm (int (length (queues s)))) (s\<lparr>empties := 0\<rparr>)"

text \<open>
  \<open>poll\<close> itself: scan, and while nothing was read wait for \<open>data_available_cond\<close> and scan again. The
  mutex is free during the wait, so \<open>wakes\<close> gives the queues as the successive wake-ups find them;
  the result is \<^const>\<open>None\<close> while the call has not returned.
\<close>

fun poll :: "sensors_h \<Rightarrow> handle_maps \<Rightarrow> int \<Rightarrow> 'p poll_vars
    \<Rightarrow> 'p sensors_event SensorEventQueue list list \<Rightarrow> 'p poll_vars option" where
  "poll H hm maxReads s wakes =
     (case poll_scan H hm maxReads s of
        None \<Rightarrow> None
      | Some s' \<Rightarrow>
          (if eventsRead s' \<noteq> 0 \<or> poll_fault s' \<noteq> None then Some s'
           else (case wakes of
                   [] \<Rightarrow> None
                 | qs # wakes' \<Rightarrow> poll H hm maxReads (s'\<lparr>queues := qs\<rparr>) wakes')))"

declare poll.simps [simp del]

definition poll_start :: "'p sensors_event list \<Rightarrow> int \<Rightarrow> 'p sensors_event SensorEventQueue list
    \<Rightarrow> 'p poll_vars" where
  "poll_start buffer next qs =
     \<lparr>data = buffer, empties = 0, eventsRead = 0, nextReadIndex = next, queues = qs, woken = [],
      poll_fault = None\<rparr>"

text \<open>The entry of the device table.\<close>

definition device_poll :: "sensors_h \<Rightarrow> handle_maps \<Rightarrow> int \<Rightarrow> 'p poll_vars
    \<Rightarrow> 'p sensors_event SensorEventQueue list list \<Rightarrow> 'p poll_vars option" where
  "device_poll H hm count s wakes = poll H hm count s wakes"

section \<open>What a scan keeps\<close>

text \<open>
  \<open>scan_log\<close> is the record of a scan, which the code does not keep: the events taken, each with
  the index of its queue.
\<close>

definition delivered :: "sensors_h \<Rightarrow> handle_maps \<Rightarrow> (nat \<times> 'p sensors_event) list
    \<Rightarrow> 'p sensors_event list" where
  "delivered H hm log =
     filter (\<lambda>e. ev_sensor e \<noteq> -1)
       (map (\<lambda>(i, e). copy_event_remap_handle H hm e (int i)) log)"

definition taken_from :: "nat \<Rightarrow> (nat \<times> 'p sensors_event) list \<Rightarrow> 'p sensors_event list" where
  "taken_from i log = map snd (filter (\<lambda>x. fst x = i) log)"

text \<open>
  The invariant of the scan over the queues \<open>qs0\<close> it started with: the buffer holds what was
  delivered so far, every queue has lost exactly what was taken from it, and the last \<open>empties\<close>
  queues visited are empty.
\<close>

definition scan_inv :: "sensors_h \<Rightarrow> handle_maps \<Rightarrow> int
    \<Rightarrow> 'p sensors_event SensorEventQueue list \<Rightarrow> nat \<Rightarrow> (nat \<times> 'p sensors_event) list
    \<Rightarrow> 'p poll_vars \<Rightarrow> bool" where
  "scan_inv H hm maxReads qs0 buflen log s \<longleftrightarrow>
     poll_fault s = None
     \<and> length (queues s) = length qs0 \<and> length (data s) = buflen
     \<and> 0 \<le> nextReadIndex s \<and> (0 < length qs0 \<longrightarrow> nextReadIndex s < int (length qs0))
     \<and> 0 \<le> empties s \<and> empties s \<le> int (length qs0)
     \<and> 0 \<le> eventsRead s \<and> eventsRead s \<le> max 0 maxReads
     \<and> take (nat (eventsRead s)) (data s) = delivered H hm log
     \<and> (\<forall>i < length qs0. queue_inv (queues s ! i) \<and> mCapacity (queues s ! i) = mCapacity (qs0 ! i)
          \<and> contents (qs0 ! i) = taken_from i log @ contents (queues s ! i))
     \<and> (\<forall>k < nat (empties s).
          contents (queues s ! nat ((nextReadIndex s - 1 - int k) mod int (length qs0))) = [])
     \<and> (\<forall>x \<in> set log. fst x < length qs0)"

lemma scan_invD:
  assumes "scan_inv H hm maxReads qs0 buflen log s"
  shows "poll_fault s = None" "length (queues s) = length qs0" "length (data s) = buflen"
    "0 \<le> nextReadIndex s" "0 < length qs0 \<Longrightarrow> nextReadIndex s < int (length qs0)"
    "0 \<le> empties s" "empties s \<le> int (length qs0)" "0 \<le> eventsRead s"
    "eventsRead s \<le> max 0 maxReads"
    "take (nat (eventsRead s)) (data s) = delivered H hm log"
    "\<And>i. i < length qs0 \<Longrightarrow> queue_inv (queues s ! i)"
    "\<And>i. i < length qs0 \<Longrightarrow> mCapacity (queues s ! i) = mCapacity (qs0 ! i)"
    "\<And>i. i < length qs0 \<Longrightarrow> contents (qs0 ! i) = taken_from i log @ contents (queues s ! i)"
    "\<And>k. k < nat (empties s) \<Longrightarrow>
       contents (queues s ! nat ((nextReadIndex s - 1 - int k) mod int (length qs0))) = []"
    "\<forall>x \<in> set log. fst x < length qs0"
  using assms unfolding scan_inv_def by blast+

lemma delivered_append [simp]:
  "delivered H hm (log @ log') = delivered H hm log @ delivered H hm log'"
  by (simp add: delivered_def)

lemma taken_from_append [simp]: "taken_from i (log @ log') = taken_from i log @ taken_from i log'"
  by (simp add: taken_from_def)

lemma next_index_back:
  "((n + 1) mod q - 1 - int (Suc k)) mod q = (n - 1 - int k) mod (q :: int)"
  "((n + 1) mod q - 1 - int 0) mod q = n mod q"
proof -
  have "((n + 1) mod q - c) mod q = (n + 1 - c) mod q" for c
    by (rule mod_diff_left_eq)
  from this [of "2 + int k"] this [of 1]
  show "((n + 1) mod q - 1 - int (Suc k)) mod q = (n - 1 - int k) mod q"
    and "((n + 1) mod q - 1 - int 0) mod q = n mod q"
    by (simp_all add: algebra_simps)
qed

definition scan_measure :: "'p poll_vars \<Rightarrow> nat" where
  "scan_measure s = (\<Sum>i < length (queues s). length (contents (queues s ! i)))
     * (length (queues s) + 1) + (length (queues s) - nat (empties s))"

text \<open>One turn of the loop at an empty queue, and at a queue with a record.\<close>

lemma poll_body_empty:
  assumes "scan_inv H hm maxReads qs0 buflen log s"
    and "poll_guard (int (length qs0)) maxReads s"
    and "contents (queues s ! nat (nextReadIndex s)) = []"
  shows "scan_inv H hm maxReads qs0 buflen log (poll_body H hm (int (length qs0)) s)
    \<and> scan_measure (poll_body H hm (int (length qs0)) s) < scan_measure s"
proof -
  note inv = scan_invD [OF assms(1)]
  have empties: "empties s < int (length qs0)"
    using assms(2) by (simp add: poll_guard_def)
  with inv(6) have Q: "0 < length qs0" by linarith
  note idx = inv(4) inv(5) [OF Q]
  have nat_idx: "nat (nextReadIndex s) < length qs0" using idx by linarith
  let ?s' = "s\<lparr>empties := empties s + 1, nextReadIndex := (nextReadIndex s + 1) mod int (length qs0)\<rparr>"
  have "queue_peek (queues s ! nat (nextReadIndex s)) = None"
    using assms(3) by (simp add: queue_peek_contents [OF inv(11) [OF nat_idx]])
  then have body: "poll_body H hm (int (length qs0)) s = ?s'"
    using idx Q by (simp add: poll_body_def inv(2) Let_def smod_nonneg)
  have "contents (queues s ! nat (((nextReadIndex s + 1) mod int (length qs0) - 1 - int k)
      mod int (length qs0))) = []" if k: "k < nat (empties s + 1)" for k
  proof (cases k)
    case 0
    have "((nextReadIndex s + 1) mod int (length qs0) - 1 - int k) mod int (length qs0)
        = nextReadIndex s"
      unfolding 0 next_index_back(2) using idx by simp
    with assms(3) show ?thesis by simp
  next
    case (Suc j)
    with k inv(6) have "j < nat (empties s)" by linarith
    from inv(14) [OF this] show ?thesis unfolding Suc next_index_back(1) .
  qed
  then have "scan_inv H hm maxReads qs0 buflen log ?s'"
    using assms(1) empties Q by (simp add: scan_inv_def)
  moreover have "scan_measure ?s' < scan_measure s"
    using empties inv(2,6) by (simp add: scan_measure_def)
  ultimately show ?thesis by (simp add: body)
qed

lemma taken_from_single: "taken_from i [(j, e)] = (if i = j then [e] else [])"
  by (simp add: taken_from_def)

text \<open>Taking one record makes the number of queued records, and with it the measure, smaller.\<close>

lemma pending_taken:
  assumes "i < n" and "length qs = n" and "contents (qs ! i) = e # contents q"
  shows "Suc (\<Sum>j < n. length (contents (qs[i := q] ! j))) = (\<Sum>j < n. length (contents (qs ! j)))"
proof -
  have "(\<Sum>j < n. length (contents (qs ! j)))
      = length (contents (qs ! i)) + (\<Sum>j \<in> {..<n} - {i}. length (contents (qs ! j)))"
    using assms(1) by (intro sum.remove) auto
  moreover have "(\<Sum>j < n. length (contents (qs[i := q] ! j)))
      = length (contents q) + (\<Sum>j \<in> {..<n} - {i}. length (contents (qs ! j)))"
    using assms(1,2) by (subst sum.remove [of _ i]) (auto intro!: sum.cong)
  ultimately show ?thesis using assms(3) by (simp del: length_contents)
qed

lemma scan_measure_less:
  assumes "length (queues s') = length (queues s)"
    and "Suc (\<Sum>j < length (queues s). length (contents (queues s' ! j)))
      = (\<Sum>j < length (queues s). length (contents (queues s ! j)))" (is "Suc ?n = ?m")
  shows "scan_measure s' < scan_measure s"
proof -
  have "?m * (length (queues s) + 1) = (length (queues s) + 1) + ?n * (length (queues s) + 1)"
    using assms(2) by (metis mult_Suc)
  then show ?thesis by (simp add: scan_measure_def assms(1) del: length_contents)
qed

lemma poll_body_record:
  assumes "scan_inv H hm maxReads qs0 buflen log s"
    and "poll_guard (int (length qs0)) maxReads s" and "maxReads \<le> int buflen"
    and "contents (queues s ! nat (nextReadIndex s)) = e # rest"
  shows "scan_inv H hm maxReads qs0 buflen (log @ [(nat (nextReadIndex s), e)])
      (poll_body H hm (int (length qs0)) s)
    \<and> scan_measure (poll_body H hm (int (length qs0)) s) < scan_measure s"
proof -
  note inv = scan_invD [OF assms(1)]
  have guard: "empties s < int (length qs0)" "eventsRead s < maxReads"
    using assms(2) by (simp_all add: poll_guard_def)
  with inv(6) have Q: "0 < length qs0" by linarith
  note idx = inv(4) inv(5) [OF Q]
  define i where "i = nat (nextReadIndex s)"
  have i: "i < length qs0" "int i = nextReadIndex s" using idx by (simp_all add: i_def)
  define e' where "e' = copy_event_remap_handle H hm e (nextReadIndex s)"
  define r where "r = (if ev_sensor e' = -1 then eventsRead s else eventsRead s + 1)"
  define q' where "q' = fst (dequeue (queues s ! i))"
  let ?s' = "s\<lparr>empties := 0, data := (data s)[nat (eventsRead s) := e'], eventsRead := r,
    queues := (queues s)[i := q'],
    woken := (if snd (dequeue (queues s ! i)) then woken s @ [i] else woken s),
    nextReadIndex := (nextReadIndex s + 1) mod int (length qs0)\<rparr>"
  have peek: "queue_peek (queues s ! i) = Some e"
    using assms(4) queue_peek_contents [OF inv(11) [OF i(1)]] by (simp add: i_def)
  have body: "poll_body H hm (int (length qs0)) s = ?s'"
    unfolding poll_body_def Let_def i_def [symmetric] peek option.case e'_def [symmetric]
      r_def [symmetric] case_prod_beta q'_def [symmetric]
    using idx Q by (simp add: inv(2) smod_nonneg)
  have cont: "contents q' = rest" "queue_inv q'" "mCapacity q' = mCapacity (queues s ! i)"
    using assms(4) dequeue_contents [OF inv(11) [OF i(1)]] dequeue_inv [OF inv(11) [OF i(1)]]
    by (simp_all add: q'_def i_def)
  have room: "nat (eventsRead s) < length (data s)"
    using guard(2) assms(3) inv(3,8) by linarith
  have "take (nat r) ((data s)[nat (eventsRead s) := e'])
      = delivered H hm (log @ [(i, e)])"
    using room inv(8,10) i(2)
    by (simp add: r_def delivered_def e'_def nat_add_distrib take_Suc_conv_app_nth)
  moreover have "queue_inv (((queues s)[i := q']) ! j)
      \<and> mCapacity (((queues s)[i := q']) ! j) = mCapacity (qs0 ! j)
      \<and> contents (qs0 ! j) = taken_from j (log @ [(i, e)]) @ contents (((queues s)[i := q']) ! j)"
    if "j < length qs0" for j
    using inv(2) inv(11-13) [OF that] cont assms(4) i(1)
    by (cases "j = i") (simp_all add: taken_from_single i_def [symmetric])
  ultimately have "scan_inv H hm maxReads qs0 buflen (log @ [(i, e)]) ?s'"
    using inv(1-3,8,15) i(1) idx guard Q by (simp add: scan_inv_def r_def)
  moreover have "scan_measure ?s' < scan_measure s"
    by (rule scan_measure_less)
      (use pending_taken [OF i(1) inv(2), of e q'] cont(1) assms(4) inv(2) in
        \<open>simp_all add: i_def del: length_contents\<close>)
  ultimately show ?thesis by (simp only: body i_def)
qed

section \<open>What a scan achieves\<close>

definition queues_ok :: "'p sensors_event SensorEventQueue list \<Rightarrow> bool" where
  "queues_ok qs \<longleftrightarrow> (\<forall>i < length qs. queue_inv (qs ! i))"

definition scan_ready :: "int \<Rightarrow> 'p poll_vars \<Rightarrow> bool" where
  "scan_ready maxReads s \<longleftrightarrow> poll_fault s = None \<and> queues_ok (queues s) \<and> eventsRead s = 0
     \<and> maxReads \<le> int (length (data s)) \<and> 0 \<le> nextReadIndex s
     \<and> (0 < length (queues s) \<longrightarrow> nextReadIndex s < int (length (queues s)))"

lemma scan_inv_start:
  "scan_ready maxReads s
    \<Longrightarrow> scan_inv H hm maxReads (queues s) (length (data s)) [] (s\<lparr>empties := 0\<rparr>)"
  by (auto simp: scan_ready_def scan_inv_def queues_ok_def delivered_def taken_from_def)

lemma poll_body_inv:
  assumes "\<exists>log. scan_inv H hm maxReads qs0 buflen log s"
    and "poll_guard (int (length qs0)) maxReads s" and "maxReads \<le> int buflen"
  shows "(\<exists>log. scan_inv H hm maxReads qs0 buflen log (poll_body H hm (int (length qs0)) s))
    \<and> scan_measure (poll_body H hm (int (length qs0)) s) < scan_measure s"
proof -
  obtain log where inv: "scan_inv H hm maxReads qs0 buflen log s" using assms(1) by blast
  show ?thesis
  proof (cases "contents (queues s ! nat (nextReadIndex s))")
    case Nil
    from poll_body_empty [OF inv assms(2) this] show ?thesis by blast
  next
    case (Cons e rest)
    from poll_body_record [OF inv assms(2,3) this] show ?thesis by blast
  qed
qed

lemma all_queues_empty:
  assumes "scan_inv H hm maxReads qs0 buflen log s" and "empties s = int (length qs0)"
    and "i < length qs0"
  shows "contents (queues s ! i) = []"
proof -
  note inv = scan_invD [OF assms(1)]
  let ?Q = "int (length qs0)"
  define k where "k = nat ((nextReadIndex s - 1 - int i) mod ?Q)"
  have Q: "0 < ?Q" using assms(3) by linarith
  then have k: "int k = (nextReadIndex s - 1 - int i) mod ?Q" by (simp add: k_def)
  with pos_mod_bound [OF Q] have "int k < ?Q" by simp
  then have "k < nat (empties s)" using assms(2) by linarith
  moreover have "(nextReadIndex s - 1 - int k) mod ?Q = int i"
    unfolding k mod_diff_right_eq using assms(3) by simp
  ultimately show ?thesis using inv(14) [of k] by simp
qed

lemma poll_scan_correct:
  assumes "scan_ready maxReads s"
  obtains log s' where "poll_scan H hm maxReads s = Some s'"
    "scan_inv H hm maxReads (queues s) (length (data s)) log s'"
    "eventsRead s' < maxReads \<Longrightarrow> \<forall>i < length (queues s). contents (queues s' ! i) = []"
proof -
  let ?Q = "int (length (queues s))"
  let ?P = "\<lambda>t. \<exists>log. scan_inv H hm maxReads (queues s) (length (data s)) log t"
  have buf: "maxReads \<le> int (length (data s))" using assms by (simp add: scan_ready_def)
  have start: "?P (s\<lparr>empties := 0\<rparr>)" using scan_inv_start [OF assms] by blast
  have step: "?P (poll_body H hm ?Q t) \<and> scan_measure (poll_body H hm ?Q t) < scan_measure t"
    if "?P t" "poll_guard ?Q maxReads t" for t
    using poll_body_inv [OF that buf] .
  obtain s' where run: "poll_scan H hm maxReads s = Some s'"
    unfolding poll_scan_def
    using measure_while_option_Some [where P = ?P and f = scan_measure, OF step start] by blast
  then have run': "while_option (poll_guard ?Q maxReads) (poll_body H hm ?Q) (s\<lparr>empties := 0\<rparr>) = Some s'"
    by (simp add: poll_scan_def)
  obtain log where inv: "scan_inv H hm maxReads (queues s) (length (data s)) log s'"
    using while_option_rule [where P = ?P, OF _ run' start] step by blast
  have "\<not> poll_guard ?Q maxReads s'" using while_option_stop [OF run'] .
  then have "empties s' = ?Q" if "eventsRead s' < maxReads"
    using that scan_invD(1,7) [OF inv] by (auto simp: poll_guard_def)
  with all_queues_empty [OF inv] that [OF run inv] show ?thesis by blast
qed

lemma delivered_valid: "e \<in> set (delivered H hm log) \<Longrightarrow> ev_sensor e \<noteq> -1"
  by (simp add: delivered_def)

lemma taken_fromD: "e \<in> set (taken_from i log) \<Longrightarrow> (i, e) \<in> set log"
  by (auto simp: taken_from_def)

lemma scan_buffer_nonempty:
  assumes "scan_inv H hm maxReads qs0 buflen log s" and "eventsRead s = 0"
  shows "delivered H hm log = []"
  using scan_invD(10) [OF assms(1)] assms(2) by simp

lemma poll_no_room:
  "maxReads \<le> 0 \<Longrightarrow> eventsRead s = 0 \<Longrightarrow> poll_fault s = None \<Longrightarrow> poll H hm maxReads s wakes = None"
proof (induction wakes arbitrary: s)
  case Nil
  have "poll_scan H hm maxReads s = Some (s\<lparr>empties := 0\<rparr>)"
    unfolding poll_scan_def using Nil by (subst while_option_unfold) (simp add: poll_guard_def)
  with Nil show ?case by (subst poll.simps) simp
next
  case (Cons qs wakes)
  have "poll_scan H hm maxReads s = Some (s\<lparr>empties := 0\<rparr>)"
    unfolding poll_scan_def using Cons.prems by (subst while_option_unfold) (simp add: poll_guard_def)
  with Cons.prems Cons.IH [of "s\<lparr>empties := 0, queues := qs\<rparr>"] show ?case
    by (subst poll.simps) simp
qed

text \<open>
  Queues for the witnesses: one waiting event in the first queue, one of an unknown sensor and one
  good one in the second.
\<close>

definition two_queues :: "unit sensors_event SensorEventQueue list" where
  "two_queues =
     [\<lparr>mCapacity = 2, mStart = 1, mSize = 1, mData = [plain_event 0, plain_event 5]\<rparr>,
      \<lparr>mCapacity = 2, mStart = 0, mSize = 2, mData = [plain_event 9, plain_event 6]\<rparr>]"

lemma two_queues_ready: "scan_ready 4 (poll_start (replicate 4 (plain_event 0)) 0 two_queues)"
  by (simp add: scan_ready_def poll_start_def two_queues_def queues_ok_def queue_inv_def
      less_Suc_eq nth_Cons')

definition idle_queues :: "unit sensors_event SensorEventQueue list" where
  "idle_queues = [new_queue (\<lambda>_. plain_event 0) 2, new_queue (\<lambda>_. plain_event 0) 2]"

section \<open>Properties\<close>

text \<open>
  C11: a scan of the queues terminates without an exception and stays inside the caller's buffer of
  \<open>maxReads\<close> slots. There is an order in which it took records such that every queue lost a prefix
  of its records, in order and nothing else, and the buffer holds the translations of the taken
  records in that order, without those of unknown sensors. If the buffer is not full afterwards,
  every queue is empty.
\<close>

theorem poll_scan_delivers:
  assumes "scan_ready maxReads s"
  shows "\<exists>s' log. poll_scan H hm maxReads s = Some s' \<and> poll_fault s' = None
    \<and> length (data s') = length (data s)
    \<and> 0 \<le> eventsRead s' \<and> eventsRead s' \<le> max 0 maxReads
    \<and> take (nat (eventsRead s')) (data s') = delivered H hm log
    \<and> (\<forall>i < length (queues s).
         contents (queues s ! i) = taken_from i log @ contents (queues s' ! i))
    \<and> (eventsRead s' < maxReads \<longrightarrow> (\<forall>i < length (queues s). contents (queues s' ! i) = []))"
proof -
  obtain log s' where run: "poll_scan H hm maxReads s = Some s'"
    and inv: "scan_inv H hm maxReads (queues s) (length (data s)) log s'"
    and empty: "eventsRead s' < maxReads \<Longrightarrow> \<forall>i < length (queues s). contents (queues s' ! i) = []"
    using poll_scan_correct [OF assms, where H = H and hm = hm] by blast
  from scan_invD [OF inv] show ?thesis
    by (intro exI [of _ s'] exI [of _ log] conjI) (use run empty in auto)
qed

theorem poll_scan_delivers_witness:
  "\<exists>s'. poll_scan android_9 two_hals 4 (poll_start (replicate 4 (plain_event 0)) 0 two_queues) = Some s'
     \<and> poll_fault s' = None \<and> 0 \<le> eventsRead s' \<and> eventsRead s' \<le> 4"
  using poll_scan_delivers [OF two_queues_ready, of android_9 two_hals] by auto

text \<open>
  A normal event that reaches the framework carries the global handle of the very sensor that
  produced it: looked up again, it gives the module whose queue the event came from and the local
  handle the sub-HAL had written. An event of an unregistered sensor is marked with handle -1, the
  mark that \<open>poll\<close> drops.
\<close>

theorem remapped_handle_origin:
  assumes "handle_inv hm" and "ev_type e \<noteq> SENSOR_TYPE_META_DATA H"
  shows "(if full_to_global hm (FullHandle m (ev_sensor e)) = None
      then ev_sensor (copy_event_remap_handle H hm e m) = -1
      else get_module_index hm (ev_sensor (copy_event_remap_handle H hm e m)) = m
        \<and> get_local_handle hm (ev_sensor (copy_event_remap_handle H hm e m)) = ev_sensor e
        \<and> 1 \<le> ev_sensor (copy_event_remap_handle H hm e m))
    \<and> ev_payload (copy_event_remap_handle H hm e m) = ev_payload e
    \<and> ev_type (copy_event_remap_handle H hm e m) = ev_type e"
proof (cases "full_to_global hm (FullHandle m (ev_sensor e))")
  case None
  with assms(2) show ?thesis by (simp add: copy_event_remap_handle_def get_global_handle_def)
next
  case (Some g)
  with assms(1) have full: "global_to_full hm g = Some (FullHandle m (ev_sensor e))"
    by (simp add: handle_inv_def)
  then have "g \<in> {1..<next_global_handle hm}"
    using assms(1) unfolding handle_inv_def by blast
  with full Some assms(2) show ?thesis
    by (simp add: copy_event_remap_handle_def get_global_handle_def get_module_index_def
        get_local_handle_def)
qed

theorem remapped_handle_origin_witness:
  "ev_sensor (copy_event_remap_handle android_9 two_hals (plain_event 6) 1) = 2
    \<and> get_local_handle two_hals 2 = 6 \<and> get_module_index two_hals 2 = 1"
proof -
  have e: "ev_type (plain_event 6) \<noteq> SENSOR_TYPE_META_DATA android_9"
    by (simp add: plain_event_def android_9_def)
  have "full_to_global two_hals (FullHandle 1 6) = Some 2"
    by (simp add: two_hals_def register_full_def assign_global_handle_def initial_handles_def
        s32_def Let_def)
  moreover have "ev_sensor (copy_event_remap_handle android_9 two_hals (plain_event 6) 1) = 2"
    by (simp add: copy_event_remap_handle_def e get_global_handle_def)
      (simp add: plain_event_def two_hals_def register_full_def assign_global_handle_def
        initial_handles_def s32_def Let_def)
  ultimately show ?thesis
    using remapped_handle_origin [OF two_hals_inv e, of 1] by (simp add: plain_event_def)
qed

text \<open>Whether some queue holds an event of a known sensor.\<close>

definition deliverable :: "sensors_h \<Rightarrow> handle_maps \<Rightarrow> 'p sensors_event SensorEventQueue list \<Rightarrow> bool" where
  "deliverable H hm qs \<longleftrightarrow> (\<exists>i < length qs. \<exists>e \<in> set (contents (qs ! i)).
     ev_sensor (copy_event_remap_handle H hm e (int i)) \<noteq> -1)"

text \<open>A scan reads something exactly when there is something to deliver.\<close>

lemma scan_reads:
  assumes ready: "scan_ready maxReads s" and room: "0 < maxReads"
    and inv: "scan_inv H hm maxReads (queues s) (length (data s)) log s'"
    and empty: "eventsRead s' < maxReads \<Longrightarrow> \<forall>i < length (queues s). contents (queues s' ! i) = []"
  shows "eventsRead s' = 0 \<longleftrightarrow> \<not> deliverable H hm (queues s)"
proof
  note scan = scan_invD [OF inv]
  assume 0: "eventsRead s' = 0"
  show "\<not> deliverable H hm (queues s)"
  proof
    assume "deliverable H hm (queues s)"
    then obtain i e where e: "i < length (queues s)" "e \<in> set (contents (queues s ! i))"
      "ev_sensor (copy_event_remap_handle H hm e (int i)) \<noteq> -1"
      unfolding deliverable_def by blast
    have "contents (queues s' ! i) = []" using empty 0 room e(1) by simp
    with scan(13) [OF e(1)] e(2) have "(i, e) \<in> set log" by (intro taken_fromD) simp
    with e(3) have "copy_event_remap_handle H hm e (int i) \<in> set (delivered H hm log)"
      by (force simp: delivered_def)
    with scan_buffer_nonempty [OF inv 0] show False by simp
  qed
next
  note scan = scan_invD [OF inv]
  assume none: "\<not> deliverable H hm (queues s)"
  have "ev_sensor (copy_event_remap_handle H hm e (int i)) = -1" if "(i, e) \<in> set log" for i e
  proof -
    have i: "i < length (queues s)" using scan(15) that by fastforce
    have "e \<in> set (taken_from i log)" using that by (force simp: taken_from_def)
    with scan(13) [OF i] have "e \<in> set (contents (queues s ! i))" by simp
    with none i show ?thesis unfolding deliverable_def by blast
  qed
  then have "delivered H hm log = []" by (auto simp: delivered_def filter_empty_conv)
  with scan(10) have "eventsRead s' \<le> 0 \<or> data s' = []" by simp
  with scan(3,8,9) ready room show "eventsRead s' = 0" by (auto simp: scan_ready_def)
qed

text \<open>After a scan that read nothing, the next one is ready for the queues that a wake-up finds.\<close>

lemma scan_ready_again:
  assumes "scan_ready maxReads s" and "scan_inv H hm maxReads (queues s) (length (data s)) log s'"
    and "eventsRead s' = 0" and "queues_ok qs" and "length qs = length (queues s)"
  shows "scan_ready maxReads (s'\<lparr>queues := qs\<rparr>)"
  using assms scan_invD(1-5) [OF assms(2)] by (auto simp: scan_ready_def)

text \<open>What a call returns with when it has scanned \<open>qs\<close> and read something.\<close>

definition returns_from :: "sensors_h \<Rightarrow> handle_maps \<Rightarrow> int \<Rightarrow> 'p sensors_event SensorEventQueue list
    \<Rightarrow> 'p poll_vars option \<Rightarrow> bool" where
  "returns_from H hm maxReads qs r \<longleftrightarrow> (\<exists>s' log. r = Some s' \<and> 0 < eventsRead s' \<and> eventsRead s' \<le> maxReads
     \<and> take (nat (eventsRead s')) (data s') = delivered H hm log
     \<and> (\<forall>x \<in> set (take (nat (eventsRead s')) (data s')). ev_sensor x \<noteq> -1)
     \<and> (\<forall>i < length qs. contents (qs ! i) = taken_from i log @ contents (queues s' ! i))
     \<and> (\<forall>x \<in> set log. fst x < length qs))"

lemma poll_first_scan:
  assumes "scan_ready maxReads s" and "0 < maxReads"
  obtains (returns) "deliverable H hm (queues s)" "\<And>wakes. returns_from H hm maxReads (queues s) (poll H hm maxReads s wakes)"
  | (waits) s' where "\<not> deliverable H hm (queues s)" "poll H hm maxReads s [] = None"
    "\<And>q wakes. poll H hm maxReads s (q # wakes) = poll H hm maxReads (s'\<lparr>queues := q\<rparr>) wakes"
    "\<And>q. queues_ok q \<Longrightarrow> length q = length (queues s) \<Longrightarrow> scan_ready maxReads (s'\<lparr>queues := q\<rparr>)"
proof -
  obtain log s' where run: "poll_scan H hm maxReads s = Some s'"
    and inv: "scan_inv H hm maxReads (queues s) (length (data s)) log s'"
    and empty: "eventsRead s' < maxReads \<Longrightarrow> \<forall>i < length (queues s). contents (queues s' ! i) = []"
    by (rule poll_scan_correct [OF assms(1), where H = H and hm = hm]) blast
  note reads = scan_reads [OF assms inv empty] and scan = scan_invD [OF inv]
  show thesis
  proof (cases "deliverable H hm (queues s)")
    case True
    with reads run have "poll H hm maxReads s wakes = Some s'" for wakes by (subst poll.simps) simp
    moreover have "returns_from H hm maxReads (queues s) (Some s')"
      using reads True scan(8-10,13,15) assms(2) delivered_valid [of _ H hm log]
      by (auto simp: returns_from_def intro!: exI [of _ log])
    ultimately show thesis using returns True by simp
  next
    case False
    with reads run scan(1) have "poll H hm maxReads s [] = None"
      "poll H hm maxReads s (q # wakes) = poll H hm maxReads (s'\<lparr>queues := q\<rparr>) wakes" for q wakes
      by (subst poll.simps, simp)+
    with scan_ready_again [OF assms(1) inv] reads False show thesis by (intro waits) auto
  qed
qed

lemma poll_waits:
  assumes "scan_ready maxReads s" and "0 < maxReads"
    and "\<forall>qs \<in> set wakes. queues_ok qs \<and> length qs = length (queues s)"
  shows "case find (deliverable H hm) (queues s # wakes) of
      None \<Rightarrow> poll H hm maxReads s wakes = None
    | Some qs \<Rightarrow> returns_from H hm maxReads qs (poll H hm maxReads s wakes)"
  using assms(1,3)
proof (induction wakes arbitrary: s)
  case Nil
  show ?case by (rule poll_first_scan [OF Nil(1) assms(2), of H hm]) simp_all
next
  case (Cons q wakes)
  show ?case
  proof (rule poll_first_scan [OF Cons.prems(1) assms(2), of H hm])
    fix s'
    assume none: "\<not> deliverable H hm (queues s)"
      and again: "\<And>q wakes. poll H hm maxReads s (q # wakes) = poll H hm maxReads (s'\<lparr>queues := q\<rparr>) wakes"
      and ready: "\<And>q. queues_ok q \<Longrightarrow> length q = length (queues s) \<Longrightarrow> scan_ready maxReads (s'\<lparr>queues := q\<rparr>)"
    from none Cons.IH [of "s'\<lparr>queues := q\<rparr>"] Cons.prems(2) ready show ?thesis unfolding again by simp
  qed simp
qed

text \<open>
  C16: \<open>poll\<close> waits while there is nothing to deliver and no longer. \<open>wakes\<close> are the
  queues as the wake-ups find them. When neither the queues at the call nor those at any wake-up hold an
  event of a known sensor, the call has not returned; otherwise it returns at the first of these moments
  at which they do, with at least one and at most \<open>maxReads\<close> events, none of them with handle -1, and
  these are the translations of records taken from the fronts of the queues of that very moment.
\<close>

theorem poll_returns_events:
  assumes "scan_ready maxReads s" and "0 < maxReads"
    and "\<forall>qs \<in> set wakes. queues_ok qs \<and> length qs = length (queues s)"
  shows "case find (deliverable H hm) (queues s # wakes) of
      None \<Rightarrow> poll H hm maxReads s wakes = None
    | Some qs \<Rightarrow> \<exists>s' log. poll H hm maxReads s wakes = Some s'
        \<and> 0 < eventsRead s' \<and> eventsRead s' \<le> maxReads
        \<and> take (nat (eventsRead s')) (data s') = delivered H hm log
        \<and> (\<forall>x \<in> set (take (nat (eventsRead s')) (data s')). ev_sensor x \<noteq> -1)
        \<and> (\<forall>i < length qs. contents (qs ! i) = taken_from i log @ contents (queues s' ! i))
        \<and> (\<forall>x \<in> set log. fst x < length qs)"
  using poll_waits [OF assms, of H hm] unfolding returns_from_def .

theorem poll_returns_events_witness:
  "\<exists>s'. poll android_9 two_hals 4 (poll_start (replicate 4 (plain_event 0)) 0 idle_queues) [idle_queues, two_queues] = Some s'
     \<and> 0 < eventsRead s' \<and> eventsRead s' \<le> 4"
proof -
  let ?s = "poll_start (replicate 4 (plain_event 0)) 0 idle_queues"
  have "plain_event 5 \<in> set (contents (two_queues ! 0))"
    by (simp add: two_queues_def contents_def slot_def)
  moreover have "ev_sensor (copy_event_remap_handle android_9 two_hals (plain_event 5) (int 0)) \<noteq> -1"
    by (simp add: copy_event_remap_handle_def get_global_handle_def plain_event_def two_hals_def
        register_full_def assign_global_handle_def initial_handles_def s32_def Let_def android_9_def)
  moreover have "0 < length two_queues" by (simp add: two_queues_def)
  ultimately have two: "deliverable android_9 two_hals two_queues" unfolding deliverable_def by blast
  have idle: "\<not> deliverable android_9 two_hals idle_queues"
    by (auto simp: deliverable_def idle_queues_def less_Suc_eq nth_Cons')
  have ready: "scan_ready 4 ?s" "queues_ok idle_queues"
    by (simp_all add: scan_ready_def poll_start_def idle_queues_def queues_ok_def queue_inv_new less_Suc_eq nth_Cons')
  have "\<forall>qs \<in> set [idle_queues, two_queues]. queues_ok qs \<and> length qs = length (queues ?s)"
    using ready two_queues_ready by (simp add: scan_ready_def poll_start_def idle_queues_def two_queues_def)
  from poll_returns_events [OF ready(1) _ this, of android_9 two_hals] idle two show ?thesis
    by (auto simp: poll_start_def)
qed

text \<open>
  A caller that asks for no events waits for ever, whatever arrives: with \<open>maxReads\<close> zero or
  negative no wake-up ever makes the call return.
\<close>

theorem poll_no_room_never_returns:
  assumes "maxReads \<le> 0"
  shows "poll H hm maxReads (poll_start buffer next qs) wakes = None"
  by (rule poll_no_room) (simp_all add: poll_start_def assms)

theorem poll_no_room_never_returns_witness:
  "poll android_9 initial_handles 0 (poll_start [] 0 [])
     [[], [new_queue (\<lambda>_. \<lparr>ev_sensor = 5, ev_type = 1, ev_meta_sensor = 0, ev_payload = ()\<rparr>) 4]] = None"
  by (rule poll_no_room_never_returns) simp

end
