(* ===== verification/Sensor_Threads.thy ===== *)
theory Sensor_Threads
  imports Sensor_Poll
begin

text \<open>
  The threads of the multi-HAL: one \<open>writerTask\<close> for each sub-HAL (\<open>sensors/multihal.cpp\<close> lines 128 to
  170) and the framework's thread inside \<open>poll\<close>. Every section under \<open>queue_mutex\<close> is one step, the
  sub-HAL writes into its region between the steps of the others, and condition variables may wake
  a thread without a signal. The theory shows that events reach the framework in order and without
  loss in every interleaving, that a writer's region is its own, and that no wake-up is lost.
\<close>

section \<open>The state of the threads\<close>

text \<open>
  Where a writer is: before it locks the mutex, in \<open>pthread_cond_wait\<close> of \<open>waitForSpace\<close> (with the
  signal it got), inside \<open>poll()\<close> of the sub-HAL with a region, or before it marks the events that
  \<open>poll()\<close> returned. The events are kept beside their number \<open>eventsPolled\<close>.
\<close>

datatype 'p writer_pc =
    W_Start
  | W_WaitSpace bool
  | W_Polling int int
  | W_Mark int "'p sensors_event list"

text \<open>The framework's thread: outside \<open>poll\<close>, or in \<open>pthread_cond_wait\<close> with its arguments.\<close>

datatype 'p poller_pc =
    P_Idle
  | P_Wait int "'p sensors_event list" bool

text \<open>
  \<open>written\<close> and \<open>returned\<close> record what every sub-HAL wrote and what \<open>poll\<close> returned so far; the code
  does not keep them.
\<close>

record 'p threads =
  t_queues :: "'p sensors_event SensorEventQueue list"
  t_writers :: "'p writer_pc list"
  t_poller :: "'p poller_pc"
  t_nextReadIndex :: int
  waiting_for_data :: bool
  written :: "'p sensors_event list list"
  returned :: "'p sensors_event list"

definition threads_start :: "(nat \<Rightarrow> 'p sensors_event) \<Rightarrow> nat \<Rightarrow> 'p threads" where
  "threads_start junk n =
     \<lparr>t_queues = replicate n (new_queue junk SENSOR_EVENT_QUEUE_CAPACITY),
      t_writers = replicate n W_Start, t_poller = P_Idle, t_nextReadIndex = 0,
      waiting_for_data = False, written = replicate n [], returned = []\<rparr>"

section \<open>The writer\<close>

text \<open>The section of \<open>writerTask\<close> that waits for space and gets a region.\<close>

definition writer_lock :: "'p sensors_event SensorEventQueue \<Rightarrow> 'p writer_pc" where
  "writer_lock queue =
     (if mSize queue = mCapacity queue then W_WaitSpace False
      else case getWritableRegion queue SENSOR_EVENT_QUEUE_CAPACITY of
             (Some buffer, bufferSize) \<Rightarrow> W_Polling buffer bufferSize
           | (None, bufferSize) \<Rightarrow> W_Start)"

text \<open>What the writer does with the result of \<open>poll()\<close>; a result of 0 or less starts it again.\<close>

definition region_data :: "'p sensors_event SensorEventQueue \<Rightarrow> int \<Rightarrow> int \<Rightarrow> 'p sensors_event list" where
  "region_data queue buffer m = map (\<lambda>j. mData queue ! (nat buffer + j)) [0..<nat m]"

definition writer_polled :: "'p sensors_event SensorEventQueue \<Rightarrow> int \<Rightarrow> int \<Rightarrow> 'p writer_pc" where
  "writer_polled queue buffer eventsPolled =
     (if eventsPolled \<le> 0 then W_Start
      else W_Mark buffer (region_data queue buffer eventsPolled))"

fun signal_poller :: "'p poller_pc \<Rightarrow> 'p poller_pc" where
  "signal_poller P_Idle = P_Idle"
| "signal_poller (P_Wait maxReads buf sig) = P_Wait maxReads buf True"

definition writer_mark :: "nat \<Rightarrow> 'p sensors_event list \<Rightarrow> 'p threads \<Rightarrow> 'p threads" where
  "writer_mark i es s =
     s\<lparr>t_queues := (t_queues s)[i := markAsWritten (int (length es)) (t_queues s ! i)],
       t_writers := (t_writers s)[i := W_Start],
       t_poller := (if waiting_for_data s then signal_poller (t_poller s) else t_poller s),
       written := (written s)[i := written s ! i @ es]\<rparr>"

section \<open>The reader\<close>

fun signal_writer :: "'p writer_pc \<Rightarrow> 'p writer_pc" where
  "signal_writer (W_WaitSpace sig) = W_WaitSpace True"
| "signal_writer pc = pc"

text \<open>
  A scan of the queues under the mutex, from the call of \<open>poll\<close> or from a wake-up to the return or to
  the next wait.
\<close>

definition poller_scan :: "sensors_h \<Rightarrow> handle_maps \<Rightarrow> int \<Rightarrow> 'p sensors_event list \<Rightarrow> 'p threads
    \<Rightarrow> 'p threads option" where
  "poller_scan H hm maxReads buf s =
     map_option
       (\<lambda>v. s\<lparr>t_queues := queues v,
              t_writers := map (\<lambda>i. if i \<in> set (woken v) then signal_writer (t_writers s ! i)
                                    else t_writers s ! i) [0..<length (t_writers s)],
              t_nextReadIndex := nextReadIndex v,
              t_poller := (if eventsRead v = 0 then P_Wait maxReads (data v) False else P_Idle),
              waiting_for_data := (eventsRead v = 0),
              returned := returned s @ take (nat (eventsRead v)) (data v)\<rparr>)
       (poll_scan H hm maxReads (poll_start buf (t_nextReadIndex s) (t_queues s)))"

section \<open>The interleaving\<close>

text \<open>
  The documented behaviour of \<open>poll()\<close> of a sub-HAL is part of \<open>writer_store\<close> and \<open>writer_poll\<close>: it
  writes only into its buffer and returns at most the size of the buffer. The framework calls \<open>poll\<close>
  from one thread, with room for at least one event.
\<close>

inductive threads_step :: "sensors_h \<Rightarrow> handle_maps \<Rightarrow> 'p threads \<Rightarrow> 'p threads \<Rightarrow> bool"
  for H :: sensors_h and hm :: handle_maps where
  step_lock: "i < length (t_writers s) \<Longrightarrow> t_writers s ! i = W_Start \<Longrightarrow>
    threads_step H hm s (s\<lparr>t_writers := (t_writers s)[i := writer_lock (t_queues s ! i)]\<rparr>)"
| step_woken: "i < length (t_writers s) \<Longrightarrow> t_writers s ! i = W_WaitSpace sig \<Longrightarrow>
    threads_step H hm s (s\<lparr>t_writers := (t_writers s)[i := writer_lock (t_queues s ! i)]\<rparr>)"
| step_store: "i < length (t_writers s) \<Longrightarrow> t_writers s ! i = W_Polling f n \<Longrightarrow> 0 \<le> k \<Longrightarrow> k < n \<Longrightarrow>
    threads_step H hm s (s\<lparr>t_queues := (t_queues s)[i := fill_region (f + k) [e] (t_queues s ! i)]\<rparr>)"
| step_polled: "i < length (t_writers s) \<Longrightarrow> t_writers s ! i = W_Polling f n \<Longrightarrow> eventsPolled \<le> n \<Longrightarrow>
    threads_step H hm s
      (s\<lparr>t_writers := (t_writers s)[i := writer_polled (t_queues s ! i) f eventsPolled]\<rparr>)"
| step_mark: "i < length (t_writers s) \<Longrightarrow> t_writers s ! i = W_Mark f es \<Longrightarrow>
    threads_step H hm s (writer_mark i es s)"
| step_poll: "t_poller s = P_Idle \<Longrightarrow> 0 < maxReads \<Longrightarrow> maxReads \<le> int (length buf) \<Longrightarrow>
    poller_scan H hm maxReads buf s = Some t \<Longrightarrow> threads_step H hm s t"
| step_data: "t_poller s = P_Wait maxReads buf sig \<Longrightarrow>
    poller_scan H hm maxReads buf s = Some t \<Longrightarrow> threads_step H hm s t"

section \<open>The invariant\<close>

fun writer_ok :: "'p sensors_event SensorEventQueue \<Rightarrow> 'p writer_pc \<Rightarrow> bool" where
  "writer_ok q W_Start \<longleftrightarrow> True"
| "writer_ok q (W_WaitSpace sig) \<longleftrightarrow> sig \<or> mSize q = mCapacity q"
| "writer_ok q (W_Polling f n) \<longleftrightarrow> region_ok q f n"
| "writer_ok q (W_Mark f es) \<longleftrightarrow> region_ok q f (int (length es)) \<and> es \<noteq> []
     \<and> region_data q f (int (length es)) = es"

fun poller_ok :: "'p threads \<Rightarrow> 'p poller_pc \<Rightarrow> bool" where
  "poller_ok s P_Idle \<longleftrightarrow> \<not> waiting_for_data s"
| "poller_ok s (P_Wait maxReads buf sig) \<longleftrightarrow> waiting_for_data s \<and> 0 < maxReads
     \<and> maxReads \<le> int (length buf) \<and> (sig \<or> (\<forall>q \<in> set (t_queues s). contents q = []))"

definition accounted :: "sensors_h \<Rightarrow> handle_maps \<Rightarrow> 'p threads \<Rightarrow> bool" where
  "accounted H hm s \<longleftrightarrow> (\<exists>log. returned s = delivered H hm log \<and> (\<forall>x \<in> set log. fst x < length (t_queues s))
     \<and> (\<forall>i < length (t_queues s). written s ! i = taken_from i log @ contents (t_queues s ! i)))"

definition threads_inv :: "sensors_h \<Rightarrow> handle_maps \<Rightarrow> 'p threads \<Rightarrow> bool" where
  "threads_inv H hm s \<longleftrightarrow>
     length (t_writers s) = length (t_queues s) \<and> length (written s) = length (t_queues s)
     \<and> (\<forall>i < length (t_queues s). queue_inv (t_queues s ! i)
          \<and> writer_ok (t_queues s ! i) (t_writers s ! i))
     \<and> 0 \<le> t_nextReadIndex s
     \<and> (0 < length (t_queues s) \<longrightarrow> t_nextReadIndex s < int (length (t_queues s)))
     \<and> poller_ok s (t_poller s) \<and> accounted H hm s"

lemma threads_invD:
  assumes "threads_inv H hm s"
  shows "length (t_writers s) = length (t_queues s)" "length (written s) = length (t_queues s)"
    "\<And>i. i < length (t_queues s) \<Longrightarrow> queue_inv (t_queues s ! i)"
    "\<And>i. i < length (t_queues s) \<Longrightarrow> writer_ok (t_queues s ! i) (t_writers s ! i)"
    "0 \<le> t_nextReadIndex s"
    "0 < length (t_queues s) \<Longrightarrow> t_nextReadIndex s < int (length (t_queues s))"
    "poller_ok s (t_poller s)" "accounted H hm s"
  using assms unfolding threads_inv_def by blast+

lemma threads_inv_start: "threads_inv H hm (threads_start junk n)"
  by (auto simp: threads_inv_def threads_start_def queue_inv_new SENSOR_EVENT_QUEUE_CAPACITY_def
      accounted_def delivered_def taken_from_def intro: exI [of _ "[]"])

lemma length_region_data [simp]: "length (region_data q f m) = nat m"
  by (simp add: region_data_def)

lemma writer_lock_ok: "queue_inv q \<Longrightarrow> writer_ok q (writer_lock q)"
  using getWritableRegion_ok(1) [of q SENSOR_EVENT_QUEUE_CAPACITY]
  by (auto simp: writer_lock_def SENSOR_EVENT_QUEUE_CAPACITY_def split: prod.split option.split)

lemma writer_polled_ok:
  "region_ok q f n \<Longrightarrow> m \<le> n \<Longrightarrow> writer_ok q (writer_polled q f m)"
  by (auto simp: writer_polled_def region_ok_def region_data_def)

text \<open>A store of the sub-HAL anywhere in its region leaves the readable records alone.\<close>

lemma fill_region_store:
  assumes "queue_inv q" and "region_ok q f n" and "0 \<le> k" and "k < n"
  shows "contents (fill_region (f + k) [e] q) = contents q"
proof -
  have f: "0 \<le> f" using queue_end_bounds(1) [OF assms(1)] region_okD(1) [OF assms(2)] by simp
  have "nat (f + k) \<noteq> slot q i" if "i < nat (mSize q)" for i
    using region_disjoint [OF assms(1,2) _ _ that, of "nat (f + k)"] f assms(3,4) by auto
  then show ?thesis
    by (auto simp: contents_def fill_region_def slot_def)
qed

lemma region_ok_fill [simp]: "region_ok (fill_region f' es q) f n = region_ok q f n"
  by (simp add: region_ok_def queue_end_def free_space_def)

lemma mark_region:
  assumes "queue_inv q" and "writer_ok q (W_Mark f es)"
  shows "queue_inv (markAsWritten (int (length es)) q)"
    and "contents (markAsWritten (int (length es)) q) = contents q @ es"
  using assms markAsWritten_contents [OF assms(1), of f "int (length es)" "int (length es)"]
  by (auto simp: region_ok_def region_data_def intro!: markAsWritten_inv)

section \<open>What a scan does to the queues and the writers\<close>

lemma dequeue_times_simps [simp]:
  "mCapacity (dequeue_times k q) = mCapacity q" "mData (dequeue_times k q) = mData q"
  by (induction k) (simp_all add: dequeue_times_def dequeue_def)

lemma dequeue_times_Suc: "dequeue_times (Suc k) q = fst (dequeue (dequeue_times k q))"
  by (simp add: dequeue_times_def)

lemma dequeue_times_0 [simp]: "dequeue_times 0 q = q"
  by (simp add: dequeue_times_def)

text \<open>
  Relative to the queues at its start, a scan has dequeued some records of every queue, and has
  broadcast for every queue that was full and has lost a record.
\<close>

definition scan_effect :: "'p sensors_event SensorEventQueue list \<Rightarrow> 'p poll_vars \<Rightarrow> bool" where
  "scan_effect qs0 v \<longleftrightarrow> length (queues v) = length qs0
     \<and> (\<forall>i < length qs0. \<exists>k. queues v ! i = dequeue_times k (qs0 ! i)
          \<and> (0 < k \<and> mSize (qs0 ! i) = mCapacity (qs0 ! i) \<longrightarrow> i \<in> set (woken v)))"

lemma scan_effect_body:
  assumes "scan_effect qs0 v"
  shows "scan_effect qs0 (poll_body H hm Q v)"
proof (cases "nextReadIndex v < 0 \<or> int (length (queues v)) \<le> nextReadIndex v")
  case True
  with assms show ?thesis by (simp add: poll_body_def scan_effect_def)
next
  case False
  define j where "j = nat (nextReadIndex v)"
  have j: "j < length qs0" "length (queues v) = length qs0"
    using False assms by (simp_all add: j_def scan_effect_def nat_less_iff)
  show ?thesis
  proof (cases "queue_peek (queues v ! j)")
    case None
    with False assms show ?thesis by (simp add: poll_body_def Let_def j_def scan_effect_def)
  next
    case (Some e)
    let ?d = "dequeue (queues v ! j)"
    have body: "queues (poll_body H hm Q v) = (queues v)[j := fst ?d]"
      "woken (poll_body H hm Q v) = (if snd ?d then woken v @ [j] else woken v)"
      using False Some by (simp_all add: poll_body_def Let_def j_def [symmetric] case_prod_beta)
    have full: "snd ?d \<longleftrightarrow> mSize (queues v ! j) = mCapacity (queues v ! j)"
      using Some by (auto simp: dequeue_def queue_peek_def split: if_splits)
    have "\<exists>k. queues (poll_body H hm Q v) ! i = dequeue_times k (qs0 ! i)
        \<and> (0 < k \<and> mSize (qs0 ! i) = mCapacity (qs0 ! i) \<longrightarrow> i \<in> set (woken (poll_body H hm Q v)))"
      if i: "i < length qs0" for i
    proof -
      obtain k where k: "queues v ! i = dequeue_times k (qs0 ! i)"
        "0 < k \<and> mSize (qs0 ! i) = mCapacity (qs0 ! i) \<longrightarrow> i \<in> set (woken v)"
        using assms i unfolding scan_effect_def by blast
      show ?thesis
      proof (cases "i = j")
        case True
        have "mSize (qs0 ! i) = mCapacity (qs0 ! i) \<longrightarrow> i \<in> set (woken (poll_body H hm Q v))"
          using k full True by (cases "k = 0") (auto simp: body)
        with k(1) True j show ?thesis
          by (intro exI [of _ "Suc k"]) (simp add: body dequeue_times_Suc)
      next
        case False
        with k show ?thesis by (intro exI [of _ k]) (auto simp: body)
      qed
    qed
    moreover have "length (queues (poll_body H hm Q v)) = length qs0" by (simp add: body j)
    ultimately show ?thesis by (simp add: scan_effect_def)
  qed
qed

lemma poll_scan_effect:
  assumes "poll_scan H hm maxReads v = Some v'"
  shows "scan_effect (queues v) v'"
proof -
  have "scan_effect (queues v) (v\<lparr>empties := 0\<rparr>)"
    by (auto simp: scan_effect_def intro: exI [of _ 0])
  then show ?thesis
    using while_option_rule [where P = "scan_effect (queues v)", OF _ assms [unfolded poll_scan_def]]
      scan_effect_body by blast
qed

lemma writer_ok_dequeued:
  assumes "queue_inv q" and "writer_ok q pc"
    and "mSize q = mCapacity q \<longrightarrow> k = 0 \<or> w"
  shows "writer_ok (dequeue_times k q) (if w then signal_writer pc else pc)"
  using assms dequeue_times_region [OF assms(1), of _ _ k]
  by (cases pc) (auto simp: region_data_def)

section \<open>Every step keeps the invariant\<close>

lemma threads_inv_writer:
  assumes inv: "threads_inv H hm s" and i: "i < length (t_queues s)"
    and t: "t_queues t = (t_queues s)[i := q]" "t_writers t = (t_writers s)[i := pc]"
      "written t = (written s)[i := written s ! i @ es]" "returned t = returned s"
      "t_nextReadIndex t = t_nextReadIndex s"
    and ok: "queue_inv q" "writer_ok q pc" "contents q = contents (t_queues s ! i) @ es"
      "poller_ok t (t_poller t)"
  shows "threads_inv H hm t"
proof -
  note inv = threads_invD [OF inv]
  obtain log where log: "returned s = delivered H hm log" "\<forall>x \<in> set log. fst x < length (t_queues s)"
    "\<forall>j < length (t_queues s). written s ! j = taken_from j log @ contents (t_queues s ! j)"
    using inv(8) unfolding accounted_def by blast
  have "accounted H hm t"
    unfolding accounted_def t
    by (rule exI [of _ log]) (use i inv(2) log ok(3) in \<open>auto simp: nth_list_update\<close>)
  then show ?thesis
    unfolding threads_inv_def
    using i inv(1-6) ok by (auto simp: t nth_list_update)
qed

lemma poller_ok_frame:
  assumes "poller_ok s pc" and "waiting_for_data t = waiting_for_data s"
    and "\<forall>i < length (t_queues s). contents (t_queues t ! i) = contents (t_queues s ! i)"
    and "length (t_queues t) = length (t_queues s)"
  shows "poller_ok t pc"
proof -
  have "(\<forall>q \<in> set (t_queues t). contents q = []) \<longleftrightarrow> (\<forall>q \<in> set (t_queues s). contents q = [])"
    unfolding all_set_conv_all_nth using assms(3,4) by simp
  then show ?thesis using assms(1,2) by (cases pc) simp_all
qed

lemma writer_mark_inv:
  assumes "threads_inv H hm s" and "i < length (t_writers s)" and "t_writers s ! i = W_Mark f es"
  shows "threads_inv H hm (writer_mark i es s)"
proof -
  note inv = threads_invD [OF assms(1)]
  have i: "i < length (t_queues s)" using assms(2) inv(1) by simp
  have ok: "writer_ok (t_queues s ! i) (W_Mark f es)" using inv(4) [OF i] assms(3) by simp
  note mark = mark_region [OF inv(3) [OF i] ok]
  have "poller_ok (writer_mark i es s) (t_poller (writer_mark i es s))"
    using inv(7) by (cases "t_poller s") (simp_all add: writer_mark_def)
  then show ?thesis
    by (intro threads_inv_writer [OF assms(1) i _ _ _ _ _ mark(1) _ mark(2), where pc = W_Start])
      (simp_all add: writer_mark_def)
qed

lemma poller_ready:
  assumes "threads_inv H hm s" and "maxReads \<le> int (length buf)"
  shows "scan_ready maxReads (poll_start buf (t_nextReadIndex s) (t_queues s))"
  using threads_invD(3,5,6) [OF assms(1)] assms(2)
  by (simp add: scan_ready_def poll_start_def queues_ok_def)

lemma poller_scan_inv:
  assumes inv: "threads_inv H hm s" and "0 < maxReads" and "maxReads \<le> int (length buf)"
    and run: "poller_scan H hm maxReads buf s = Some t"
  shows "threads_inv H hm t"
proof -
  note inv = threads_invD [OF inv]
  let ?v = "poll_start buf (t_nextReadIndex s) (t_queues s)"
  note ready = poller_ready [OF assms(1,3)]
  obtain log v where scan: "poll_scan H hm maxReads ?v = Some v"
    "scan_inv H hm maxReads (t_queues s) (length buf) log v"
    "eventsRead v < maxReads \<Longrightarrow> \<forall>i < length (t_queues s). contents (queues v ! i) = []"
  proof (rule poll_scan_correct [OF ready, of H hm])
    fix log v
    assume "poll_scan H hm maxReads ?v = Some v"
      and "scan_inv H hm maxReads (queues ?v) (length (data ?v)) log v"
      and "eventsRead v < maxReads \<Longrightarrow> \<forall>i < length (queues ?v). contents (queues v ! i) = []"
    then show thesis by (intro that [of v log]) (simp_all add: poll_start_def)
  qed
  note sinv = scan_invD [OF scan(2)]
  have effect: "scan_effect (t_queues s) v"
    using poll_scan_effect [OF scan(1)] by (simp add: poll_start_def)
  have t: "t = s\<lparr>t_queues := queues v,
      t_writers := map (\<lambda>i. if i \<in> set (woken v) then signal_writer (t_writers s ! i)
                            else t_writers s ! i) [0..<length (t_writers s)],
      t_nextReadIndex := nextReadIndex v,
      t_poller := (if eventsRead v = 0 then P_Wait maxReads (data v) False else P_Idle),
      waiting_for_data := (eventsRead v = 0),
      returned := returned s @ take (nat (eventsRead v)) (data v)\<rparr>"
    using run by (simp add: poller_scan_def scan(1))
  obtain log0 where log0: "returned s = delivered H hm log0" "\<forall>x \<in> set log0. fst x < length (t_queues s)"
    "\<forall>i < length (t_queues s). written s ! i = taken_from i log0 @ contents (t_queues s ! i)"
    using inv(8) unfolding accounted_def by blast
  have acc: "accounted H hm t"
    unfolding accounted_def t
    by (rule exI [of _ "log0 @ log"]) (use sinv(15) log0(2) in \<open>auto simp: sinv(2,10,13) log0(1,3)\<close>)
  have writers: "writer_ok (queues v ! i) (t_writers t ! i)" if i: "i < length (t_queues s)" for i
  proof -
    obtain k where k: "queues v ! i = dequeue_times k (t_queues s ! i)"
      "0 < k \<and> mSize (t_queues s ! i) = mCapacity (t_queues s ! i) \<longrightarrow> i \<in> set (woken v)"
      using effect i unfolding scan_effect_def by blast
    have "writer_ok (dequeue_times k (t_queues s ! i))
        (if i \<in> set (woken v) then signal_writer (t_writers s ! i) else t_writers s ! i)"
      using k(2) by (intro writer_ok_dequeued inv(3,4) i) auto
    then show ?thesis using i inv(1) by (simp add: t k(1) split: if_splits)
  qed
  have "poller_ok t (t_poller t)"
    using scan(3) assms(2,3) sinv(2,3) by (auto simp: t all_set_conv_all_nth)
  then show ?thesis
    unfolding threads_inv_def
    using writers acc inv(1,2) sinv(2,4,5,11) by (simp add: t)
qed

lemma threads_inv_pc:
  assumes "threads_inv H hm s" and "i < length (t_queues s)" and "writer_ok (t_queues s ! i) pc"
  shows "threads_inv H hm (s\<lparr>t_writers := (t_writers s)[i := pc]\<rparr>)"
proof -
  note inv = threads_invD [OF assms(1)]
  have "poller_ok (s\<lparr>t_writers := (t_writers s)[i := pc]\<rparr>) (t_poller s)"
    by (rule poller_ok_frame [OF inv(7)]) simp_all
  then show ?thesis
    by (intro threads_inv_writer [OF assms(1,2), where q = "t_queues s ! i" and es = "[]" and pc = pc])
      (simp_all add: inv(3) assms)
qed

lemma threads_inv_store:
  assumes "threads_inv H hm s" and i: "i < length (t_queues s)"
    and "t_writers s ! i = W_Polling f n" and "0 \<le> k" and "k < n"
  shows "threads_inv H hm (s\<lparr>t_queues := (t_queues s)[i := fill_region (f + k) [e] (t_queues s ! i)]\<rparr>)"
proof -
  note inv = threads_invD [OF assms(1)]
  let ?q = "fill_region (f + k) [e] (t_queues s ! i)"
  let ?t = "s\<lparr>t_queues := (t_queues s)[i := ?q]\<rparr>"
  have ok: "region_ok (t_queues s ! i) f n" using inv(4) [OF i] assms(3) by simp
  note same = fill_region_store [OF inv(3) [OF i] ok assms(4,5), of e]
  have "poller_ok ?t (t_poller s)"
    using i by (intro poller_ok_frame [OF inv(7)]) (simp_all add: nth_list_update same)
  moreover have "t_writers ?t = (t_writers s)[i := W_Polling f n]"
    using assms(3) list_update_id [of "t_writers s" i] by simp
  ultimately show ?thesis
    by (intro threads_inv_writer [OF assms(1) i, where q = ?q and es = "[]" and pc = "W_Polling f n"])
      (simp_all add: inv(3) i ok same)
qed

lemma threads_inv_step:
  assumes "threads_inv H hm s" and "threads_step H hm s t"
  shows "threads_inv H hm t"
proof -
  note inv = threads_invD [OF assms(1)]
  from assms(2) show ?thesis
  proof cases
    case (step_lock i)
    with inv(1,3) show ?thesis by (simp add: threads_inv_pc [OF assms(1)] writer_lock_ok)
  next
    case (step_woken i sig)
    with inv(1,3) show ?thesis by (simp add: threads_inv_pc [OF assms(1)] writer_lock_ok)
  next
    case (step_store i f n k e)
    with inv(1) show ?thesis by (simp add: threads_inv_store [OF assms(1)])
  next
    case (step_polled i f n m)
    with inv(1) inv(4) [of i] have "writer_ok (t_queues s ! i) (writer_polled (t_queues s ! i) f m)"
      by (intro writer_polled_ok [of _ _ n]) simp_all
    with step_polled inv(1) show ?thesis by (simp add: threads_inv_pc [OF assms(1)])
  next
    case (step_mark i f es)
    with writer_mark_inv [OF assms(1)] show ?thesis by simp
  next
    case (step_poll maxReads buf)
    with poller_scan_inv [OF assms(1)] show ?thesis by simp
  next
    case (step_data maxReads buf sig)
    with inv(7) show ?thesis by (intro poller_scan_inv [OF assms(1) _ _ step_data(2)]) simp_all
  qed
qed

definition threads_init :: "'p threads \<Rightarrow> bool" where
  "threads_init s \<longleftrightarrow> (\<exists>junk n. s = threads_start junk n)"

interpretation hal_threads: inductive_invariant threads_init "threads_step H hm" "threads_inv H hm"
  for H hm
proof (unfold_locales, goal_cases)
  case (1 s)
  then show ?case using threads_inv_start by (auto simp: threads_init_def)
next
  case (2 s t)
  then show ?case by (rule threads_inv_step)
qed

text \<open>The number of queues never changes.\<close>

lemma threads_step_queues: "threads_step H hm s t \<Longrightarrow> length (t_queues t) = length (t_queues s)"
proof (induction rule: threads_step.induct)
  case (step_poll s maxReads buf t)
  then show ?case by (auto simp: poller_scan_def poll_start_def scan_effect_def dest!: poll_scan_effect)
next
  case (step_data s maxReads buf sig t)
  then show ?case by (auto simp: poller_scan_def poll_start_def scan_effect_def dest!: poll_scan_effect)
qed (simp_all add: writer_mark_def)

lemma reachable_queues:
  "reachable init (threads_step H hm) s \<Longrightarrow> (\<And>t. init t \<Longrightarrow> length (t_queues t) = n) \<Longrightarrow> length (t_queues s) = n"
  by (induction rule: reachable.induct) (auto dest: threads_step_queues)

text \<open>A short run for the witnesses: the writer of a single sub-HAL gets its region and stores an event.\<close>

definition one_writer :: "unit threads" where
  "one_writer = threads_start (\<lambda>_. plain_event 0) 1"

definition one_polling :: "unit threads" where
  "one_polling = one_writer\<lparr>t_writers := [W_Polling 0 36]\<rparr>"

lemma one_polling_reachable: "reachable threads_init (threads_step H hm) one_polling"
proof (rule reachable_step)
  show "reachable threads_init (threads_step H hm) one_writer"
    by (rule reachable_init) (auto simp: threads_init_def one_writer_def)
  have "writer_lock (t_queues one_writer ! 0) = W_Polling 0 36"
    by (simp add: writer_lock_def one_writer_def threads_start_def new_queue_def
        SENSOR_EVENT_QUEUE_CAPACITY_def getWritableRegion_def s32_def)
  then have "one_polling = one_writer\<lparr>t_writers := (t_writers one_writer)[0 := writer_lock (t_queues one_writer ! 0)]\<rparr>"
    by (simp add: one_polling_def one_writer_def threads_start_def)
  then show "threads_step H hm one_writer one_polling"
    using step_lock [of 0 one_writer H hm] by (simp add: one_writer_def threads_start_def)
qed

definition one_marked :: "unit threads" where
  "one_marked = writer_mark 0 [plain_event 7]
     (one_polling\<lparr>t_queues := [fill_region 0 [plain_event 7] (t_queues one_polling ! 0)],
        t_writers := [W_Mark 0 [plain_event 7]]\<rparr>)"

lemma one_marked_reachable: "reachable threads_init (threads_step H hm) one_marked"
proof -
  let ?stored = "one_polling\<lparr>t_queues := [fill_region 0 [plain_event 7] (t_queues one_polling ! 0)]\<rparr>"
  let ?polled = "?stored\<lparr>t_writers := [W_Mark 0 [plain_event 7]]\<rparr>"
  have shape: "t_writers one_polling = [W_Polling 0 36]" "length (t_queues one_polling) = 1"
    by (simp_all add: one_polling_def one_writer_def threads_start_def)
  have "t_queues one_polling = [t_queues one_polling ! 0]"
    using shape(2) by (cases "t_queues one_polling") simp_all
  then have upd: "(t_queues one_polling)[0 := q] = [q]" for q
    by (metis list_update_code(2))
  have "threads_step H hm one_polling ?stored"
    using step_store [of 0 one_polling 0 36 0 H hm "plain_event 7"] by (simp add: shape upd)
  moreover have "writer_polled (fill_region 0 [plain_event 7] (t_queues one_polling ! 0)) 0 1
      = W_Mark 0 [plain_event 7]"
    by (simp add: writer_polled_def region_data_def fill_region_def one_polling_def one_writer_def
        threads_start_def new_queue_def SENSOR_EVENT_QUEUE_CAPACITY_def)
  then have "threads_step H hm ?stored ?polled"
    using step_polled [of 0 ?stored 0 36 1 H hm] by (simp add: shape)
  moreover have "threads_step H hm ?polled one_marked"
    using step_mark [of 0 ?polled 0 "[plain_event 7]" H hm] by (simp add: one_marked_def)
  ultimately show ?thesis
    using one_polling_reachable by (blast intro: reachable_step)
qed

lemma one_writer_waits:
  "\<exists>s. reachable threads_init (threads_step H hm) s \<and> t_poller s = P_Wait 1 [plain_event 0] False
     \<and> length (t_writers s) = 1"
proof -
  let ?v = "poll_start [plain_event 0] (t_nextReadIndex one_writer) (t_queues one_writer)"
  have "poll_scan H hm 1 ?v = Some (?v\<lparr>empties := 1\<rparr>)"
    by (simp add: poll_scan_def while_option_unfold poll_guard_def poll_body_def poll_start_def one_writer_def
        threads_start_def queue_peek_def new_queue_def smod_nonneg)
  then obtain t where t: "poller_scan H hm 1 [plain_event 0] one_writer = Some t"
    "t_poller t = P_Wait 1 [plain_event 0] False" "length (t_writers t) = 1"
    by (simp add: poller_scan_def poll_start_def one_writer_def threads_start_def)
  have "threads_step H hm one_writer t"
    using t(1) by (intro step_poll) (simp_all add: one_writer_def threads_start_def)
  moreover have "reachable threads_init (threads_step H hm) one_writer"
    by (rule reachable_init) (auto simp: threads_init_def one_writer_def)
  ultimately show ?thesis using t(2,3) by (blast intro: reachable_step)
qed

section \<open>Properties\<close>

text \<open>
  C8: end to end, in every interleaving of the writers, the sub-HALs and the framework's thread: there
  is one order in which records were taken such that what \<open>poll\<close> has returned so far is their
  translation without the events of unknown sensors, and what each sub-HAL wrote is, in order, what
  was taken from its queue followed by what the queue still holds. Nothing is lost, duplicated,
  reordered or overwritten.
\<close>

theorem events_delivered_in_order:
  assumes "reachable threads_init (threads_step H hm) s"
  shows "\<exists>log. returned s = delivered H hm log
    \<and> (\<forall>i < length (t_queues s). written s ! i = taken_from i log @ contents (t_queues s ! i))"
  using threads_invD(8) [OF hal_threads.reachable_inv [OF assms]] unfolding accounted_def by blast

theorem events_delivered_in_order_witness:
  "contents (t_queues one_marked ! 0) = [plain_event 7]"
proof -
  obtain log where log: "returned one_marked = delivered android_9 two_hals log"
    "\<forall>i < length (t_queues one_marked).
       written one_marked ! i = taken_from i log @ contents (t_queues one_marked ! i)"
    using events_delivered_in_order [OF one_marked_reachable, of android_9 two_hals] by blast
  have "length (contents (t_queues one_marked ! 0)) = 1" "length (t_queues one_marked) = 1"
    "written one_marked ! 0 = [plain_event 7]"
    by (simp_all add: one_marked_def writer_mark_def one_polling_def one_writer_def threads_start_def
        new_queue_def SENSOR_EVENT_QUEUE_CAPACITY_def markAsWritten_def s32_def)
  with log(2) show ?thesis by (cases "taken_from 0 log") (auto simp del: length_contents)
qed

text \<open>
  C12: no wake-up is lost. A writer that waits and has not been signalled waits on a queue that is
  full, and the reader that waits and has not been signalled waits while every queue is empty; so
  the reader and a writer never wait for each other without a signal on the way.
\<close>

theorem no_lost_wakeup:
  assumes "reachable threads_init (threads_step H hm) s" and "i < length (t_writers s)"
  shows "(t_writers s ! i = W_WaitSpace False \<longrightarrow> getSize (t_queues s ! i) = mCapacity (t_queues s ! i))
    \<and> (t_poller s = P_Wait maxReads buf False \<longrightarrow>
         getSize (t_queues s ! i) = 0 \<and> t_writers s ! i \<noteq> W_WaitSpace False)"
proof -
  note inv = threads_invD [OF hal_threads.reachable_inv [OF assms(1)]]
  have i: "i < length (t_queues s)" using assms(2) inv(1) by simp
  note q = queue_invD [OF inv(3) [OF i]]
  have full: "getSize (t_queues s ! i) = mCapacity (t_queues s ! i)"
    if "t_writers s ! i = W_WaitSpace False"
    using inv(4) [OF i] that by (simp add: getSize_def)
  have empty: "getSize (t_queues s ! i) = 0" if "t_poller s = P_Wait maxReads buf False"
    using inv(7) that i contents_empty_iff [OF inv(3) [OF i]] by (simp add: getSize_def)
  show ?thesis using full empty q(1) by auto
qed

theorem no_lost_wakeup_witness:
  "\<exists>s :: unit threads. reachable threads_init (threads_step android_9 two_hals) s
     \<and> t_poller s = P_Wait 1 [plain_event 0] False \<and> getSize (t_queues s ! 0) = 0
     \<and> t_writers s ! 0 \<noteq> W_WaitSpace False"
proof -
  from one_writer_waits obtain s where s: "reachable threads_init (threads_step android_9 two_hals) s"
    "t_poller s = P_Wait 1 [plain_event 0] False" "length (t_writers s) = 1"
    by blast
  with no_lost_wakeup [OF s(1), of 0 1 "[plain_event 0]"] show ?thesis by auto
qed

text \<open>
  C13: a region belongs to its writer. While a sub-HAL is inside \<open>poll()\<close>, its region lies inside the
  array and shares no slot with the readable records, whatever the reader does in the meantime, so
  its stores outside the mutex are never seen before they are marked.
\<close>

theorem region_is_private:
  assumes "reachable threads_init (threads_step H hm) s" and "i < length (t_writers s)"
    and "t_writers s ! i = W_Polling buffer bufferSize" and "0 \<le> k" and "k < bufferSize"
  shows "0 \<le> buffer + k \<and> buffer + k < int (length (mData (t_queues s ! i)))
    \<and> (\<forall>j < nat (getSize (t_queues s ! i)). int (slot (t_queues s ! i) j) \<noteq> buffer + k)
    \<and> contents (fill_region (buffer + k) [e] (t_queues s ! i)) = contents (t_queues s ! i)"
proof -
  note inv = threads_invD [OF hal_threads.reachable_inv [OF assms(1)]]
  have i: "i < length (t_queues s)" using assms(2) inv(1) by simp
  have ok: "region_ok (t_queues s ! i) buffer bufferSize" using inv(4) [OF i] assms(3) by simp
  note q = queue_invD [OF inv(3) [OF i]] and reg = region_okD [OF ok]
    and eb = queue_end_bounds [OF inv(3) [OF i]]
  have low: "0 \<le> buffer" using eb(1) reg(1) by simp
  have "buffer + k < int (length (mData (t_queues s ! i)))"
    using q reg(4) assms(5) by simp
  moreover have "int (slot (t_queues s ! i) j) \<noteq> buffer + k" if "j < nat (getSize (t_queues s ! i))" for j
    using region_disjoint [OF inv(3) [OF i] ok, of "nat (buffer + k)" j] that low assms(4,5)
    by (auto simp: getSize_def)
  ultimately show ?thesis
    using low assms(4) fill_region_store [OF inv(3) [OF i] ok assms(4,5)] by simp
qed

theorem region_is_private_witness:
  "contents (fill_region (0 + 35) [plain_event 7] (t_queues one_polling ! 0)) = contents (t_queues one_polling ! 0)"
proof -
  have "0 < length (t_writers one_polling)" "t_writers one_polling ! 0 = W_Polling 0 36"
    by (simp_all add: one_polling_def)
  from region_is_private [OF one_polling_reachable this, of 35 "plain_event 7"] show ?thesis by simp
qed

text \<open>
  C14: In every interleaving all values stay in their types: there is one writer for each queue, \<open>poll\<close> goes
  on at an index of the queues, the start and the size of a queue are positions of its array, no
  member leaves the range of \<open>int\<close>, and a writer only marks between one and as many events as its
  region has slots.
\<close>

theorem threads_well_formed:
  assumes "reachable threads_init (threads_step H hm) s" and "i < length (t_queues s)"
  shows "length (t_writers s) = length (t_queues s)
    \<and> 0 \<le> t_nextReadIndex s \<and> t_nextReadIndex s < int (length (t_queues s))
    \<and> (let q = t_queues s ! i in in_s32 (mStart q) \<and> in_s32 (mSize q) \<and> in_s32 (mCapacity q)
         \<and> 0 \<le> mStart q \<and> mStart q < mCapacity q \<and> 0 \<le> mSize q \<and> mSize q \<le> mCapacity q
         \<and> int (length (mData q)) = mCapacity q
         \<and> (t_writers s ! i = W_Mark buffer es \<longrightarrow> es \<noteq> [] \<and> mSize q + int (length es) \<le> mCapacity q))"
proof -
  note inv = threads_invD [OF hal_threads.reachable_inv [OF assms(1)]]
  have "0 < length (t_queues s)" using assms(2) by linarith
  note idx = inv(5) inv(6) [OF this]
  note q = queue_invD [OF inv(3) [OF assms(2)]]
  have "es \<noteq> [] \<and> mSize (t_queues s ! i) + int (length es) \<le> mCapacity (t_queues s ! i)"
    if "t_writers s ! i = W_Mark buffer es"
    using inv(4) [OF assms(2)] that region_okD [of "t_queues s ! i" buffer "int (length es)"]
    by (simp add: free_space_def)
  then show ?thesis
    using inv(1) idx q by (auto simp: Let_def in_s32_def)
qed

theorem threads_well_formed_witness:
  "mStart (t_queues one_marked ! 0) < mCapacity (t_queues one_marked ! 0)"
proof -
  have "0 < length (t_queues one_marked)"
    by (simp add: one_marked_def writer_mark_def)
  from threads_well_formed [OF one_marked_reachable this] show ?thesis by (simp add: Let_def)
qed

end
