(* ===== verification/Fair_Runs.thy ===== *)
theory Fair_Runs
  imports Mozart_Prelude
begin

text \<open>
  Infinite runs of a transition system, weak fairness of an action, and the rule by which the
  components with threads prove that something happens at last: a locale whose assumptions are checked
  step by step and whose conclusion holds of every fair run.
\<close>

text \<open>A run starts in a reachable state; in each moment the system takes a step or rests.\<close>

definition run_of :: "('s \<Rightarrow> bool) \<Rightarrow> ('s \<Rightarrow> 's \<Rightarrow> bool) \<Rightarrow> (nat \<Rightarrow> 's) \<Rightarrow> bool" where
  "run_of init step r \<longleftrightarrow> reachable init step (r 0)
     \<and> (\<forall>n. step (r n) (r (Suc n)) \<or> r (Suc n) = r n)"

text \<open>An action that stays possible from some moment on is taken at some later moment.\<close>

definition weakly_fair :: "('s \<Rightarrow> 's \<Rightarrow> bool) \<Rightarrow> (nat \<Rightarrow> 's) \<Rightarrow> bool" where
  "weakly_fair act r \<longleftrightarrow> (\<forall>m. (\<forall>n \<ge> m. \<exists>t. act (r n) t) \<longrightarrow> (\<exists>n \<ge> m. act (r n) (r (Suc n))))"

lemma run_of_reachable: "run_of init step r \<Longrightarrow> reachable init step (r n)"
proof (induction n)
  case 0
  then show ?case by (simp add: run_of_def)
next
  case (Suc n)
  then have "step (r n) (r (Suc n)) \<or> r (Suc n) = r n" by (simp add: run_of_def)
  with Suc show ?case by (auto intro: reachable_step)
qed

lemma run_of_mono: "run_of init step r \<Longrightarrow> (\<And>t. init t \<Longrightarrow> init' t) \<Longrightarrow> run_of init' step r"
  unfolding run_of_def by (blast intro: reachable_mono)

text \<open>
  While a condition \<open>C\<close> holds of the moments of the run and their successors, a property that such
  steps from reachable states keep stays.
\<close>

lemma run_of_keeps:
  assumes "run_of init step r" and "\<And>n. m \<le> n \<Longrightarrow> C (r n) (r (Suc n))"
    and keep: "\<And>s t. reachable init step s \<Longrightarrow> C s t \<Longrightarrow> step s t \<Longrightarrow> P s \<Longrightarrow> P t"
    and "P (r m)"
  shows "m \<le> n \<Longrightarrow> P (r n)"
proof (induction n rule: dec_induct)
  case base
  show ?case by (rule assms(4))
next
  case (step n)
  have "step (r n) (r (Suc n)) \<or> r (Suc n) = r n" using assms(1) by (simp add: run_of_def)
  with keep [OF run_of_reachable [OF assms(1)] assms(2) _ step.IH] step show ?case by auto
qed

text \<open>
  A part of a system: the view \<open>f\<close> of a run, from moment \<open>j\<close> on, is a run of the part, and it is fair to
  an action of the part when the run is fair to the same action of the whole.
\<close>

lemma run_of_project:
  assumes "run_of init step r" and "reachable init' step' (f (r j))"
    and "\<And>n. j \<le> n \<Longrightarrow> step (r n) (r (Suc n)) \<Longrightarrow> step' (f (r n)) (f (r (Suc n))) \<or> f (r (Suc n)) = f (r n)"
  shows "run_of init' step' (\<lambda>n. f (r (j + n)))"
  unfolding run_of_def
proof (intro conjI allI)
  fix n
  have "step (r (j + n)) (r (Suc (j + n))) \<or> r (Suc (j + n)) = r (j + n)"
    using assms(1) by (simp add: run_of_def)
  with assms(3) [of "j + n"] show "step' (f (r (j + n))) (f (r (j + Suc n))) \<or> f (r (j + Suc n)) = f (r (j + n))"
    by auto
qed (use assms(2) in simp)

lemma weakly_fair_project:
  assumes "weakly_fair act r" and "\<And>n t. j \<le> n \<Longrightarrow> act' (f (r n)) t \<Longrightarrow> \<exists>u. act (r n) u"
    and "\<And>n u. j \<le> n \<Longrightarrow> act (r n) u \<Longrightarrow> act' (f (r n)) (f u)"
  shows "weakly_fair act' (\<lambda>n. f (r (j + n)))"
  unfolding weakly_fair_def
proof (intro allI impI)
  fix m
  assume ready: "\<forall>n \<ge> m. \<exists>t. act' (f (r (j + n))) t"
  have "\<exists>u. act (r n) u" if n: "j + m \<le> n" for n
  proof -
    from n have "m \<le> n - j" "j + (n - j) = n" "j \<le> n" by simp_all
    with ready assms(2) show ?thesis by metis
  qed
  then obtain n where n: "j + m \<le> n" "act (r n) (r (Suc n))"
    using assms(1) unfolding weakly_fair_def by blast
  then have "act' (f (r (j + (n - j)))) (f (r (j + Suc (n - j))))"
    using assms(3) [of n] by simp
  with n(1) show "\<exists>n \<ge> m. act' (f (r (j + n))) (f (r (j + Suc n)))"
    by (intro exI [of _ "n - j"]) simp
qed

text \<open>
  The rule. While \<open>P\<close> holds no step increases \<open>rank\<close> nor loses \<open>P\<close>, except by reaching \<open>Q\<close>; the
  action is possible, and decreases the rank or reaches \<open>Q\<close>.
\<close>

locale fair_progress = inductive_invariant init step inv
  for init :: "'s \<Rightarrow> bool" and step :: "'s \<Rightarrow> 's \<Rightarrow> bool" and inv :: "'s \<Rightarrow> bool" +
  fixes act :: "'s \<Rightarrow> 's \<Rightarrow> bool" and P :: "'s \<Rightarrow> bool" and Q :: "'s \<Rightarrow> bool" and rank :: "'s \<Rightarrow> nat"
  assumes persists: "inv s \<Longrightarrow> P s \<Longrightarrow> step s t \<Longrightarrow> Q t \<or> P t \<and> rank t \<le> rank s"
    and achieves: "inv s \<Longrightarrow> P s \<Longrightarrow> act s t \<Longrightarrow> Q t \<or> P t \<and> rank t < rank s"
    and ready: "inv s \<Longrightarrow> P s \<Longrightarrow> Q s \<or> (\<exists>t. act s t)"
begin

lemma run_inv: "run_of init step r \<Longrightarrow> inv (r n)"
  by (rule reachable_inv [OF run_of_reachable])

text \<open>Until \<open>Q\<close> holds, \<open>P\<close> stays and the rank does not grow.\<close>

lemma stays:
  assumes "run_of init step r" and "P (r m)" and "\<forall>n \<ge> m. \<not> Q (r n)"
  shows "P (r (m + k)) \<and> rank (r (m + k)) \<le> rank (r m)"
proof (induction k)
  case 0
  then show ?case using assms(2) by simp
next
  case (Suc k)
  have "step (r (m + k)) (r (m + Suc k)) \<or> r (m + Suc k) = r (m + k)"
    using assms(1) by (simp add: run_of_def)
  moreover have "\<not> Q (r (m + Suc k))" using assms(3) by simp
  ultimately show ?case
    using Suc persists [OF run_inv [OF assms(1), of "m + k"], of "r (m + Suc k)"] by fastforce
qed

lemma leads_to:
  assumes "run_of init step r" and "weakly_fair act r"
  shows "P (r m) \<Longrightarrow> \<exists>n \<ge> m. Q (r n)"
proof (induction "rank (r m)" arbitrary: m rule: less_induct)
  case less
  show ?case
  proof (rule ccontr)
    assume "\<not> (\<exists>n \<ge> m. Q (r n))"
    then have never: "\<forall>n \<ge> m. \<not> Q (r n)" by blast
    have stay: "P (r n) \<and> rank (r n) \<le> rank (r m)" if "m \<le> n" for n
      using stays [OF assms(1) less.prems never, of "n - m"] that by simp
    have "\<forall>n \<ge> m. \<exists>t. act (r n) t"
      using ready [OF run_inv [OF assms(1)]] stay never by blast
    then obtain n where n: "m \<le> n" "act (r n) (r (Suc n))"
      using assms(2) unfolding weakly_fair_def by blast
    with achieves [OF run_inv [OF assms(1)], of n] stay never
    have "P (r (Suc n))" "rank (r (Suc n)) < rank (r n)" using le_SucI by blast+
    then have "\<exists>k \<ge> Suc n. Q (r k)" using less.hyps [of "Suc n"] stay [OF n(1)] by simp
    with never n(1) show False by (metis Suc_leD le_trans)
  qed
qed

end

text \<open>A scheduler that always takes the action when it can gives fair runs, for the witnesses.\<close>

definition scheduled :: "('s \<Rightarrow> 's) \<Rightarrow> 's \<Rightarrow> nat \<Rightarrow> 's" where
  "scheduled nxt s n = (nxt ^^ n) s"

lemma scheduled_Suc [simp]: "scheduled nxt s (Suc n) = nxt (scheduled nxt s n)"
  by (simp add: scheduled_def)

lemma scheduled_0 [simp]: "scheduled nxt s 0 = s"
  by (simp add: scheduled_def)

lemma scheduled_run:
  assumes "reachable init step s" and "\<And>t. reachable init step t \<Longrightarrow> step t (nxt t) \<or> nxt t = t"
  shows "run_of init step (scheduled nxt s)"
proof -
  have "reachable init step (scheduled nxt s n)" for n
  proof (induction n)
    case 0
    then show ?case using assms(1) by simp
  next
    case (Suc n)
    with assms(2) [OF Suc] show ?case by (auto intro: reachable_step)
  qed
  with assms show ?thesis by (auto simp: run_of_def)
qed

lemma scheduled_fair:
  assumes "\<And>n u. act (scheduled nxt s n) u \<Longrightarrow> act (scheduled nxt s n) (nxt (scheduled nxt s n))"
  shows "weakly_fair act (scheduled nxt s)"
  unfolding weakly_fair_def
proof (intro allI impI)
  fix m
  assume "\<forall>n \<ge> m. \<exists>t. act (scheduled nxt s n) t"
  then obtain t where "act (scheduled nxt s m) t" by blast
  then have "act (scheduled nxt s m) (scheduled nxt s (Suc m))" by (simp add: assms)
  then show "\<exists>n \<ge> m. act (scheduled nxt s n) (scheduled nxt s (Suc n))" by blast
qed

end
