(* ===== verification/Sensor_Liveness.thy ===== *)
theory Sensor_Liveness
  imports Sensor_Threads Fair_Runs "HOL-Library.Sublist"
begin

text \<open>
  No sub-HAL is starved: because \<open>poll\<close> of \<open>sensors/multihal.cpp\<close> goes on with the queue after the
  last one it visited, every event is returned at last, however many events the other sub-HALs
  produce and however small the buffer of the framework is.
\<close>

section \<open>The distance of a record from the reader\<close>

text \<open>
  The number of turns of the loop until queue \<open>i\<close> is down to \<open>r\<close> records, if no record is added to it:
  a round over all queues for each record above \<open>r\<close>, and the way from the current queue to queue \<open>i\<close>.
\<close>

definition turns_left :: "nat \<Rightarrow> nat \<Rightarrow> nat \<Rightarrow> int \<Rightarrow> nat \<Rightarrow> nat" where
  "turns_left i r n nxt len = (len - r) * n + nat ((int i - nxt) mod int n)"

lemma mod_window: "- n \<le> a \<Longrightarrow> a < n \<Longrightarrow> a mod n = (if 0 \<le> a then a else a + (n :: int))"
  using mod_pos_pos_trivial [of "a + n" n] by simp

lemma next_turn:
  assumes "0 \<le> nxt" and "nxt < int n" and "i < n"
  shows "nat ((int i - (nxt + 1) mod int n) mod int n)
    = (if int i = nxt then n - 1 else nat ((int i - nxt) mod int n) - 1)"
    and "int i \<noteq> nxt \<Longrightarrow> 0 < nat ((int i - nxt) mod int n)"
proof -
  have prior: "(int i - (nxt + 1) mod int n) mod int n = ((int i - nxt) - 1) mod int n"
    by (simp add: mod_diff_right_eq algebra_simps)
  have shape: "(int i - nxt) mod int n = (if nxt \<le> int i then int i - nxt else int i - nxt + int n)"
    using assms by (subst mod_window) auto
  show "int i \<noteq> nxt \<Longrightarrow> 0 < nat ((int i - nxt) mod int n)"
    using assms by (simp add: shape)
  have prev: "((int i - nxt) - 1) mod int n = (if nxt < int i then int i - nxt - 1 else int i - nxt - 1 + int n)"
    using assms by (subst mod_window) auto
  show "nat ((int i - (nxt + 1) mod int n) mod int n)
      = (if int i = nxt then n - 1 else nat ((int i - nxt) mod int n) - 1)"
    unfolding prior prev shape using assms by auto
qed

lemma turn_rank:
  assumes "0 \<le> nxt" and "nxt < int n" and "i < n" and "r < len"
  shows "turns_left i r n ((nxt + 1) mod int n) (if int i = nxt then len - 1 else len)
    < turns_left i r n nxt len"
proof (cases "int i = nxt")
  case True
  have "(len - r) * n = (len - 1 - r) * n + n"
    using assms(4) by (metis Suc_diff_Suc Suc_eq_plus1 diff_Suc_1 diff_commute mult_Suc add.commute)
  with True assms next_turn(1) [OF assms(1-3)] show ?thesis by (simp add: turns_left_def)
next
  case False
  with next_turn [OF assms(1-3)] show ?thesis by (simp add: turns_left_def)
qed

section \<open>A scan brings the reader nearer\<close>

lemma poll_body_turn:
  assumes "scan_inv H hm maxReads qs0 buflen log v" and "poll_guard (int (length qs0)) maxReads v"
  shows "nextReadIndex (poll_body H hm (int (length qs0)) v) = (nextReadIndex v + 1) mod int (length qs0)"
    and "i < length qs0 \<Longrightarrow> contents (queues (poll_body H hm (int (length qs0)) v) ! i)
      = (if int i = nextReadIndex v then tl (contents (queues v ! i)) else contents (queues v ! i))"
proof -
  note inv = scan_invD [OF assms(1)]
  have "empties v < int (length qs0)" using assms(2) by (simp add: poll_guard_def)
  with inv(6) have Q: "0 < length qs0" by linarith
  note idx = inv(4) inv(5) [OF Q]
  define j where "j = nat (nextReadIndex v)"
  have j: "j < length qs0" "int j = nextReadIndex v" using idx by (simp_all add: j_def nat_less_iff)
  note peek = queue_peek_contents [OF inv(11) [OF j(1)]] and deq = dequeue_contents [OF inv(11) [OF j(1)]]
  have "nextReadIndex (poll_body H hm (int (length qs0)) v) = (nextReadIndex v + 1) mod int (length qs0)
    \<and> (i < length qs0 \<longrightarrow> contents (queues (poll_body H hm (int (length qs0)) v) ! i)
      = (if int i = nextReadIndex v then tl (contents (queues v ! i)) else contents (queues v ! i)))"
  proof (cases "contents (queues v ! j)")
    case Nil
    moreover have "int i = nextReadIndex v \<longleftrightarrow> i = j" using j(2) by linarith
    ultimately show ?thesis
      using peek idx Q j by (auto simp: poll_body_def inv(2) Let_def j_def [symmetric] smod_nonneg)
  next
    case (Cons e es)
    moreover have "int i = nextReadIndex v \<longleftrightarrow> i = j" using j(2) by linarith
    ultimately show ?thesis
      using peek deq idx Q j by (auto simp: poll_body_def inv(2) Let_def j_def [symmetric] smod_nonneg case_prod_beta nth_list_update)
  qed
  then show "nextReadIndex (poll_body H hm (int (length qs0)) v) = (nextReadIndex v + 1) mod int (length qs0)"
    "i < length qs0 \<Longrightarrow> contents (queues (poll_body H hm (int (length qs0)) v) ! i)
      = (if int i = nextReadIndex v then tl (contents (queues v ! i)) else contents (queues v ! i))"
    by blast+
qed

definition scan_turns :: "nat \<Rightarrow> nat \<Rightarrow> 'p poll_vars \<Rightarrow> nat" where
  "scan_turns i r v = turns_left i r (length (queues v)) (nextReadIndex v) (length (contents (queues v ! i)))"

lemma poll_body_turns:
  assumes "scan_inv H hm maxReads qs0 buflen log v" and "poll_guard (int (length qs0)) maxReads v"
    and "i < length qs0" and "r < length (contents (queues v ! i))"
  shows "scan_turns i r (poll_body H hm (int (length qs0)) v) < scan_turns i r v"
proof -
  note inv = scan_invD [OF assms(1)]
  have Q: "0 < length qs0" using assms(3) by linarith
  note body = poll_body_turn [OF assms(1,2)]
  have len: "length (queues (poll_body H hm (int (length qs0)) v)) = length qs0"
    using inv(2) by (auto simp: poll_body_def Let_def case_prod_beta split: option.split)
  have "length (contents (queues (poll_body H hm (int (length qs0)) v) ! i))
      = (if int i = nextReadIndex v then length (contents (queues v ! i)) - 1 else length (contents (queues v ! i)))"
    using body(2) [OF assms(3)] by (auto simp del: length_contents)
  then show ?thesis
    using turn_rank [OF inv(4) inv(5) [OF Q] assms(3,4)]
    by (simp only: scan_turns_def body(1) len inv(2))
qed

lemma poll_scan_turns:
  assumes ready: "scan_ready maxReads v" "0 < maxReads" and i: "i < length (queues v)"
    and more: "r < length (contents (queues v ! i))" and run: "poll_scan H hm maxReads v = Some v'"
  shows "length (contents (queues v' ! i)) \<le> r \<or> scan_turns i r v' < scan_turns i r v"
proof -
  let ?Q = "int (length (queues v))"
  let ?G = "poll_guard ?Q maxReads" and ?B = "poll_body H hm ?Q" and ?v = "v\<lparr>empties := 0\<rparr>"
  let ?I = "\<lambda>t. \<exists>log. scan_inv H hm maxReads (queues v) (length (data v)) log t"
  let ?P = "\<lambda>t. ?I t \<and> (length (contents (queues t ! i)) \<le> r \<or> scan_turns i r t < scan_turns i r v)"
  have buf: "maxReads \<le> int (length (data v))" using ready(1) by (simp add: scan_ready_def)
  have start: "?I ?v" using scan_inv_start [OF ready(1)] by blast
  have guard: "?G ?v" using ready i by (auto simp: poll_guard_def scan_ready_def)
  have turn: "?I (?B t) \<and> (length (contents (queues (?B t) ! i)) \<le> r \<or> scan_turns i r (?B t) < scan_turns i r t)"
    if I: "?I t" and G: "?G t" for t
  proof (cases "r < length (contents (queues t ! i))")
    case True
    with I G poll_body_inv [OF I G buf] i poll_body_turns show ?thesis by blast
  next
    case False
    obtain log where "scan_inv H hm maxReads (queues v) (length (data v)) log t" using I by blast
    from poll_body_turn(2) [OF this G i] False
    have "length (contents (queues (?B t) ! i)) \<le> r" by (auto simp del: length_contents)
    with poll_body_inv [OF I G buf] show ?thesis by blast
  qed
  have "scan_turns i r ?v = scan_turns i r v" by (simp add: scan_turns_def)
  with turn [OF start guard] have first: "?P (?B ?v)" by simp
  have keep: "?P (?B t)" if P: "?P t" and G: "?G t" for t
  proof -
    have "?I (?B t)" using turn [of t] P G by blast
    obtain log where log: "scan_inv H hm maxReads (queues v) (length (data v)) log t"
      using P by blast
    have "length (contents (queues (?B t) ! i)) \<le> r" if "length (contents (queues t ! i)) \<le> r"
      using poll_body_turn(2) [OF log G i] that by (auto simp del: length_contents)
    with \<open>?I (?B t)\<close> show ?thesis using turn [of t] P G by (meson order.strict_trans)
  qed
  have "while_option ?G ?B (?B ?v) = Some v'"
    using run guard by (simp add: poll_scan_def while_option_unfold [of _ _ ?v])
  from while_option_rule [where P = ?P, OF keep this first] show ?thesis by blast
qed

section \<open>The steps the reader can be relied on to take\<close>

text \<open>
  The framework calls \<open>poll\<close> again after each return, with room for at least one event, and a wait ends
  when it was signalled. Nothing relies on spurious wake-ups.
\<close>

inductive reader_progress :: "sensors_h \<Rightarrow> handle_maps \<Rightarrow> 'p threads \<Rightarrow> 'p threads \<Rightarrow> bool"
  for H :: sensors_h and hm :: handle_maps where
  progress_poll: "t_poller s = P_Idle \<Longrightarrow> 0 < maxReads \<Longrightarrow> maxReads \<le> int (length buf) \<Longrightarrow>
    poller_scan H hm maxReads buf s = Some t \<Longrightarrow> reader_progress H hm s t"
| progress_data: "t_poller s = P_Wait maxReads buf True \<Longrightarrow>
    poller_scan H hm maxReads buf s = Some t \<Longrightarrow> reader_progress H hm s t"

lemma reader_progress_step: "reader_progress H hm s t \<Longrightarrow> threads_step H hm s t"
  by (induction rule: reader_progress.induct) (auto intro: step_poll step_data)

text \<open>The number of records of queue \<open>i\<close> the reader has taken so far.\<close>

definition taken_count :: "nat \<Rightarrow> 'p threads \<Rightarrow> nat" where
  "taken_count i s = length (written s ! i) - length (contents (t_queues s ! i))"

definition behind :: "nat \<Rightarrow> nat \<Rightarrow> 'p threads \<Rightarrow> bool" where
  "behind i w s \<longleftrightarrow> i < length (t_queues s) \<and> w \<le> length (written s ! i) \<and> taken_count i s < w"

text \<open>The turns until \<open>w\<close> records of queue \<open>i\<close> have been taken.\<close>

definition reader_rank :: "nat \<Rightarrow> nat \<Rightarrow> 'p threads \<Rightarrow> nat" where
  "reader_rank i w s = turns_left i (length (written s ! i) - w) (length (t_queues s)) (t_nextReadIndex s)
     (length (contents (t_queues s ! i)))"

lemma threads_contents_le:
  assumes "threads_inv H hm s" and "i < length (t_queues s)"
  shows "length (contents (t_queues s ! i)) \<le> length (written s ! i)"
  using threads_invD(8) [OF assms(1)] assms(2) unfolding accounted_def by fastforce

text \<open>Every section of the reader under the mutex brings it nearer.\<close>

lemma poller_scan_behind:
  assumes inv: "threads_inv H hm s" and b: "behind i w s"
    and room: "0 < maxReads" "maxReads \<le> int (length buf)" and run: "poller_scan H hm maxReads buf s = Some t"
  shows "w \<le> taken_count i t \<or> behind i w t \<and> reader_rank i w t < reader_rank i w s"
proof -
  let ?v = "poll_start buf (t_nextReadIndex s) (t_queues s)"
  let ?r = "length (written s ! i) - w"
  have i: "i < length (queues ?v)" and more: "?r < length (contents (queues ?v ! i))"
    using b threads_contents_le [OF inv, of i]
    by (auto simp: behind_def taken_count_def poll_start_def simp del: length_contents)
  note ready = poller_ready [OF inv room(2)]
  obtain v where v: "poll_scan H hm maxReads ?v = Some v"
    "t_queues t = queues v" "t_nextReadIndex t = nextReadIndex v" "written t = written s"
    using run by (auto simp: poller_scan_def)
  have len: "length (queues v) = length (t_queues s)"
    using poll_scan_effect [OF v(1)] by (simp add: scan_effect_def poll_start_def)
  have "length (contents (queues v ! i)) \<le> ?r \<or> scan_turns i ?r v < scan_turns i ?r ?v"
    using poll_scan_turns [OF ready room(1) i more v(1)] .
  moreover have "scan_turns i ?r v = reader_rank i w t" "scan_turns i ?r ?v = reader_rank i w s"
    by (simp_all add: scan_turns_def reader_rank_def v len poll_start_def)
  ultimately show ?thesis
    using b len by (auto simp: behind_def taken_count_def v simp del: length_contents)
qed

text \<open>The steps of writers and sub-HALs append to what was written and to what is waiting.\<close>

definition writers_extend :: "'p threads \<Rightarrow> 'p threads \<Rightarrow> bool" where
  "writers_extend s t \<longleftrightarrow> length (t_queues t) = length (t_queues s) \<and> t_nextReadIndex t = t_nextReadIndex s
     \<and> (\<forall>i < length (t_queues s). \<exists>es. written t ! i = written s ! i @ es
          \<and> contents (t_queues t ! i) = contents (t_queues s ! i) @ es)"

lemma writers_extend_pc: "writers_extend s (s\<lparr>t_writers := ws\<rparr>)"
  by (simp add: writers_extend_def)

lemma writers_extend_store:
  assumes "threads_inv H hm s" and i: "i < length (t_writers s)" and "t_writers s ! i = W_Polling f n"
    and "0 \<le> k" and "k < n"
  shows "writers_extend s (s\<lparr>t_queues := (t_queues s)[i := fill_region (f + k) [e] (t_queues s ! i)]\<rparr>)"
proof -
  note inv = threads_invD [OF assms(1)]
  have i: "i < length (t_queues s)" using assms(2) inv(1) by simp
  then have "region_ok (t_queues s ! i) f n" using inv(4) [OF i] assms(3) by simp
  from fill_region_store [OF inv(3) [OF i] this assms(4,5)] show ?thesis
    using i by (auto simp: writers_extend_def nth_list_update)
qed

lemma writers_extend_mark:
  assumes "threads_inv H hm s" and "i < length (t_writers s)" and "t_writers s ! i = W_Mark f es"
  shows "writers_extend s (writer_mark i es s)"
proof -
  note inv = threads_invD [OF assms(1)]
  have i: "i < length (t_queues s)" "i < length (written s)" using assms(2) inv(1,2) by simp_all
  have "writer_ok (t_queues s ! i) (W_Mark f es)" using inv(4) [OF i(1)] assms(3) by simp
  from mark_region(2) [OF inv(3) [OF i(1)] this] show ?thesis
    using i by (auto simp: writers_extend_def writer_mark_def nth_list_update)
qed

lemma behind_extend:
  assumes "writers_extend s t" and "behind i w s"
  shows "behind i w t \<and> reader_rank i w t = reader_rank i w s"
proof -
  have i: "i < length (t_queues s)" and w: "w \<le> length (written s ! i)" using assms(2) by (auto simp: behind_def)
  then obtain es where "written t ! i = written s ! i @ es"
    "contents (t_queues t ! i) = contents (t_queues s ! i) @ es"
    using assms(1) unfolding writers_extend_def by blast
  with assms w show ?thesis
    by (simp add: behind_def taken_count_def reader_rank_def turns_left_def writers_extend_def del: length_contents)
qed

text \<open>A step is one of a writer or a section of the reader.\<close>

lemma threads_step_cases:
  assumes "threads_inv H hm s" and "threads_step H hm s t"
  obtains "writers_extend s t"
  | maxReads buf where "0 < maxReads" "maxReads \<le> int (length buf)" "poller_scan H hm maxReads buf s = Some t"
  using assms(2)
proof cases
  case (step_data maxReads buf sig)
  with threads_invD(7) [OF assms(1)] that(2) show thesis by auto
next
  case (step_store i f n k e)
  with writers_extend_store [OF assms(1)] that(1) show thesis by simp
next
  case (step_mark i f es)
  with writers_extend_mark [OF assms(1)] that(1) show thesis by simp
qed (use that writers_extend_pc in blast)+

lemma behind_persists:
  assumes "threads_inv H hm s" and "behind i w s" and "threads_step H hm s t"
  shows "w \<le> taken_count i t \<or> behind i w t \<and> reader_rank i w t \<le> reader_rank i w s"
  using assms(1,3)
proof (cases rule: threads_step_cases)
  case 1
  with behind_extend [OF this assms(2)] show ?thesis by simp
next
  case (2 maxReads buf)
  with poller_scan_behind [OF assms(1,2)] show ?thesis by (meson less_imp_le)
qed

lemma behind_achieves:
  assumes "threads_inv H hm s" and "behind i w s" and "reader_progress H hm s t"
  shows "w \<le> taken_count i t \<or> behind i w t \<and> reader_rank i w t < reader_rank i w s"
  using assms(3)
proof cases
  case (progress_poll maxReads buf)
  with poller_scan_behind [OF assms(1,2)] show ?thesis by blast
next
  case (progress_data maxReads buf)
  with poller_scan_behind [OF assms(1,2)] threads_invD(7) [OF assms(1)] show ?thesis by auto
qed

lemma poller_scan_total:
  assumes "threads_inv H hm s" and "maxReads \<le> int (length buf)"
  shows "\<exists>t. poller_scan H hm maxReads buf s = Some t"
proof -
  obtain v where "poll_scan H hm maxReads (poll_start buf (t_nextReadIndex s) (t_queues s)) = Some v"
    using poll_scan_correct [OF poller_ready [OF assms], where H = H and hm = hm] by blast
  then show ?thesis by (simp add: poller_scan_def)
qed

text \<open>While records are waiting the reader can go on: if it waits at all, it has been signalled.\<close>

lemma behind_ready:
  assumes "threads_inv H hm s" and "behind i w s"
  shows "\<exists>t. reader_progress H hm s t"
proof (cases "t_poller s")
  case P_Idle
  obtain t where "poller_scan H hm 1 [undefined] s = Some t"
    using poller_scan_total [OF assms(1), of 1 "[undefined]"] by auto
  with P_Idle show ?thesis using progress_poll [of s 1 "[undefined]" H hm t] by auto
next
  case (P_Wait maxReads buf sig)
  have "contents (t_queues s ! i) \<noteq> []" "i < length (t_queues s)"
    using assms(2) by (auto simp: behind_def taken_count_def simp del: length_contents)
  then have sig and room: "maxReads \<le> int (length buf)"
    using threads_invD(7) [OF assms(1)] P_Wait by auto
  with poller_scan_total [OF assms(1) room] P_Wait show ?thesis
    using progress_data [of s maxReads buf H hm] by auto
qed

interpretation reader_fair: fair_progress threads_init "threads_step H hm" "threads_inv H hm"
  "reader_progress H hm" "behind i w" "\<lambda>s. w \<le> taken_count i s" "reader_rank i w"
  for H hm i w
proof (unfold_locales, goal_cases)
  case (1 s t)
  then show ?case by (rule behind_persists)
next
  case (2 s t)
  then show ?case by (rule behind_achieves)
next
  case (3 s)
  then show ?case using behind_ready by blast
qed

section \<open>From taken to returned\<close>

lemma step_written:
  assumes "threads_inv H hm s" and "threads_step H hm s t" and "i < length (t_queues s)"
  shows "i < length (t_queues t) \<and> prefix (written s ! i) (written t ! i)"
  using assms(1,2)
proof (cases rule: threads_step_cases)
  case 1
  with assms(3) show ?thesis unfolding writers_extend_def by fastforce
next
  case (2 maxReads buf)
  then obtain v where v: "poll_scan H hm maxReads (poll_start buf (t_nextReadIndex s) (t_queues s)) = Some v"
    "t_queues t = queues v" "written t = written s"
    by (auto simp: poller_scan_def)
  with poll_scan_effect [OF v(1)] assms(3) show ?thesis by (simp add: scan_effect_def poll_start_def)
qed

lemma run_written:
  assumes "run_of threads_init (threads_step H hm) r" and "i < length (t_queues (r m))" and "m \<le> n"
  shows "i < length (t_queues (r n)) \<and> prefix (written (r m) ! i) (written (r n) ! i)"
proof (rule run_of_keeps [OF assms(1), where C = "\<lambda>_ _. True", OF TrueI _ _ assms(3)])
  fix s t
  assume "reachable threads_init (threads_step H hm) s" and "threads_step H hm s t"
    and "i < length (t_queues s) \<and> prefix (written (r m) ! i) (written s ! i)"
  with step_written [OF hal_threads.reachable_inv] show "i < length (t_queues t) \<and> prefix (written (r m) ! i) (written t ! i)"
    using prefix_order.trans by blast
qed (use assms(2) in simp)

lemma taken_from_pairs: "map (Pair i) (taken_from i log) = filter (\<lambda>x. fst x = i) log"
  by (induction log) (auto simp: taken_from_def)

lemma taken_delivered:
  assumes "threads_inv H hm s" and "i < length (t_queues s)"
    and "prefix ws (written s ! i)" and "length ws \<le> taken_count i s"
  shows "subseq (delivered H hm (map (Pair i) ws)) (returned s)"
proof -
  obtain log where log: "returned s = delivered H hm log"
    "written s ! i = taken_from i log @ contents (t_queues s ! i)"
    using threads_invD(8) [OF assms(1)] assms(2) unfolding accounted_def by blast
  then have "prefix ws (taken_from i log)"
    using assms(3,4) by (auto simp: taken_count_def prefix_def append_eq_append_conv2 simp del: length_contents)
  then have "subseq (map (Pair i) ws) (map (Pair i) (taken_from i log))"
    by (intro subseq_map prefix_imp_subseq)
  then have "subseq (map (Pair i) ws) log"
    unfolding taken_from_pairs by (meson subseq_filter_left subseq_order.trans)
  then show ?thesis
    unfolding log(1) delivered_def by (intro subseq_filter subseq_map)
qed

lemma written_returned:
  assumes "run_of threads_init (threads_step H hm) r" and "weakly_fair (reader_progress H hm) r"
    and "i < length (t_queues (r m))"
  shows "\<exists>n \<ge> m. subseq (delivered H hm (map (Pair i) (written (r m) ! i))) (returned (r n))"
proof -
  let ?w = "length (written (r m) ! i)"
  have "\<exists>n \<ge> m. ?w \<le> taken_count i (r n)"
  proof (cases "behind i ?w (r m)")
    case True
    then show ?thesis by (rule reader_fair.leads_to [OF assms(1,2)])
  next
    case False
    with assms(3) show ?thesis by (auto simp: behind_def)
  qed
  then obtain n where n: "m \<le> n" "?w \<le> taken_count i (r n)" by blast
  from run_written [OF assms(1,3) n(1)] taken_delivered [OF reader_fair.run_inv [OF assms(1)] _ _ n(2)] n(1)
  show ?thesis by blast
qed

text \<open>A framework that polls for one event at a time, for the witness.\<close>

definition reader_next :: "sensors_h \<Rightarrow> handle_maps \<Rightarrow> unit threads \<Rightarrow> unit threads" where
  "reader_next H hm s = (case t_poller s of
       P_Idle \<Rightarrow> (case poller_scan H hm 1 [plain_event 0] s of Some t \<Rightarrow> t | None \<Rightarrow> s)
     | P_Wait maxReads buf sig \<Rightarrow>
         if sig then (case poller_scan H hm maxReads buf s of Some t \<Rightarrow> t | None \<Rightarrow> s) else s)"

lemma reader_next_progress: "reader_progress H hm s (reader_next H hm s) \<or> reader_next H hm s = s"
  by (auto simp: reader_next_def intro: progress_data progress_poll [of s 1 "[plain_event 0]"]
      split: poller_pc.split option.split)

lemma reader_next_taken:
  assumes "threads_inv H hm s" and "reader_progress H hm s t"
  shows "reader_progress H hm s (reader_next H hm s)"
  using assms(2)
proof cases
  case (progress_poll maxReads buf)
  obtain u where "poller_scan H hm 1 [plain_event 0] s = Some u"
    using poller_scan_total [OF assms(1), of 1 "[plain_event 0]"] by auto
  with progress_poll(1) show ?thesis
    by (auto simp: reader_next_def intro: reader_progress.progress_poll [of s 1 "[plain_event 0]"])
next
  case (progress_data maxReads buf)
  then show ?thesis by (auto simp: reader_next_def intro: reader_progress.progress_data)
qed

lemma reader_alone:
  assumes "reachable init (threads_step H hm) s" and "\<And>t. init t \<Longrightarrow> threads_init t"
  shows "run_of init (threads_step H hm) (scheduled (reader_next H hm) s)"
    and "weakly_fair (reader_progress H hm) (scheduled (reader_next H hm) s)"
proof -
  show run: "run_of init (threads_step H hm) (scheduled (reader_next H hm) s)"
    using reader_next_progress reader_progress_step by (blast intro: scheduled_run [OF assms(1)])
  have "run_of threads_init (threads_step H hm) (scheduled (reader_next H hm) s)"
    using run_of_mono [OF run] assms(2) by blast
  then show "weakly_fair (reader_progress H hm) (scheduled (reader_next H hm) s)"
    by (intro scheduled_fair) (rule reader_next_taken [OF reader_fair.run_inv])
qed

section \<open>Property\<close>

text \<open>
  No event starves. In every run in which the reader is scheduled weakly fairly, whatever the writers
  and the sub-HALs do, the events a sub-HAL has written by any moment have all been returned by some
  later moment: their translations, without those of unknown sensors, are a subsequence of what \<open>poll\<close>
  has returned, in the order in which they were written.
\<close>

theorem events_not_starved:
  assumes "run_of threads_init (threads_step H hm) r" and "weakly_fair (reader_progress H hm) r"
    and "i < length (t_queues (r m))"
  shows "\<exists>n \<ge> m. subseq (delivered H hm (map (Pair i) (written (r m) ! i))) (returned (r n))"
  by (rule written_returned [OF assms])

theorem events_not_starved_witness:
  "\<exists>(r :: nat \<Rightarrow> unit threads) n. returned (r 0) = [] \<and> subseq [(plain_event 7)\<lparr>ev_sensor := 1\<rparr>] (returned (r n))"
proof -
  define hm where "hm = snd (register_full (FullHandle 0 7) initial_handles)"
  have "0 < length (t_queues one_marked)" "written one_marked ! 0 = [plain_event 7]"
    "returned one_marked = []"
    by (simp_all add: one_marked_def writer_mark_def one_polling_def one_writer_def threads_start_def)
  moreover have "delivered android_9 hm (map (Pair 0) [plain_event 7]) = [(plain_event 7)\<lparr>ev_sensor := 1\<rparr>]"
    by (simp add: delivered_def copy_event_remap_handle_def plain_event_def android_9_def get_global_handle_def
        hm_def register_full_def assign_global_handle_def initial_handles_def s32_def Let_def)
  ultimately show ?thesis
    using events_not_starved [OF reader_alone [OF one_marked_reachable, of android_9 hm], of 0 0]
    by (intro exI [of _ "scheduled (reader_next android_9 hm) one_marked"]) auto
qed

end
