(* ===== verification/Sensor_Stack.thy ===== *)
theory Sensor_Stack
  imports Sensor_Init Sensor_Liveness
begin

text \<open>
  The parts of the multi-HAL put together: the threads that \<open>open_sensors\<close> starts, running
  with the handle tables that the first request of the sensor list has filled in. Until then
  \<open>queue_mutex\<close> is locked, so the threads have done nothing when the tables are complete. The last sections follow the
  requests and the events from the configuration on.
\<close>

definition stack_threads :: "('p, 'i) hal_process \<Rightarrow> 'p threads" where
  "stack_threads st =
     \<lparr>t_queues = ctx_queues st, t_writers = replicate (length (ctx_queues st)) W_Start, t_poller = P_Idle,
      t_nextReadIndex = 0, waiting_for_data = False,
      written = replicate (length (ctx_queues st)) [], returned = []\<rparr>"

abbreviation stack_step :: "sensors_h \<Rightarrow> ('p, 'i) hal_process \<Rightarrow> 'p threads \<Rightarrow> 'p threads \<Rightarrow> bool" where
  "stack_step H st \<equiv> threads_step H (hm (mh st))"

abbreviation stack_start :: "('p, 'i) hal_process \<Rightarrow> 'p threads \<Rightarrow> bool" where
  "stack_start st s \<equiv> s = stack_threads st"

lemma stack_threads_init:
  assumes "listed_for E H junk ms l st"
  shows "threads_init (stack_threads st)" "length (t_queues (stack_threads st)) = length ms"
proof -
  note listed_queues [OF assms]
  then show "threads_init (stack_threads st)" "length (t_queues (stack_threads st)) = length ms"
    by (auto simp: stack_threads_def threads_init_def threads_start_def)
qed

section \<open>Where an event comes from\<close>

lemma returned_written:
  assumes "threads_inv H hs s" and "e \<in> set (returned s)"
  obtains i e0 where "e = copy_event_remap_handle H hs e0 (int i)" "ev_sensor e \<noteq> -1"
    "i < length (t_queues s)" "e0 \<in> set (written s ! i)"
proof -
  obtain log where log: "returned s = delivered H hs log" "\<forall>x \<in> set log. fst x < length (t_queues s)"
    "\<forall>i < length (t_queues s). written s ! i = taken_from i log @ contents (t_queues s ! i)"
    using threads_invD(8) [OF assms(1)] unfolding accounted_def by blast
  from assms(2) obtain i e0 where e: "(i, e0) \<in> set log" "e = copy_event_remap_handle H hs e0 (int i)"
    "ev_sensor e \<noteq> -1"
    unfolding log(1) by (auto simp: delivered_def)
  then have "e0 \<in> set (taken_from i log)" by (force simp: taken_from_def)
  moreover have "i < length (t_queues s)" using log(2) e(1) by fastforce
  ultimately show thesis using that [OF e(2,3)] log(3) by simp
qed

lemma remap_event:
  assumes "ev_type e0 \<noteq> SENSOR_TYPE_META_DATA H"
  shows "copy_event_remap_handle H hs e0 k = e0\<lparr>ev_sensor := get_global_handle hs (FullHandle k (ev_sensor e0))\<rparr>"
  using assms by (simp add: copy_event_remap_handle_def)

lemma remap_type: "ev_type (copy_event_remap_handle H hs e0 k) = ev_type e0"
  by (simp add: copy_event_remap_handle_def)

text \<open>An event of the framework is the event of a listed sensor, written by that sensor's sub-HAL.\<close>

lemma stack_returned_origin:
  assumes ok: "hals_ok E ms" and listed: "listed_for E H junk ms l st"
    and reach: "reachable (stack_start st) (stack_step H st) s"
    and e: "e \<in> set (returned s)" "ev_type e \<noteq> SENSOR_TYPE_META_DATA H"
  obtains i k m sns e0 where "i < length (sensor_rows E ms 0)" "sensor_rows E ms 0 ! i = (k, m, sns)"
    "e0 \<in> set (written s ! k)" "ev_sensor e0 = s_handle sns" "e = e0\<lparr>ev_sensor := 1 + int i\<rparr>"
proof -
  note start = stack_threads_init [OF listed]
  have "reachable threads_init (stack_step H st) s"
    using reachable_mono [OF reach] start(1) by blast
  from returned_written [OF hal_threads.reachable_inv [OF this] e(1)] obtain j e0 where
    j: "e = copy_event_remap_handle H (hm (mh st)) e0 (int j)" "ev_sensor e \<noteq> -1"
      "j < length (t_queues s)" "e0 \<in> set (written s ! j)" by blast
  have "ev_type e0 \<noteq> SENSOR_TYPE_META_DATA H" using e(2) by (simp add: j(1) remap_type)
  note remap = j(1) [unfolded remap_event [OF this]]
  with j(2) obtain g where g: "full_to_global (hm (mh st)) (FullHandle (int j) (ev_sensor e0)) = Some g"
    "e = e0\<lparr>ev_sensor := g\<rparr>"
    by (auto simp: get_global_handle_def split: option.splits)
  from listed_origin [OF ok listed g(1)] obtain i k m sns where i: "i < length (sensor_rows E ms 0)"
    "sensor_rows E ms 0 ! i = (k, m, sns)" "g = 1 + int i" "FullHandle (int j) (ev_sensor e0) = FullHandle (int k) (s_handle sns)" .
  from i(4) j(4) have "e0 \<in> set (written s ! k)" by simp
  from that [OF i(1,2) this] g(2) i(3,4) show thesis by simp
qed

text \<open>
  A flush report is the one that a sub-HAL has written. It carries the handle of the listed sensor of
  this sub-HAL that it names; when it names none, it goes out all the same, with the handle -1 in it.
\<close>

lemma stack_report_origin:
  assumes ok: "hals_ok E ms" and listed: "listed_for E H junk ms l st"
    and reach: "reachable (stack_start st) (stack_step H st) s"
    and e: "e \<in> set (returned s)" "ev_type e = SENSOR_TYPE_META_DATA H"
  obtains k e0 where "k < length ms" "e0 \<in> set (written s ! k)" "ev_sensor e \<noteq> -1"
    "(\<exists>i < length (sensor_rows E ms 0). \<exists>m sns. sensor_rows E ms 0 ! i = (k, m, sns)
        \<and> ev_meta_sensor e0 = s_handle sns \<and> e = e0\<lparr>ev_meta_sensor := 1 + int i\<rparr>)
      \<or> (\<forall>i < length (sensor_rows E ms 0). \<forall>m sns. sensor_rows E ms 0 ! i = (k, m, sns) \<longrightarrow> ev_meta_sensor e0 \<noteq> s_handle sns)
        \<and> e = e0\<lparr>ev_meta_sensor := -1\<rparr>"
proof -
  note start = stack_threads_init [OF listed]
  have "reachable threads_init (stack_step H st) s"
    using reachable_mono [OF reach] start(1) by blast
  from returned_written [OF hal_threads.reachable_inv [OF this] e(1)] obtain k e0 where
    k: "e = copy_event_remap_handle H (hm (mh st)) e0 (int k)" "ev_sensor e \<noteq> -1"
      "k < length (t_queues s)" "e0 \<in> set (written s ! k)" by blast
  have "ev_type e0 = SENSOR_TYPE_META_DATA H" using e(2) by (simp add: k(1) remap_type)
  with k(1) have remap: "e = e0\<lparr>ev_meta_sensor := get_global_handle (hm (mh st)) (FullHandle (int k) (ev_meta_sensor e0))\<rparr>"
    by (simp add: copy_event_remap_handle_def)
  have len: "k < length ms" using reachable_queues [OF reach] start(2) k(3) by simp
  show thesis
  proof (cases "full_to_global (hm (mh st)) (FullHandle (int k) (ev_meta_sensor e0))")
    case None
    have "ev_meta_sensor e0 \<noteq> s_handle sns" if "i < length (sensor_rows E ms 0)" "sensor_rows E ms 0 ! i = (k, m, sns)" for i m sns
      using listed_row(4) [OF ok listed that] None by (auto simp: get_global_handle_def)
    moreover have "e = e0\<lparr>ev_meta_sensor := -1\<rparr>" using remap None by (simp add: get_global_handle_def)
    ultimately show thesis using that [OF len k(4,2)] by blast
  next
    case (Some g)
    from listed_origin [OF ok listed this] obtain i k' m sns where i: "i < length (sensor_rows E ms 0)"
      "sensor_rows E ms 0 ! i = (k', m, sns)" "g = 1 + int i"
      "FullHandle (int k) (ev_meta_sensor e0) = FullHandle (int k') (s_handle sns)" .
    have "e = e0\<lparr>ev_meta_sensor := 1 + int i\<rparr>" using remap Some i(3) by (simp add: get_global_handle_def)
    with i show thesis by (intro that [OF len k(4,2)]) auto
  qed
qed

section \<open>Where an event goes\<close>

text \<open>An event of a listed sensor reaches the framework under the sensor's handle.\<close>

lemma subseq_delivered_mem:
  assumes "subseq (delivered H hs (map (Pair i) ws)) es" and "e \<in> set ws"
    and "ev_sensor (copy_event_remap_handle H hs e (int i)) \<noteq> -1"
  shows "copy_event_remap_handle H hs e (int i) \<in> set es"
proof -
  have "copy_event_remap_handle H hs e (int i) \<in> set (delivered H hs (map (Pair i) ws))"
    using assms(2,3) by (auto simp: delivered_def)
  then show ?thesis using assms(1) by (meson subseq_order.trans subseq_singleton_left)
qed

lemma stack_written_delivered:
  assumes ok: "hals_ok E ms" and listed: "listed_for E H junk ms l st"
    and run: "run_of (stack_start st) (stack_step H st) r" "weakly_fair (reader_progress H (hm (mh st))) r"
    and i: "i < length (sensor_rows E ms 0)" "sensor_rows E ms 0 ! i = (k, m, sns)"
    and e: "e \<in> set (written (r j) ! k)" "ev_sensor e = s_handle sns" "ev_type e \<noteq> SENSOR_TYPE_META_DATA H"
  shows "\<exists>n \<ge> j. e\<lparr>ev_sensor := 1 + int i\<rparr> \<in> set (returned (r n))"
proof -
  note start = stack_threads_init [OF listed] and row = listed_row [OF ok listed i]
  have run': "run_of threads_init (stack_step H st) r"
    using run_of_mono [OF run(1)] start(1) by blast
  have "length (t_queues (r j)) = length ms"
    using reachable_queues [OF run_of_reachable [OF run(1)]] start(2) by blast
  with written_returned [OF run' run(2), of k j] row(1) obtain n where n: "n \<ge> j"
    "subseq (delivered H (hm (mh st)) (map (Pair k) (written (r j) ! k))) (returned (r n))"
    by auto
  have "copy_event_remap_handle H (hm (mh st)) e (int k) = e\<lparr>ev_sensor := 1 + int i\<rparr>"
    by (simp add: remap_event e row(4))
  with subseq_delivered_mem [OF n(2) e(1)] n(1) show ?thesis by auto
qed

section \<open>A run for the witnesses\<close>

text \<open>The sub-HAL of a queue that is still empty produces one event.\<close>

lemma reach_one_event:
  assumes reach: "reachable init (threads_step H hs) s" and i: "i < length (t_queues s)" "i < length (t_writers s)"
    and idle: "t_writers s ! i = W_Start" "t_queues s ! i = new_queue junk SENSOR_EVENT_QUEUE_CAPACITY"
  obtains t where "reachable init (threads_step H hs) t" "written t = (written s)[i := written s ! i @ [e]]"
    "returned t = returned s"
proof -
  let ?q = "fill_region 0 [e] (t_queues s ! i)"
  let ?polling = "s\<lparr>t_writers := (t_writers s)[i := W_Polling 0 36]\<rparr>"
  let ?stored = "?polling\<lparr>t_queues := (t_queues s)[i := ?q]\<rparr>"
  let ?polled = "?stored\<lparr>t_writers := (t_writers s)[i := W_Mark 0 [e]]\<rparr>"
  have "writer_lock (t_queues s ! i) = W_Polling 0 36"
    by (simp add: writer_lock_def idle(2) new_queue_def SENSOR_EVENT_QUEUE_CAPACITY_def getWritableRegion_def s32_def)
  with step_lock [OF i(2) idle(1), of H hs] have "threads_step H hs s ?polling" by simp
  moreover have "threads_step H hs ?polling ?stored"
    using step_store [of i ?polling 0 36 0 H hs e] i by simp
  moreover have "writer_polled ?q 0 1 = W_Mark 0 [e]"
    by (simp add: writer_polled_def region_data_def fill_region_def idle(2) new_queue_def
        SENSOR_EVENT_QUEUE_CAPACITY_def)
  then have "threads_step H hs ?stored ?polled"
    using step_polled [of i ?stored 0 36 1 H hs] i by simp
  moreover have "threads_step H hs ?polled (writer_mark i [e] ?polled)"
    using step_mark [of i ?polled 0 "[e]" H hs] i by simp
  ultimately have "reachable init (threads_step H hs) (writer_mark i [e] ?polled)"
    using reach by (blast intro: reachable_step)
  then show thesis by (rule that) (simp_all add: writer_mark_def)
qed

text \<open>
  The demonstration environment, started, with an event of the proximity sensor written and a framework
  that polls.
\<close>

lemma demo_rows: "[(0, 0, demo_sensor 5 8), (1, 1, demo_sensor 6 1)]
    = sensor_rows demo_env (load_modules demo_env [''a'', ''b'']) 0"
  unfolding demo_env_modules by (simp add: demo_env_def)

lemma demo_stack:
  obtains st l and st' :: "(unit, unit) hal_process" and r where
    "open_sensors demo_env (\<lambda>_. plain_event 0) process_start = Inr (0, st)"
    "get_sensors_list demo_env android_9 st = Inr (2, Some l, st')"
    "run_of (\<lambda>s. s = stack_threads st') (threads_step android_9 (hm (mh st'))) r"
    "weakly_fair (reader_progress android_9 (hm (mh st'))) r"
    "written (r 0) ! 0 = [plain_event 5]" "returned (r 0) = []"
    "\<exists>n. (plain_event 5)\<lparr>ev_sensor := 1\<rparr> \<in> set (returned (r n))"
proof -
  obtain st l and st' :: "(unit, unit) hal_process" where up:
    "open_sensors demo_env (\<lambda>_. plain_event 0) process_start = Inr (0, st)"
    "get_sensors_list demo_env android_9 st = Inr (int (length (sensor_rows demo_env (load_modules demo_env [''a'', ''b'']) 0)), Some l, st')"
    "listed_for demo_env android_9 (\<lambda>_. plain_event 0) (load_modules demo_env [''a'', ''b'']) l st'"
    by (rule bring_up_state [OF demo_env_paths demo_env_ok])
  have queues: "ctx_queues st' = replicate 2 (new_queue (\<lambda>_. plain_event 0) SENSOR_EVENT_QUEUE_CAPACITY)"
    using listed_queues [OF up(3)] unfolding demo_env_modules by (simp add: numeral_2_eq_2)
  have "reachable (\<lambda>s. s = stack_threads st') (threads_step android_9 (hm (mh st'))) (stack_threads st')"
    by (rule reachable_init) simp
  then obtain t where t: "reachable (\<lambda>s. s = stack_threads st') (threads_step android_9 (hm (mh st'))) t"
    "written t = (written (stack_threads st'))[0 := written (stack_threads st') ! 0 @ [plain_event 5]]"
    "returned t = returned (stack_threads st')"
    by (rule reach_one_event [where i = 0]) (simp_all add: stack_threads_def queues)
  define r where "r = scheduled (reader_next android_9 (hm (mh st'))) t"
  have first: "written (r 0) ! 0 = [plain_event 5]" "returned (r 0) = []"
    using t(2,3) by (simp_all add: r_def stack_threads_def queues)
  have run: "run_of (\<lambda>s. s = stack_threads st') (threads_step android_9 (hm (mh st'))) r"
    "weakly_fair (reader_progress android_9 (hm (mh st'))) r"
    unfolding r_def using reader_alone [OF t(1)] stack_threads_init(1) [OF up(3)] by auto
  have "\<exists>n \<ge> 0. (plain_event 5)\<lparr>ev_sensor := 1 + int 0\<rparr> \<in> set (returned (r n))"
  proof (rule stack_written_delivered [OF demo_env_ok up(3) run])
    show "0 < length (sensor_rows demo_env (load_modules demo_env [''a'', ''b'']) 0)"
      "sensor_rows demo_env (load_modules demo_env [''a'', ''b'']) 0 ! 0 = (0, 0, demo_sensor 5 8)"
      unfolding demo_rows [symmetric] by simp_all
  qed (simp_all add: first plain_event_def android_9_def)
  with that [OF up(1) _ run first] up(2) show thesis unfolding demo_rows [symmetric] by simp
qed

section \<open>From the configuration to the sub-HALs\<close>

text \<open>
  The sensor stack as a whole, from the configuration to the sub-HALs. When a configuration is
  found and the sub-HALs behave, the device opens and the list of sensors can be requested; then any
  sequence of activate, setDelay, batch and flush on the handles of the list is served without a
  fault, and every call it makes reaches the device of a sub-HAL with the device's own pointer and the
  local handle of one of the sensors that were asked for.
\<close>

theorem requests_after_start:
  fixes E :: "'i hal_env" and junk :: "nat \<Rightarrow> 'p sensors_event"
  assumes "get_so_paths E = Inr paths" and "hals_ok E (load_modules E paths)"
    and "rows = sensor_rows E (load_modules E paths) 0"
    and "\<forall>r \<in> set rs. 1 \<le> request_handle r \<and> request_handle r \<le> int (length rows) \<and> (\<forall>e. r \<noteq> ReqInject e)"
  shows "\<exists>st l st' vs s' cs. open_sensors E junk process_start = Inr (0, st)
    \<and> get_sensors_list E H st = Inr (int (length rows), Some l, st')
    \<and> serve H ret rs (mh st') = Inr (vs, s') \<and> length vs = length rs
    \<and> hal_calls s' = hal_calls (mh st') @ cs
    \<and> (\<forall>c \<in> set cs. \<exists>r \<in> set rs. case rows ! nat (request_handle r - 1) of (k, m, s) \<Rightarrow>
         let d = snd (module_open E m) in call_target c = (dev_id d, SubDevice (dev_id d), s_handle s))"
proof -
  obtain st l st' where up: "open_sensors E junk process_start = Inr (0, st)"
    "get_sensors_list E H st = Inr (int (length rows), Some l, st')" "listed_for E H junk (load_modules E paths) l st'"
    unfolding assms(3) by (rule bring_up_state [OF assms(1,2)])
  note rows = listed_row(3) [OF assms(2) up(3), folded assms(3)]
  have own: "\<exists>k m s. rows ! nat (request_handle r - 1) = (k, m, s)
      \<and> owner (mh st') (request_handle r) = Some (snd (module_open E m), s_handle s)"
    if "r \<in> set rs" for r
  proof -
    let ?i = "nat (request_handle r - 1)"
    have "?i < length rows" "1 + int ?i = request_handle r" using assms(4) that by force+
    with rows show ?thesis by (cases "rows ! ?i") force
  qed
  then have "\<forall>r \<in> set rs. owner (mh st') (request_handle r) \<noteq> None \<and> (\<forall>e. r \<noteq> ReqInject e)"
    using assms(4) by fastforce
  from serve_registered [OF listed_tables(1) [OF assms(2) up(3)] this, of H ret] obtain vs s' cs
    where served: "serve H ret rs (mh st') = Inr (vs, s')" "length vs = length rs"
      "hal_calls s' = hal_calls (mh st') @ cs"
      and calls: "\<forall>c \<in> set cs. \<exists>r \<in> set rs. well_addressed (mh st') (request_handle r) c"
    by blast
  have "\<forall>c \<in> set cs. \<exists>r \<in> set rs. case rows ! nat (request_handle r - 1) of (k, m, s) \<Rightarrow>
         let d = snd (module_open E m) in call_target c = (dev_id d, SubDevice (dev_id d), s_handle s)"
  proof
    fix c assume "c \<in> set cs"
    with calls obtain r where r: "r \<in> set rs" "well_addressed (mh st') (request_handle r) c" by blast
    with own [OF r(1)] show "\<exists>r \<in> set rs. case rows ! nat (request_handle r - 1) of (k, m, s) \<Rightarrow>
         let d = snd (module_open E m) in call_target c = (dev_id d, SubDevice (dev_id d), s_handle s)"
      by (intro bexI [of _ r]) (auto simp: well_addressed_def Let_def)
  qed
  with up(1,2) served show ?thesis by blast
qed

theorem requests_after_start_witness:
  "\<exists>(st :: (unit, unit) hal_process) l st' vs s'. open_sensors demo_env (\<lambda>_. plain_event 0) process_start = Inr (0, st)
    \<and> get_sensors_list demo_env android_9 st = Inr (2, Some l, st')
    \<and> serve android_9 (\<lambda>_. 0) [ReqActivate 1 1, ReqFlush 2] (mh st') = Inr (vs, s') \<and> length vs = 2"
proof -
  have rows: "[(0, 0, demo_sensor 5 8), (1, 1, demo_sensor 6 1)]
      = sensor_rows demo_env (load_modules demo_env [''a'', ''b'']) 0"
    unfolding demo_env_modules by (simp add: demo_env_def)
  show ?thesis
    using requests_after_start [OF demo_env_paths demo_env_ok rows,
        of "[ReqActivate 1 1, ReqFlush 2]" "\<lambda>_. plain_event 0" android_9 "\<lambda>_. 0"] by auto
qed

section \<open>From the sub-HALs to the framework\<close>

text \<open>
  Every event the framework gets is genuine. Once the device is open and the list of sensors has been
  requested, in every interleaving of the threads: an event that \<open>poll\<close> returned, other
  than a flush report, carries the handle of a sensor of the list and is, but for that handle, an event
  which the sub-HAL of this very sensor has written under the sensor's local handle.
\<close>

theorem events_after_start:
  fixes E :: "'i hal_env" and junk :: "nat \<Rightarrow> 'p sensors_event"
  assumes "get_so_paths E = Inr paths" and "hals_ok E (load_modules E paths)"
    and "rows = sensor_rows E (load_modules E paths) 0"
    and "open_sensors E junk process_start = Inr (0, st)" and "get_sensors_list E H st = Inr (n, Some l, st')"
    and "reachable (\<lambda>t. t = stack_threads st') (threads_step H (hm (mh st'))) s"
    and "e \<in> set (returned s)" and "ev_type e \<noteq> SENSOR_TYPE_META_DATA H"
  shows "\<exists>i < length rows. ev_sensor e = s_handle (l ! i) \<and> (case rows ! i of (k, m, sns) \<Rightarrow>
    \<exists>e0 \<in> set (written s ! k). ev_sensor e0 = s_handle sns \<and> e = e0\<lparr>ev_sensor := s_handle (l ! i)\<rparr>)"
proof -
  have listed: "listed_for E H junk (load_modules E paths) l st'"
    by (rule bring_up_state [OF assms(1,2), of junk H]) (use assms(4,5) in auto)
  obtain i k m sns e0 where i: "i < length rows" "rows ! i = (k, m, sns)"
    and e0: "e0 \<in> set (written s ! k)" "ev_sensor e0 = s_handle sns" "e = e0\<lparr>ev_sensor := 1 + int i\<rparr>"
    unfolding assms(3) by (rule stack_returned_origin [OF assms(2) listed assms(6-8)])
  have "s_handle (l ! i) = 1 + int i"
    using listed_row(2) [OF assms(2) listed, folded assms(3), OF i] by simp
  with i e0 show ?thesis by (intro exI [of _ i]) auto
qed

theorem events_after_start_witness:
  "\<exists>(s :: unit threads) e. e \<in> set (returned s) \<and> (\<exists>k. \<exists>e0 \<in> set (written s ! k). e = e0\<lparr>ev_sensor := ev_sensor e\<rparr>)"
proof -
  obtain st l and st' :: "(unit, unit) hal_process" and r where up:
    "open_sensors demo_env (\<lambda>_. plain_event 0) process_start = Inr (0, st)"
    "get_sensors_list demo_env android_9 st = Inr (2, Some l, st')"
    and run: "run_of (\<lambda>s. s = stack_threads st') (threads_step android_9 (hm (mh st'))) r"
      "weakly_fair (reader_progress android_9 (hm (mh st'))) r"
    and first: "written (r 0) ! 0 = [plain_event 5]" "returned (r 0) = []"
    and got: "\<exists>n. (plain_event 5)\<lparr>ev_sensor := 1\<rparr> \<in> set (returned (r n))"
    by (rule demo_stack)
  from got obtain n where e: "(plain_event 5)\<lparr>ev_sensor := 1\<rparr> \<in> set (returned (r n))" ..
  have "ev_type ((plain_event 5)\<lparr>ev_sensor := 1\<rparr>) \<noteq> SENSOR_TYPE_META_DATA android_9"
    by (simp add: plain_event_def android_9_def)
  from events_after_start [OF demo_env_paths demo_env_ok demo_rows up run_of_reachable [OF run(1)] e this] e
  show ?thesis by (fastforce split: prod.splits)
qed

text \<open>
  Every event of a listed sensor arrives. In each run in which the reader is scheduled weakly fairly, an
  event that a sub-HAL has written under the local handle of one of its sensors is returned to the
  framework by some later moment, with the handle which the list gives to that sensor.
\<close>

theorem events_arrive:
  fixes E :: "'i hal_env" and junk :: "nat \<Rightarrow> 'p sensors_event"
  assumes "get_so_paths E = Inr paths" and "hals_ok E (load_modules E paths)"
    and "rows = sensor_rows E (load_modules E paths) 0"
    and "open_sensors E junk process_start = Inr (0, st)" and "get_sensors_list E H st = Inr (n, Some l, st')"
    and "run_of (\<lambda>t. t = stack_threads st') (threads_step H (hm (mh st'))) r"
    and "weakly_fair (reader_progress H (hm (mh st'))) r"
    and "i < length rows" and "rows ! i = (k, m, sns)"
    and "e \<in> set (written (r j) ! k)" and "ev_sensor e = s_handle sns" and "ev_type e \<noteq> SENSOR_TYPE_META_DATA H"
  shows "\<exists>n \<ge> j. e\<lparr>ev_sensor := s_handle (l ! i)\<rparr> \<in> set (returned (r n))"
proof -
  have listed: "listed_for E H junk (load_modules E paths) l st'"
    by (rule bring_up_state [OF assms(1,2), of junk H]) (use assms(4,5) in auto)
  have "s_handle (l ! i) = 1 + int i"
    using listed_row(2) [OF assms(2) listed, folded assms(3), OF assms(8,9)] by simp
  with stack_written_delivered [OF assms(2) listed assms(6,7), folded assms(3), OF assms(8-12)]
  show ?thesis by simp
qed

theorem events_arrive_witness:
  "\<exists>(r :: nat \<Rightarrow> unit threads) n. returned (r 0) = [] \<and> returned (r n) \<noteq> []"
proof -
  obtain st l and st' :: "(unit, unit) hal_process" and r where up:
    "open_sensors demo_env (\<lambda>_. plain_event 0) process_start = Inr (0, st)"
    "get_sensors_list demo_env android_9 st = Inr (2, Some l, st')"
    and run: "run_of (\<lambda>s. s = stack_threads st') (threads_step android_9 (hm (mh st'))) r"
      "weakly_fair (reader_progress android_9 (hm (mh st'))) r"
    and first: "written (r 0) ! 0 = [plain_event 5]" "returned (r 0) = []"
    and got: "\<exists>n. (plain_event 5)\<lparr>ev_sensor := 1\<rparr> \<in> set (returned (r n))"
    by (rule demo_stack)
  have "\<exists>n \<ge> 0. (plain_event 5)\<lparr>ev_sensor := s_handle (l ! 0)\<rparr> \<in> set (returned (r n))"
    by (rule events_arrive [OF demo_env_paths demo_env_ok demo_rows up run, where k = 0 and m = 0 and sns = "demo_sensor 5 8"])
      (simp_all add: first plain_event_def android_9_def)
  with first(2) show ?thesis by (metis list.set_intros(1) empty_iff list.set(1))
qed

end
