(* ===== verification/Sensor_System.thy ===== *)
theory Sensor_System
  imports Sensor_Stack
begin

text \<open>
  The multi-HAL as one system: the framework requests the list of sensors and calls the device while the
  writers and \<open>poll\<close> run. Its steps are the requests of the list, the calls of the device
  and the steps of the threads, in any order that \<open>queue_mutex\<close> allows. The theory shows
  that nothing moves before the list is known, that calls and events then never disturb each other, and
  lifts what holds of the threads alone to runs of the whole. \<open>system_step\<close> is the system of a
  device that is opened once and not closed, as the framework uses it; \<open>process_step\<close> adds further
  calls of \<open>open_sensors\<close>, and the last section says what closing leaves behind.
\<close>

section \<open>The system\<close>

record ('p, 'i) hal_system =
  hal :: "('p, 'i) hal_process"
  tasks :: "'p threads"

text \<open>The framework knows the handles of the list that it has got.\<close>

definition known_request :: "('p, 'i) hal_process \<Rightarrow> 'p request \<Rightarrow> bool" where
  "known_request st r \<longleftrightarrow> (case global_sensors_list (mh st) of
       None \<Rightarrow> False
     | Some l \<Rightarrow> request_handle r \<in> s_handle ` set l)"

definition system_init :: "'i hal_env \<Rightarrow> (nat \<Rightarrow> 'p sensors_event) \<Rightarrow> ('p, 'i) hal_system \<Rightarrow> bool" where
  "system_init E junk s \<longleftrightarrow>
     (\<exists>st. open_sensors E junk process_start = Inr (0, st) \<and> s = \<lparr>hal = st, tasks = stack_threads st\<rparr>)"

text \<open>
  The framework calls the device from one thread and \<open>poll\<close> from another. While
  \<open>queue_mutex\<close> is held over from \<open>open_sensors\<close>, every thread is before its
  first lock, so the condition may stand for all their steps; afterwards a section under the mutex is
  one step.
\<close>

inductive system_step :: "'i hal_env \<Rightarrow> sensors_h \<Rightarrow> 'p sub_hals \<Rightarrow> ('p, 'i) hal_system \<Rightarrow> ('p, 'i) hal_system \<Rightarrow> bool"
  for E :: "'i hal_env" and H :: sensors_h and ret :: "'p sub_hals" where
  system_list: "get_sensors_list E H (hal s) = Inr (n, l, st) \<Longrightarrow> system_step E H ret s (s\<lparr>hal := st\<rparr>)"
| system_call: "known_request (hal s) r \<Longrightarrow> proxy_device H ret r (mh (hal s)) = Inr (v, m)
    \<Longrightarrow> system_step E H ret s (s\<lparr>hal := (hal s)\<lparr>mh := m\<rparr>\<rparr>)"
| system_thread: "\<not> queue_mutex_locked (hal s) \<Longrightarrow> threads_step H (hm (mh (hal s))) (tasks s) t
    \<Longrightarrow> system_step E H ret s (s\<lparr>tasks := t\<rparr>)"

inductive_cases system_stepE: "system_step E H ret s t"

section \<open>What every step keeps\<close>

text \<open>
  A call is genuine when it goes to the device of a sensor of the list: through that device's own
  pointer and with the sensor's local handle, or, when it is injected data, through the pointer of the
  proxy and as the framework gave it, with the handle that the list gives to the sensor.
\<close>

definition genuine_call :: "'i hal_env \<Rightarrow> nat list \<Rightarrow> 'p hal_call \<Rightarrow> bool" where
  "genuine_call E ms c \<longleftrightarrow> (\<exists>i < length (sensor_rows E ms 0).
     case sensor_rows E ms 0 ! i of (k, m, sns) \<Rightarrow> let d = snd (module_open E m) in
       call_target c = (dev_id d, SubDevice (dev_id d), s_handle sns)
         \<or> (\<exists>e. c = InjectSensorData (dev_id d) ProxyDevice e \<and> ev_sensor e = 1 + int i))"

text \<open>
  How the HAL came up: \<open>st0\<close> is the process that \<open>open_sensors\<close> leaves,
  \<open>st1\<close> the one after the first request of the list, \<open>l\<close>.
\<close>

definition came_up :: "'i hal_env \<Rightarrow> sensors_h \<Rightarrow> (nat \<Rightarrow> 'p sensors_event) \<Rightarrow> nat list \<Rightarrow> ('p, 'i) hal_process
    \<Rightarrow> 'i sensor list \<Rightarrow> ('p, 'i) hal_process \<Rightarrow> bool" where
  "came_up E H junk ms st0 l st1 \<longleftrightarrow> hals_ok E ms \<and> opened_for E junk ms st0
     \<and> (\<exists>n. get_sensors_list E H st0 = Inr (n, Some l, st1))
     \<and> listed_for E H junk ms l st1 \<and> hal_calls (mh st1) = [] \<and> sub_hw_modules st1 = Some ms"

definition system_waiting :: "('p, 'i) hal_process \<Rightarrow> ('p, 'i) hal_system \<Rightarrow> bool" where
  "system_waiting st0 s \<longleftrightarrow> s = \<lparr>hal = st0, tasks = stack_threads st0\<rparr>"

definition serves_list :: "'i hal_env \<Rightarrow> nat list \<Rightarrow> ('p, 'i) hal_process \<Rightarrow> ('p, 'i) hal_process \<Rightarrow> bool" where
  "serves_list E ms st1 st \<longleftrightarrow> same_shape (mh st1) (mh st) \<and> sub_hw_modules st = Some ms
     \<and> (\<forall>c \<in> set (hal_calls (mh st)). genuine_call E ms c)"

definition system_running :: "'i hal_env \<Rightarrow> sensors_h \<Rightarrow> nat list \<Rightarrow> ('p, 'i) hal_process \<Rightarrow> ('p, 'i) hal_system \<Rightarrow> bool" where
  "system_running E H ms st1 s \<longleftrightarrow> \<not> queue_mutex_locked (hal s) \<and> serves_list E ms st1 (hal s)
     \<and> reachable (stack_start st1) (stack_step H st1) (tasks s)"

lemma serves_list_shape: "serves_list E ms st1 st \<Longrightarrow> same_shape (mh st1) (mh st)"
  by (simp add: serves_list_def)

lemma running_serves: "system_running E H ms st1 s \<Longrightarrow> serves_list E ms st1 (hal s)"
  by (simp add: system_running_def)

lemma came_up_calls:
  assumes "open_sensors E junk process_start = Inr (v, st0)"
  shows "hal_calls (mh st0) = []"
    and "get_sensors_list E H st0 = Inr (n, l, st1) \<Longrightarrow> hal_calls (mh st1) = []"
    and "get_sensors_list E H st0 = Inr (n, l, st1) \<Longrightarrow> sub_hw_modules st0 = Some ms \<Longrightarrow> sub_hw_modules st1 = Some ms"
proof -
  show calls: "hal_calls (mh st0) = []"
    using assms
    by (auto simp: open_modules_frame(3) open_sensors_def lazy_init_modules_def process_start_def Let_def
        split: sum.splits if_splits)
  show "get_sensors_list E H st0 = Inr (n, l, st1) \<Longrightarrow> sub_hw_modules st0 = Some ms \<Longrightarrow> sub_hw_modules st1 = Some ms"
    by (auto simp: get_sensors_list_def lazy_init_sensors_list_def lazy_init_modules_def Let_def
        split: sum.splits if_splits option.splits prod.splits)
  assume "get_sensors_list E H st0 = Inr (n, l, st1)"
  then have "hal_calls (mh st1) = hal_calls (mh st0)"
    by (auto simp: get_sensors_list_def lazy_init_sensors_list_def lazy_init_modules_def Let_def
        split: sum.splits if_splits option.splits prod.splits)
  with calls show "hal_calls (mh st1) = []" by simp
qed

lemma came_up_exists:
  fixes junk :: "nat \<Rightarrow> 'p sensors_event" and E :: "'i hal_env"
  assumes "get_so_paths E = Inr paths" and "hals_ok E (load_modules E paths)"
  obtains st0 l and st1 :: "('p, 'i) hal_process" where "open_sensors E junk process_start = Inr (0, st0)"
    "came_up E H junk (load_modules E paths) st0 l st1"
proof -
  obtain st0 l and st1 :: "('p, 'i) hal_process" where up: "open_sensors E junk process_start = Inr (0, st0)"
    "opened_for E junk (load_modules E paths) st0"
    "get_sensors_list E H st0 = Inr (int (length (sensor_rows E (load_modules E paths) 0)), Some l, st1)"
    "listed_for E H junk (load_modules E paths) l st1"
    by (rule bring_up_state [OF assms])
  have "sub_hw_modules st1 = Some (load_modules E paths)"
    by (rule came_up_calls(3) [OF up(1,3)]) (use up(2) in \<open>simp add: opened_for_def\<close>)
  with that [OF up(1)] up(2-4) assms(2) came_up_calls(2) [OF up(1,3)] show thesis
    unfolding came_up_def by blast
qed

section \<open>Before the list\<close>

lemma came_up_threads: "came_up E H junk ms st0 l st1 \<Longrightarrow> stack_threads st0 = stack_threads st1"
  by (auto simp: came_up_def opened_for_def stack_threads_def dest!: listed_queues)

lemma waiting_step:
  assumes up: "came_up E H junk ms st0 l st1" and "system_waiting st0 s" and "system_step E H ret s t"
  shows "system_running E H ms st1 t"
  using assms(3)
proof cases
  case (system_list n l' st)
  with up assms(2) have t: "t = \<lparr>hal = st1, tasks = stack_threads st1\<rparr>"
    by (auto simp: came_up_def system_waiting_def came_up_threads [OF up])
  from up have "\<not> queue_mutex_locked st1" "hal_calls (mh st1) = []" "sub_hw_modules st1 = Some ms"
    unfolding came_up_def by (auto dest: listed_tables(3))
  with t show ?thesis by (simp add: system_running_def serves_list_def reachable_init)
next
  case (system_call r v m)
  with up assms(2) show ?thesis
    by (auto simp: came_up_def opened_for_def system_waiting_def known_request_def)
next
  case (system_thread t')
  with up assms(2) show ?thesis by (auto simp: came_up_def opened_for_def system_waiting_def)
qed

section \<open>With the list\<close>

text \<open>The sensor that a known request is about.\<close>

lemma known_row:
  assumes up: "came_up E H junk ms st0 l st1" and shape: "same_shape (mh st1) (mh st)" and known: "known_request st r"
  obtains i k m sns where "i < length (sensor_rows E ms 0)" "sensor_rows E ms 0 ! i = (k, m, sns)"
    "request_handle r = s_handle (l ! i)" "owner (mh st1) (request_handle r) = Some (snd (module_open E m), s_handle sns)"
proof -
  have ok: "hals_ok E ms" and listed: "listed_for E H junk ms l st1" using up by (simp_all add: came_up_def)
  obtain "global_sensors_list (mh st1) = Some l" by (rule listed_forD [OF listed])
  then have "request_handle r \<in> s_handle ` set l"
    using known shape by (simp add: known_request_def same_shape_def)
  then obtain i where i: "i < length l" "request_handle r = s_handle (l ! i)"
    by (auto simp: in_set_conv_nth)
  obtain k m sns where row: "sensor_rows E ms 0 ! i = (k, m, sns)" by (cases "sensor_rows E ms 0 ! i")
  have i': "i < length (sensor_rows E ms 0)" using i(1) listed_tables(2) [OF ok listed] by simp
  note facts = listed_row(2,3) [OF ok listed i' row]
  from that [OF i' row i(2)] facts i(2) show thesis by simp
qed

text \<open>A request that the framework may make is served, and its calls are genuine.\<close>

lemma serves_request:
  assumes up: "came_up E H junk ms st0 l st1" and run: "serves_list E ms st1 st"
    and known: "known_request st r"
  obtains i k m sns v s' cs where "i < length (sensor_rows E ms 0)" "sensor_rows E ms 0 ! i = (k, m, sns)"
    "request_handle r = s_handle (l ! i)" "s_handle (l ! i) = 1 + int i"
    "proxy_device H ret r (mh st) = Inr (v, s')" "serves_list E ms st1 (st\<lparr>mh := s'\<rparr>)"
    "hal_calls s' = hal_calls (mh st) @ cs"
    "\<And>c. c \<in> set cs \<Longrightarrow> \<forall>e. r \<noteq> ReqInject e \<Longrightarrow>
      (let d = snd (module_open E m) in call_target c = (dev_id d, SubDevice (dev_id d), s_handle sns))"
proof -
  have ok: "hals_ok E ms" and listed: "listed_for E H junk ms l st1" using up by (simp_all add: came_up_def)
  have shape: "same_shape (mh st1) (mh st)" and modules: "sub_hw_modules st = Some ms"
    and old: "\<forall>c \<in> set (hal_calls (mh st)). genuine_call E ms c"
    using run by (simp_all add: serves_list_def)
  from known_row [OF up shape known] obtain i k m sns where row: "i < length (sensor_rows E ms 0)"
    "sensor_rows E ms 0 ! i = (k, m, sns)" "request_handle r = s_handle (l ! i)"
    and own: "owner (mh st1) (request_handle r) = Some (snd (module_open E m), s_handle sns)" .
  have handle: "s_handle (l ! i) = 1 + int i" using listed_row(2) [OF ok listed row(1,2)] by simp
  have mok: "multihal_ok (mh st)" by (rule same_shape_ok [OF shape listed_tables(1) [OF ok listed]])
  have own': "owner (mh st) (request_handle r) = Some (snd (module_open E m), s_handle sns)"
    using own shape owner_frame [of "mh st" "mh st1"] by (simp add: same_shape_def)
  have keep: "serves_list E ms st1 (st\<lparr>mh := s'\<rparr>)"
    if "same_shape (mh st) s'" "hal_calls s' = hal_calls (mh st) @ cs" "\<forall>c \<in> set cs. genuine_call E ms c" for s' cs
    using that old modules same_shape_trans [OF shape that(1)] by (auto simp: serves_list_def)
  show thesis
  proof (cases "\<exists>e. r = ReqInject e")
    case True
    then obtain e where e: "r = ReqInject e" by blast
    obtain v s' cs where out: "proxy_device H ret r (mh st) = Inr (v, s')" "same_shape (mh st) s'"
      "hal_calls s' = hal_calls (mh st) @ cs" "set cs \<subseteq> {InjectSensorData (dev_id (snd (module_open E m))) ProxyDevice e}"
      using inject_served [OF mok own' [unfolded e request_handle.simps], of H ret] unfolding e by blast
    have "ev_sensor e = 1 + int i" using row(3) handle e by simp
    with row(1,2) have "genuine_call E ms (InjectSensorData (dev_id (snd (module_open E m))) ProxyDevice e)"
      by (auto simp: genuine_call_def Let_def intro!: exI [of _ i])
    with out(4) have "\<forall>c \<in> set cs. genuine_call E ms c" by auto
    from that [OF row handle out(1) keep [OF out(2,3) this] out(3)] e show thesis by blast
  next
    case False
    then have "served_well (mh st) (snd (module_open E m)) (s_handle sns) (proxy_device H ret r (mh st))"
      using own' mok by (intro proxy_device_served) auto
    then obtain v s' cs where out: "proxy_device H ret r (mh st) = Inr (v, s')" "same_shape (mh st) s'"
      "hal_calls s' = hal_calls (mh st) @ cs"
      "\<forall>c \<in> set cs. call_target c = (dev_id (snd (module_open E m)), SubDevice (dev_id (snd (module_open E m))), s_handle sns)"
      unfolding served_well_def Let_def by blast
    have "genuine_call E ms c" if "c \<in> set cs" for c
      using row(1,2) out(4) that by (auto simp: genuine_call_def Let_def intro!: exI [of _ i])
    then have "\<forall>c \<in> set cs. genuine_call E ms c" by blast
    from that [OF row handle out(1) keep [OF out(2,3) this] out(3)] out(4) show thesis by (simp add: Let_def)
  qed
qed

text \<open>With the list at hand, a further request of the list changes nothing.\<close>

lemma serves_list_request:
  assumes "came_up E H junk ms st0 l st1" and "serves_list E ms st1 st"
  shows "global_sensors_list (mh st) = Some l" and "get_sensors_list E H st = Inr (n, l', st') \<Longrightarrow> st' = st"
proof -
  show list: "global_sensors_list (mh st) = Some l"
    using assms by (auto simp: serves_list_def same_shape_def came_up_def elim: listed_forD)
  show "get_sensors_list E H st = Inr (n, l', st') \<Longrightarrow> st' = st"
    by (simp add: get_sensors_list_def lazy_init_sensors_list_def list)
qed

lemma running_step:
  assumes up: "came_up E H junk ms st0 l st1" and run: "system_running E H ms st1 s" and "system_step E H ret s t"
  shows "system_running E H ms st1 t"
  using assms(3)
proof cases
  case (system_list n l' st)
  with serves_list_request(2) [OF up running_serves [OF run]] have "t = s" by auto
  with run show ?thesis by simp
next
  case (system_call r v m)
  obtain v' s' where "proxy_device H ret r (mh (hal s)) = Inr (v', s')" "serves_list E ms st1 ((hal s)\<lparr>mh := s'\<rparr>)"
    by (rule serves_request [OF up running_serves [OF run] system_call(2), of ret]) blast
  with system_call run show ?thesis by (simp add: system_running_def)
next
  case (system_thread t')
  with run show ?thesis
    by (auto simp: system_running_def serves_list_def same_shape_def intro: reachable_step)
qed

section \<open>Reachable states\<close>

interpretation hal_system: inductive_invariant
    "\<lambda>s. came_up E H junk ms st0 l st1 \<and> system_waiting st0 s" "system_step E H ret"
    "\<lambda>s. came_up E H junk ms st0 l st1 \<and> (system_waiting st0 s \<or> system_running E H ms st1 s)"
  for E H junk ms st0 l st1 ret
  by unfold_locales (auto dest: waiting_step running_step)

lemma system_reachable:
  assumes "open_sensors E junk process_start = Inr (0, st0)" and "came_up E H junk ms st0 l st1"
    and "reachable (system_init E junk) (system_step E H ret) s"
  shows "system_waiting st0 s \<or> system_running E H ms st1 s"
proof -
  have "reachable (\<lambda>s. came_up E H junk ms st0 l st1 \<and> system_waiting st0 s) (system_step E H ret) s"
    by (rule reachable_mono [OF assms(3)]) (use assms(1,2) in \<open>auto simp: system_init_def system_waiting_def\<close>)
  from hal_system.reachable_inv [OF this] show ?thesis by simp
qed

lemma running_list:
  assumes "came_up E H junk ms st0 l st1" and "system_running E H ms st1 s"
  shows "global_sensors_list (mh (hal s)) = Some l"
  by (rule serves_list_request(1) [OF assms(1) running_serves [OF assms(2)]])

lemma waiting_list: "came_up E H junk ms st0 l st1 \<Longrightarrow> system_waiting st0 s \<Longrightarrow> global_sensors_list (mh (hal s)) = None"
  by (auto simp: system_waiting_def came_up_def opened_for_def)

lemma came_up_handles:
  assumes up: "came_up E H junk ms st0 l st1"
  shows "map s_handle l = map (\<lambda>i. 1 + int i) [0..<length (sensor_rows E ms 0)]"
proof (rule nth_equalityI)
  have ok: "hals_ok E ms" and listed: "listed_for E H junk ms l st1" using up by (simp_all add: came_up_def)
  note len = listed_tables(2) [OF ok listed]
  then show "length (map s_handle l) = length (map (\<lambda>i. 1 + int i) [0..<length (sensor_rows E ms 0)])" by simp
  fix i
  assume "i < length (map s_handle l)"
  with len have i: "i < length (sensor_rows E ms 0)" by simp
  obtain k m sns where "sensor_rows E ms 0 ! i = (k, m, sns)" by (cases "sensor_rows E ms 0 ! i")
  from listed_row(2) [OF ok listed i this] i len show "map s_handle l ! i = map (\<lambda>i. 1 + int i) [0..<length (sensor_rows E ms 0)] ! i"
    by simp
qed

text \<open>What the handles of the list and the calls look like from then on.\<close>

lemma serves_order:
  assumes up: "came_up E H junk ms st0 l st1" and serves: "serves_list E ms st1 st"
  shows "global_sensors_list (mh st) = Some l"
    and "map s_handle l = map (\<lambda>i. 1 + int i) [0..<length (sensor_rows E ms 0)]"
    and "\<forall>c \<in> set (hal_calls (mh st)). \<exists>i < length (sensor_rows E ms 0). case sensor_rows E ms 0 ! i of (k, m, sns) \<Rightarrow>
      let d = snd (module_open E m) in call_target c = (dev_id d, SubDevice (dev_id d), s_handle sns)
        \<or> (\<exists>e. c = InjectSensorData (dev_id d) ProxyDevice e \<and> ev_sensor e = s_handle (l ! i))"
proof -
  show "global_sensors_list (mh st) = Some l" by (rule serves_list_request(1) [OF up serves])
  show handles: "map s_handle l = map (\<lambda>i. 1 + int i) [0..<length (sensor_rows E ms 0)]"
    by (rule came_up_handles [OF up])
  have "s_handle (l ! i) = 1 + int i" if "i < length (sensor_rows E ms 0)" for i
    using arg_cong [OF handles, of "\<lambda>xs. xs ! i"] arg_cong [OF handles, of length] that by simp
  with serves show "\<forall>c \<in> set (hal_calls (mh st)). \<exists>i < length (sensor_rows E ms 0). case sensor_rows E ms 0 ! i of (k, m, sns) \<Rightarrow>
      let d = snd (module_open E m) in call_target c = (dev_id d, SubDevice (dev_id d), s_handle sns)
        \<or> (\<exists>e. c = InjectSensorData (dev_id d) ProxyDevice e \<and> ev_sensor e = s_handle (l ! i))"
    by (fastforce simp: serves_list_def genuine_call_def)
qed

section \<open>Opening the device again\<close>

text \<open>
  The same system when \<open>open_sensors\<close> may be called again; the number counts the calls that
  have returned. Another call while \<open>queue_mutex\<close> is held never returns and is no step. Every
  thread, also those of the new context, begins with the mutex, so the threads that exist are all that
  can move.
\<close>

inductive process_step :: "'i hal_env \<Rightarrow> sensors_h \<Rightarrow> 'p sub_hals \<Rightarrow> ('p, 'i) hal_system \<times> nat \<Rightarrow> ('p, 'i) hal_system \<times> nat \<Rightarrow> bool"
  for E :: "'i hal_env" and H :: sensors_h and ret :: "'p sub_hals" where
  process_system: "system_step E H ret s t \<Longrightarrow> process_step E H ret (s, n) (t, n)"
| process_open: "open_sensors E junk (hal s) = Inr (0, st) \<Longrightarrow> process_step E H ret (s, n) (s\<lparr>hal := st\<rparr>, Suc n)"

inductive_cases process_stepE: "process_step E H ret (s, n) (t, k)"

definition process_init :: "'i hal_env \<Rightarrow> (nat \<Rightarrow> 'p sensors_event) \<Rightarrow> ('p, 'i) hal_system \<times> nat \<Rightarrow> bool" where
  "process_init E junk x \<longleftrightarrow> system_init E junk (fst x) \<and> snd x = 1"

definition process_inv :: "'i hal_env \<Rightarrow> sensors_h \<Rightarrow> nat list \<Rightarrow> ('p, 'i) hal_process \<Rightarrow> ('p, 'i) hal_process
    \<Rightarrow> ('p, 'i) hal_system \<times> nat \<Rightarrow> bool" where
  "process_inv E H ms st0 st1 x \<longleftrightarrow>
     snd x = 1 \<and> (system_waiting st0 (fst x) \<or> system_running E H ms st1 (fst x))
     \<or> snd x = 2 \<and> queue_mutex_locked (hal (fst x)) \<and> serves_list E ms st1 (hal (fst x))"

text \<open>While the mutex is held no further call returns; otherwise one does, and leaves it held for ever.\<close>

lemma open_locked:
  "sub_hw_modules st = Some ms \<Longrightarrow> queue_mutex_locked st \<Longrightarrow> open_sensors E junk st = Inl Deadlock"
  by (simp add: open_sensors_def lazy_init_modules_def Let_def)

lemma open_again:
  assumes up: "came_up E H junk ms st0 l st1" and serves: "serves_list E ms st1 st"
    and opened: "open_sensors E junk' st = Inr (0, st')"
  shows "\<not> queue_mutex_locked st \<and> queue_mutex_locked st' \<and> serves_list E ms st1 st'"
proof -
  have ok: "hals_ok E ms" and listed: "listed_for E H junk ms l st1" using up by (simp_all add: came_up_def)
  have st: "sub_hw_modules st = Some ms" "same_shape (mh st1) (mh st)"
    "\<forall>c \<in> set (hal_calls (mh st)). genuine_call E ms c"
    using serves by (simp_all add: serves_list_def)
  have free: "\<not> queue_mutex_locked st" using opened open_locked [OF st(1)] by fastforce
  let ?begun = "st\<lparr>mh := (mh st)\<lparr>sub_hw_devices := []\<rparr>, ctx_queues := [], queue_mutex_locked := True,
    sub_hw_versions := Some Map.empty\<rparr>"
  have st': "st' = open_modules E junk' ms ?begun"
    using opened free st(1) by (simp add: open_sensors_def lazy_init_modules_def Let_def)
  have "\<forall>m \<in> set ms. fst (module_open E m) = 0" using ok by (simp add: hals_ok_def)
  then have "sub_hw_devices (mh st') = map (\<lambda>m. snd (module_open E m)) ms"
    using open_modules_all [of ms E ?begun Map.empty junk'] by (simp add: st')
  moreover have "sub_hw_devices (mh st1) = map (\<lambda>m. snd (module_open E m)) ms"
    using listed by (auto elim: listed_forD)
  ultimately have "same_shape (mh st1) (mh st')"
    using st(2) by (simp add: same_shape_def st' open_modules_frame open_modules_arrays)
  with free st show ?thesis by (simp add: serves_list_def st' open_modules_frame)
qed

lemma process_inv_step:
  assumes up: "came_up E H junk ms st0 l st1" and inv: "process_inv E H ms st0 st1 x"
    and step: "process_step E H ret x y"
  shows "process_inv E H ms st0 st1 y"
  using step
proof cases
  case (process_system s t n)
  show ?thesis
  proof (cases "n = 1")
    case True
    with inv process_system(3) waiting_step [OF up _ process_system(3)] running_step [OF up _ process_system(3)]
    show ?thesis by (auto simp: process_inv_def process_system(1,2))
  next
    case False
    then have n: "n = 2" and locked: "queue_mutex_locked (hal s)" and serves: "serves_list E ms st1 (hal s)"
      using inv by (auto simp: process_inv_def process_system(1))
    from process_system(3) have "queue_mutex_locked (hal t) \<and> serves_list E ms st1 (hal t)"
    proof cases
      case (system_list n' l' st)
      with serves_list_request(2) [OF up serves] locked serves show ?thesis by simp
    next
      case (system_call r v m)
      obtain v' s' where "proxy_device H ret r (mh (hal s)) = Inr (v', s')" "serves_list E ms st1 ((hal s)\<lparr>mh := s'\<rparr>)"
        by (rule serves_request [OF up serves system_call(2), of ret]) blast
      with system_call locked show ?thesis by simp
    next
      case (system_thread t')
      with locked show ?thesis by simp
    qed
    with n show ?thesis by (simp add: process_inv_def process_system(2))
  qed
next
  case (process_open junk' s st n)
  have "sub_hw_modules (hal s) = Some ms \<and> (\<not> queue_mutex_locked (hal s) \<longrightarrow> n = 1 \<and> serves_list E ms st1 (hal s))"
    using inv up by (auto simp: process_inv_def process_open(1) system_waiting_def system_running_def serves_list_def
        came_up_def opened_for_def)
  with open_locked [of "hal s" ms E junk'] process_open(3) have "n = 1" "serves_list E ms st1 (hal s)" by fastforce+
  with open_again [OF up _ process_open(3)] show ?thesis by (simp add: process_inv_def process_open(2))
qed

text \<open>With the mutex held for good, no thread moves and no further call of \<open>open_sensors\<close> returns.\<close>

lemma held_step:
  assumes up: "came_up E H junk ms st0 l st1" and locked: "queue_mutex_locked (hal s)"
    and serves: "serves_list E ms st1 (hal s)" and step: "process_step E H ret (s, n) (t, k)"
  shows "k = n \<and> tasks t = tasks s"
  using step
proof (rule process_stepE)
  assume "system_step E H ret s t" and "k = n"
  with locked show ?thesis by (auto elim!: system_stepE)
next
  fix junk' st
  assume "open_sensors E junk' (hal s) = Inr (0, st)"
  with open_again [OF up serves] locked show ?thesis by blast
qed

interpretation hal_process: inductive_invariant
    "\<lambda>x. came_up E H junk ms st0 l st1 \<and> snd x = 1 \<and> system_waiting st0 (fst x)" "process_step E H ret"
    "\<lambda>x. came_up E H junk ms st0 l st1 \<and> process_inv E H ms st0 st1 x"
  for E H junk ms st0 l st1 ret
proof unfold_locales
  show "came_up E H junk ms st0 l st1 \<and> process_inv E H ms st0 st1 x"
    if "came_up E H junk ms st0 l st1 \<and> snd x = 1 \<and> system_waiting st0 (fst x)" for x
    using that by (simp add: process_inv_def)
  show "came_up E H junk ms st0 l st1 \<and> process_inv E H ms st0 st1 y"
    if "came_up E H junk ms st0 l st1 \<and> process_inv E H ms st0 st1 x" "process_step E H ret x y" for x y
    using that process_inv_step [OF _ _ that(2)] by blast
qed

lemma process_reachable:
  assumes "open_sensors E junk process_start = Inr (0, st0)" and "came_up E H junk ms st0 l st1"
    and "reachable (process_init E junk) (process_step E H ret) x"
  shows "process_inv E H ms st0 st1 x"
proof -
  have "reachable (\<lambda>x. came_up E H junk ms st0 l st1 \<and> snd x = 1 \<and> system_waiting st0 (fst x)) (process_step E H ret) x"
    by (rule reachable_mono [OF assms(3)]) (use assms(1,2) in \<open>auto simp: process_init_def system_init_def system_waiting_def\<close>)
  from hal_process.reachable_inv [OF this] show ?thesis by simp
qed

lemma system_in_process:
  assumes "reachable (system_init E junk) (system_step E H ret) s"
  shows "reachable (process_init E junk) (process_step E H ret) (s, 1)"
  using assms
proof induction
  case (reachable_init s)
  then show ?case by (intro reachable.reachable_init) (simp add: process_init_def)
next
  case (reachable_step s t)
  from reachable_step(3) process_system [OF reachable_step(2)] show ?case by (rule reachable.reachable_step)
qed

section \<open>Runs\<close>

text \<open>The weakly fair action: the reader calls \<open>poll\<close>, or goes on after a signal.\<close>

definition system_reader :: "sensors_h \<Rightarrow> ('p, 'i) hal_system \<Rightarrow> ('p, 'i) hal_system \<Rightarrow> bool" where
  "system_reader H s t \<longleftrightarrow> \<not> queue_mutex_locked (hal s) \<and> reader_progress H (hm (mh (hal s))) (tasks s) (tasks t)"

lemma running_hm: "system_running E H ms st1 s \<Longrightarrow> hm (mh (hal s)) = hm (mh st1) \<and> \<not> queue_mutex_locked (hal s)"
  by (simp add: system_running_def serves_list_def same_shape_def)

lemma system_run_tasks:
  assumes up: "came_up E H junk ms st0 l st1" and run: "run_of (system_init E junk) (system_step E H ret) r"
    and fair: "weakly_fair (system_reader H) r" and "system_running E H ms st1 (r j)"
  shows "run_of (stack_start st1) (stack_step H st1) (\<lambda>n. tasks (r (j + n)))"
    and "weakly_fair (reader_progress H (hm (mh st1))) (\<lambda>n. tasks (r (j + n)))"
proof -
  have on: "system_running E H ms st1 (r n)" if "j \<le> n" for n
    by (rule run_of_keeps [OF run, where C = "\<lambda>_ _. True" and P = "system_running E H ms st1", OF TrueI _ assms(4) that])
      (rule running_step [OF up])
  show "run_of (stack_start st1) (stack_step H st1) (\<lambda>n. tasks (r (j + n)))"
  proof (rule run_of_project [OF run])
    show "reachable (stack_start st1) (stack_step H st1) (tasks (r j))"
      using assms(4) by (simp add: system_running_def)
    fix n
    assume "j \<le> n" and "system_step E H ret (r n) (r (Suc n))"
    with running_hm [OF on [of n]] show "stack_step H st1 (tasks (r n)) (tasks (r (Suc n))) \<or> tasks (r (Suc n)) = tasks (r n)"
      by (auto elim!: system_stepE)
  qed
  show "weakly_fair (reader_progress H (hm (mh st1))) (\<lambda>n. tasks (r (j + n)))"
  proof (rule weakly_fair_project [OF fair])
    fix n t
    assume "j \<le> n" and "reader_progress H (hm (mh st1)) (tasks (r n)) t"
    with running_hm [OF on [of n]] have "system_reader H (r n) ((r n)\<lparr>tasks := t\<rparr>)"
      by (simp add: system_reader_def)
    then show "\<exists>u. system_reader H (r n) u" ..
  next
    fix n u
    assume "j \<le> n" and "system_reader H (r n) u"
    with running_hm [OF on [of n]] show "reader_progress H (hm (mh st1)) (tasks (r n)) (tasks u)"
      by (simp add: system_reader_def)
  qed
qed

section \<open>A run for the witnesses\<close>

text \<open>After the first request of the list, whatever the threads can do alone they can do in the system.\<close>

lemma listed_reachable:
  assumes "open_sensors E junk process_start = Inr (0, st0)" and up: "came_up E H junk ms st0 l st1"
    and "reachable (stack_start st1) (stack_step H st1) t"
  shows "reachable (system_init E junk) (system_step E H ret) \<lparr>hal = st1, tasks = t\<rparr>"
  using assms(3)
proof induction
  case (reachable_init t)
  let ?s0 = "\<lparr>hal = st0, tasks = stack_threads st0\<rparr>"
  have "reachable (system_init E junk) (system_step E H ret) ?s0"
    using assms(1) by (intro reachable.reachable_init) (simp add: system_init_def)
  moreover obtain n where "get_sensors_list E H st0 = Inr (n, Some l, st1)"
    using up unfolding came_up_def by blast
  then have "system_step E H ret ?s0 (?s0\<lparr>hal := st1\<rparr>)" by (intro system_list) simp
  ultimately have "reachable (system_init E junk) (system_step E H ret) (?s0\<lparr>hal := st1\<rparr>)"
    by (rule reachable_step)
  then show ?case using reachable_init by (simp add: came_up_threads [OF up])
next
  case (reachable_step t u)
  have "\<not> queue_mutex_locked st1" using up unfolding came_up_def by (auto dest: listed_tables(3))
  with reachable_step(2) have "system_step E H ret \<lparr>hal = st1, tasks = t\<rparr> (\<lparr>hal = st1, tasks = t\<rparr>\<lparr>tasks := u\<rparr>)"
    by (intro system_thread) simp_all
  with reachable_step(3) have "reachable (system_init E junk) (system_step E H ret) (\<lparr>hal = st1, tasks = t\<rparr>\<lparr>tasks := u\<rparr>)"
    by (rule reachable.reachable_step)
  then show ?case by simp
qed

lemma demo_system:
  obtains r :: "nat \<Rightarrow> (unit, unit) hal_system" and l where
    "run_of (system_init demo_env (\<lambda>_. plain_event 0)) (system_step demo_env android_9 ret) r"
    "weakly_fair (system_reader android_9) r" "global_sensors_list (mh (hal (r 0))) = Some l"
    "map s_handle l = [1, 2]" "written (tasks (r 0)) ! 0 = [plain_event 5]" "returned (tasks (r 0)) = []"
    "\<exists>n. (plain_event 5)\<lparr>ev_sensor := 1\<rparr> \<in> set (returned (tasks (r n)))"
proof -
  obtain st0 l and st1 :: "(unit, unit) hal_process" and r where
    st: "open_sensors demo_env (\<lambda>_. plain_event 0) process_start = Inr (0, st0)"
    "get_sensors_list demo_env android_9 st0 = Inr (2, Some l, st1)"
    and run: "run_of (stack_start st1) (stack_step android_9 st1) r"
    "weakly_fair (reader_progress android_9 (hm (mh st1))) r"
    and first: "written (r 0) ! 0 = [plain_event 5]" "returned (r 0) = []"
    and got: "\<exists>n. (plain_event 5)\<lparr>ev_sensor := 1\<rparr> \<in> set (returned (r n))"
    by (rule demo_stack)
  obtain l' and st1' :: "(unit, unit) hal_process" and st0' where
    up': "open_sensors demo_env (\<lambda>_. plain_event 0) process_start = Inr (0, st0')"
      "came_up demo_env android_9 (\<lambda>_. plain_event 0) (load_modules demo_env [''a'', ''b'']) st0' l' st1'"
    by (rule came_up_exists [OF demo_env_paths demo_env_ok])
  have up: "came_up demo_env android_9 (\<lambda>_. plain_event 0) (load_modules demo_env [''a'', ''b'']) st0 l st1"
    using up' st by (auto simp: came_up_def)
  then have listed: "listed_for demo_env android_9 (\<lambda>_. plain_event 0) (load_modules demo_env [''a'', ''b'']) l st1"
    by (simp add: came_up_def)
  let ?r = "\<lambda>n. \<lparr>hal = st1, tasks = r n\<rparr> :: (unit, unit) hal_system"
  have unlocked: "\<not> queue_mutex_locked st1" by (rule listed_tables(3) [OF demo_env_ok listed])
  have "reachable (system_init demo_env (\<lambda>_. plain_event 0)) (system_step demo_env android_9 ret) (?r 0)"
    by (rule listed_reachable [OF st(1) up run_of_reachable [OF run(1)]])
  moreover have "system_step demo_env android_9 ret (?r n) (?r (Suc n)) \<or> ?r (Suc n) = ?r n" for n
    using run(1) system_thread [of "?r n" android_9 "r (Suc n)" demo_env ret] unlocked
    by (auto simp: run_of_def)
  ultimately have "run_of (system_init demo_env (\<lambda>_. plain_event 0)) (system_step demo_env android_9 ret) ?r"
    by (simp add: run_of_def)
  moreover have "weakly_fair (system_reader android_9) ?r"
    using run(2) unlocked by (fastforce simp: weakly_fair_def system_reader_def)
  moreover have "global_sensors_list (mh st1) = Some l" using listed by (auto elim: listed_forD)
  moreover have "map s_handle l = [1, 2]"
    using came_up_handles [OF up] unfolding demo_rows [symmetric] by (simp add: upt_rec)
  ultimately show thesis using that [of ?r l] first got by simp
qed

section \<open>Closing\<close>

lemma close_devices_calls: "hal_calls (close_devices ret ds s) = hal_calls s @ map (\<lambda>d. Close (dev_id d) (SubDevice (dev_id d))) ds"
  by (induction ds arbitrary: s) (simp_all add: hal_invoke_def)

text \<open>
  Closing the device closes the device of every sub-HAL and deletes the context, but no thread: a writer
  whose queue has room goes on and calls \<open>poll\<close> of the closed device, which the context of its task
  still points to.
\<close>

theorem close_leaves_writers:
  fixes s :: "('p, 'i) hal_system"
  assumes "get_so_paths E = Inr paths" and "ms = load_modules E paths" and "hals_ok E ms"
    and "reachable (system_init E junk) (system_step E H ret) s" and "global_sensors_list (mh (hal s)) \<noteq> None"
    and "i < length ms" and "t_writers (tasks s) ! i = W_Start"
    and "mSize (t_queues (tasks s) ! i) < mCapacity (t_queues (tasks s) ! i)"
    and "d = snd (module_open E (ms ! i))"
  shows "\<exists>v m f n. device_close ret (Some (mh (hal s))) = (v, Some m) \<and> Close (dev_id d) (SubDevice (dev_id d)) \<in> set (hal_calls m)
    \<and> threads_step H (hm (mh (hal s))) (tasks s) ((tasks s)\<lparr>t_writers := (t_writers (tasks s))[i := W_Polling f n]\<rparr>)"
proof -
  obtain st0 l and st1 :: "('p, 'i) hal_process" where st: "open_sensors E junk process_start = Inr (0, st0)"
    and up: "came_up E H junk ms st0 l st1"
    unfolding assms(2) by (rule came_up_exists [OF assms(1) assms(3) [unfolded assms(2)]])
  have run: "system_running E H ms st1 s"
    using system_reachable [OF st up assms(4)] waiting_list [OF up, of s] assms(5) by auto
  have listed: "listed_for E H junk ms l st1" using up by (simp add: came_up_def)
  have reach: "reachable (stack_start st1) (stack_step H st1) (tasks s)" using run by (simp add: system_running_def)
  then have inv: "threads_inv H (hm (mh st1)) (tasks s)"
    using hal_threads.reachable_inv [OF reachable_mono [OF reach]] stack_threads_init(1) [OF listed] by blast
  have len: "i < length (t_queues (tasks s))"
    using reachable_queues [OF reach] stack_threads_init(2) [OF listed] assms(6) by auto
  have "writer_lock (t_queues (tasks s) ! i) = W_Polling (queue_end (t_queues (tasks s) ! i))
      (snd (getWritableRegion (t_queues (tasks s) ! i) SENSOR_EVENT_QUEUE_CAPACITY))"
    using getWritableRegion_eq [OF threads_invD(3) [OF inv len] _ _ assms(8), of SENSOR_EVENT_QUEUE_CAPACITY] assms(8)
    by (simp add: writer_lock_def SENSOR_EVENT_QUEUE_CAPACITY_def)
  with step_lock [of i "tasks s" H "hm (mh (hal s))"] len threads_invD(1) [OF inv] assms(7)
  have "\<exists>f n. threads_step H (hm (mh (hal s))) (tasks s) ((tasks s)\<lparr>t_writers := (t_writers (tasks s))[i := W_Polling f n]\<rparr>)"
    by auto
  moreover have "sub_hw_devices (mh (hal s)) = map (\<lambda>m. snd (module_open E m)) ms"
    using run listed by (auto simp: system_running_def serves_list_def same_shape_def elim: listed_forD)
  then have "Close (dev_id d) (SubDevice (dev_id d)) \<in> set (hal_calls (close_devices ret (sub_hw_devices (mh (hal s))) (mh (hal s))))"
    using assms(6,9) by (auto simp: close_devices_calls)
  ultimately show ?thesis by (auto simp: device_close_def close_def)
qed

end
