(* ===== verification/C_Text.thy ===== *)
theory C_Text
  imports Mozart_Prelude
begin

text \<open>
  The text functions of the C library that the native code uses: character classes, strings that end
  at a null character, decimal numbers as \<open>printf\<close> writes and \<open>scanf\<close> and \<open>strtoul\<close> read them, words,
  and the lines \<open>fgets\<close> gives. All are executable.
\<close>

section \<open>Characters and strings\<close>

text \<open>\<open>isspace\<close> and \<open>isdigit\<close> in the C locale.\<close>

definition c_isspace :: "char \<Rightarrow> bool" where
  "c_isspace c \<longleftrightarrow> (of_char c :: nat) = 32 \<or> 9 \<le> (of_char c :: nat) \<and> (of_char c :: nat) \<le> 13"

definition c_isdigit :: "char \<Rightarrow> bool" where
  "c_isdigit c \<longleftrightarrow> 48 \<le> (of_char c :: nat) \<and> (of_char c :: nat) \<le> 57"

definition newline :: char where
  "newline = CHR 0x0A"

definition carriage_return :: char where
  "carriage_return = CHR 0x0D"

definition nul :: char where
  "nul = CHR 0x00"

text \<open>The string in a character array.\<close>

definition c_str :: "string \<Rightarrow> string" where
  "c_str s = takeWhile (\<lambda>c. c \<noteq> nul) s"

text \<open>\<open>snprintf\<close> into an array of \<open>room\<close> characters keeps one for the null character.\<close>

definition snprintf :: "nat \<Rightarrow> string \<Rightarrow> string" where
  "snprintf room s = take (room - 1) s"

definition starts_with_prefix :: "string \<Rightarrow> string \<Rightarrow> bool" where
  "starts_with_prefix p s \<longleftrightarrow> take (length p) s = p"

section \<open>Numbers\<close>

definition digit :: "nat \<Rightarrow> char" where
  "digit d = char_of (48 + d)"

definition digit_val :: "char \<Rightarrow> nat" where
  "digit_val c = of_char c - 48"

text \<open>\<open>%u\<close> and \<open>%llu\<close> of \<open>printf\<close>.\<close>

fun show_nat :: "nat \<Rightarrow> string" where
  "show_nat n = (if n < 10 then [digit n] else show_nat (n div 10) @ [digit (n mod 10)])"

declare show_nat.simps [simp del]

definition digits_val :: "string \<Rightarrow> nat" where
  "digits_val ds = foldl (\<lambda>a c. 10 * a + digit_val c) 0 ds"

text \<open>White space, an optional sign and digits; the result is the sign, the magnitude and the rest.\<close>

definition scan_number :: "string \<Rightarrow> (bool \<times> nat \<times> string) option" where
  "scan_number s =
     (let s = dropWhile c_isspace s;
          (neg, s) = (case s of c # r \<Rightarrow> if c = CHR ''-'' then (True, r) else if c = CHR ''+'' then (False, r) else (False, s)
                      | [] \<Rightarrow> (False, s));
          ds = takeWhile c_isdigit s
      in if ds = [] then None else Some (neg, digits_val ds, drop (length ds) s))"

text \<open>\<open>%llu\<close> and \<open>strtoul\<close> with 64 bits: a magnitude that does not fit gives the largest value, a sign negates modulo \<open>2 ^ 64\<close>.\<close>

definition scan_u64 :: "string \<Rightarrow> (64 word \<times> string) option" where
  "scan_u64 s = (case scan_number s of None \<Rightarrow> None
     | Some (neg, v, r) \<Rightarrow> Some (if 2 ^ 64 \<le> v then - 1 else if neg then - of_nat v else of_nat v, r))"

text \<open>\<open>%d\<close>: the number is read with 64 bits, saturated, and its low 32 bits are kept.\<close>

definition scan_int :: "string \<Rightarrow> int option" where
  "scan_int s = (case scan_number s of None \<Rightarrow> None
     | Some (neg, v, r) \<Rightarrow> Some (s32 (if neg then max (- (2 ^ 63)) (- int v) else min (2 ^ 63 - 1) (int v))))"

text \<open>\<open>%<n>s\<close>.\<close>

definition scan_word :: "nat \<Rightarrow> string \<Rightarrow> (string \<times> string) option" where
  "scan_word n s =
     (let s = dropWhile c_isspace s; w = take n (takeWhile (\<lambda>c. \<not> c_isspace c) s)
      in if w = [] then None else Some (w, drop (length w) s))"

section \<open>Lines\<close>

text \<open>\<open>fgets\<close> with room for \<open>n\<close> characters besides the null character: up to and with the next newline.\<close>

fun fgets_line :: "nat \<Rightarrow> string \<Rightarrow> string \<times> string" where
  "fgets_line 0 s = ([], s)"
| "fgets_line (Suc n) [] = ([], [])"
| "fgets_line (Suc n) (c # s) =
     (if c = newline then ([c], s) else let (l, r) = fgets_line n s in (c # l, r))"

lemma fgets_line_append: "fgets_line n s = (l, r) \<Longrightarrow> l @ r = s"
  by (induction n s arbitrary: l rule: fgets_line.induct) (auto split: if_splits prod.splits)

lemma fgets_line_progress: "fgets_line (Suc n) (c # s) = (l, r) \<Longrightarrow> length r < Suc (length s)"
  using fgets_line_append [of n s] by (fastforce split: if_splits prod.splits)

text \<open>All lines of a text, read until nothing is left.\<close>

function fgets_all :: "nat \<Rightarrow> string \<Rightarrow> string list" where
  "fgets_all n s = (if s = [] then [] else let (l, r) = fgets_line (Suc n) s in l # fgets_all n r)"
  by auto

termination
proof (relation "measure (\<lambda>(n, s). length s)")
  fix n s x l r
  assume "s \<noteq> []" "x = fgets_line (Suc n) s" "(l, r) = x"
  then show "((n, r), n, s) \<in> measure (\<lambda>(n, s). length s)"
    using fgets_line_progress [of n "hd s" "tl s" l r] by (cases s) auto
qed simp

declare fgets_all.simps [simp del]

section \<open>Reading what was written\<close>

lemma of_char_digit: "d < 10 \<Longrightarrow> (of_char (digit d) :: nat) = 48 + d"
  by (simp add: digit_def)

lemma digit_simps [simp]:
  assumes "d < 10"
  shows "c_isdigit (digit d)" "digit_val (digit d) = d" "\<not> c_isspace (digit d)" "digit d \<noteq> newline"
    "digit d \<noteq> CHR ''-''" "digit d \<noteq> CHR ''+''" "digit d \<noteq> nul"
proof -
  note v = of_char_digit [OF assms]
  show "c_isdigit (digit d)" "digit_val (digit d) = d" "\<not> c_isspace (digit d)"
    using assms by (simp_all add: v c_isdigit_def digit_val_def c_isspace_def)
  have n: "(of_char newline :: nat) = 10" "(of_char nul :: nat) = 0" by (simp_all add: newline_def nul_def)
  show "digit d \<noteq> newline" "digit d \<noteq> nul" "digit d \<noteq> CHR ''-''" "digit d \<noteq> CHR ''+''"
    using v n assms by auto
qed

lemma show_nat_chars: "c \<in> set (show_nat n) \<Longrightarrow> \<exists>d < 10. c = digit d"
proof (induction n rule: show_nat.induct)
  case (1 n)
  then show ?case by (subst (asm) (2) show_nat.simps) (auto split: if_splits intro: exI [of _ "n mod 10"])
qed

lemma show_nat_plain:
  "c \<in> set (show_nat n) \<Longrightarrow> c \<noteq> nul \<and> c \<noteq> newline \<and> \<not> c_isspace c \<and> c_isdigit c"
  by (drule show_nat_chars) auto

lemma show_nat_not_Nil [simp]: "show_nat n \<noteq> []"
  by (subst show_nat.simps) simp

lemma digits_val_snoc: "digits_val (ds @ [c]) = 10 * digits_val ds + digit_val c"
  by (simp add: digits_val_def)

lemma digits_val_show [simp]: "digits_val (show_nat n) = n"
proof (induction n rule: show_nat.induct)
  case (1 n)
  show ?case
  proof (cases "n < 10")
    case True
    then show ?thesis by (subst show_nat.simps) (simp add: digits_val_def)
  next
    case False
    with 1 show ?thesis by (subst show_nat.simps) (simp add: digits_val_snoc)
  qed
qed

lemma takeWhile_show:
  assumes "r = [] \<or> \<not> c_isdigit (hd r)"
  shows "takeWhile c_isdigit (show_nat n @ r) = show_nat n"
proof -
  have "takeWhile c_isdigit r = []" using assms by (cases r) auto
  moreover have "c_isdigit c" if "c \<in> set (show_nat n)" for c using show_nat_chars [OF that] by auto
  ultimately show ?thesis by (simp add: takeWhile_append2)
qed

text \<open>A number written by \<open>printf\<close> is read back, after any white space.\<close>

lemma scan_number_show:
  assumes "\<forall>c \<in> set ws. c_isspace c" and "r = [] \<or> \<not> c_isdigit (hd r)"
  shows "scan_number (ws @ show_nat n @ r) = Some (False, n, r)"
proof -
  obtain c cs where n: "show_nat n = c # cs" by (cases "show_nat n") auto
  obtain d where c: "d < 10" "c = digit d" using show_nat_chars [of c n] n by auto
  have "dropWhile c_isspace (ws @ show_nat n @ r) = show_nat n @ r"
    using assms(1) n c by (simp add: dropWhile_append2)
  then show ?thesis
    using takeWhile_show [OF assms(2), of n] n c digits_val_show [of n]
    by (auto simp: scan_number_def Let_def simp flip: n)
qed

lemma scan_u64_show:
  assumes "\<forall>c \<in> set ws. c_isspace c" and "r = [] \<or> \<not> c_isdigit (hd r)" and "n < 2 ^ 64"
  shows "scan_u64 (ws @ show_nat n @ r) = Some (of_nat n, r)"
  using assms(3) by (simp add: scan_u64_def scan_number_show [OF assms(1,2)])

lemma scan_word_word:
  assumes "w \<noteq> []" and "length w \<le> n" and "\<forall>c \<in> set w. \<not> c_isspace c" and "r = [] \<or> c_isspace (hd r)"
  shows "scan_word n (w @ r) = Some (w, r)"
proof -
  have "takeWhile (\<lambda>c. \<not> c_isspace c) r = []" using assms(4) by (cases r) auto
  then have "takeWhile (\<lambda>c. \<not> c_isspace c) (w @ r) = w"
    using assms(3) by (simp add: takeWhile_append2)
  moreover have "dropWhile c_isspace (w @ r) = w @ r" using assms(1,3) by (cases w) auto
  ultimately show ?thesis using assms(1,2) by (cases n) (simp_all add: scan_word_def Let_def)
qed

text \<open>A line that fits is read in one piece.\<close>

lemma fgets_line_fits:
  "\<forall>c \<in> set l. c \<noteq> newline \<Longrightarrow> length l < n \<Longrightarrow> fgets_line n (l @ newline # r) = (l @ [newline], r)"
proof (induction l arbitrary: n)
  case Nil
  then show ?case by (cases n) auto
next
  case (Cons c l)
  then show ?case by (cases n) auto
qed

lemma fgets_all_line:
  assumes "\<forall>c \<in> set l. c \<noteq> newline" and "length l \<le> n"
  shows "fgets_all n (l @ newline # r) = (l @ [newline]) # fgets_all n r"
proof -
  have "fgets_line (Suc n) (l @ newline # r) = (l @ [newline], r)"
    by (rule fgets_line_fits [OF assms(1)]) (use assms(2) in simp)
  then show ?thesis by (subst fgets_all.simps) simp
qed

lemma fgets_all_lines:
  assumes "\<forall>l \<in> set ls. (\<forall>c \<in> set l. c \<noteq> newline) \<and> length l \<le> n"
  shows "fgets_all n (concat (map (\<lambda>l. l @ [newline]) ls) @ r) = map (\<lambda>l. l @ [newline]) ls @ fgets_all n r"
  using assms
proof (induction ls)
  case Nil
  then show ?case by simp
next
  case (Cons l ls)
  then show ?case using fgets_all_line [of l n "concat (map (\<lambda>l. l @ [newline]) ls) @ r"] by simp
qed

end
