(* ===== verification/Mac_Addr.thy ===== *)
theory Mac_Addr
  imports C_Text
begin

text \<open>
  The MAC address service, \<open>macaddr/mac_addr_normalization.cpp\<close>: it makes sure that the Bluetooth and
  the Wi-Fi address files hold a usable address, runs a vendor helper when one does not, and
  otherwise generates a random locally administered address and installs it atomically. The theory
  characterises the accepted texts exactly, shows that generated addresses are always accepted, that
  a file is replaced completely or not at all, and what the exit status says about the files.
\<close>

unbundle bit_operations_syntax

section \<open>System calls\<close>

text \<open>
  The outcome of one system call: an error with its number, a transfer of at most so many bytes, or
  complete success. A script gives the outcomes of the successive calls; calls after its end succeed.
  What a successful call does is its documented effect on the files, which are flat here.
\<close>

datatype outcome = Fail int | Partial nat | Complete

definition EINTR :: int where "EINTR = 4"

definition ENOENT :: int where "ENOENT = 2"

definition EEXIST :: int where "EEXIST = 17"

record mac_file =
  f_content :: string
  f_mode :: nat
  f_uid :: int
  f_gid :: int

record mac_world =
  files :: "string \<rightharpoonup> mac_file"
  random_bytes :: "nat \<Rightarrow> 8 word"
  random_pos :: nat
  script :: "outcome list"

definition next_outcome :: "mac_world \<Rightarrow> outcome \<times> mac_world" where
  "next_outcome w = (case script w of [] \<Rightarrow> (Complete, w) | r # rs \<Rightarrow> (r, w\<lparr>script := rs\<rparr>))"

text \<open>A call that only succeeds or fails, with its effect on success.\<close>

definition sys_call :: "(mac_world \<Rightarrow> mac_world) \<Rightarrow> mac_world \<Rightarrow> int option \<times> mac_world" where
  "sys_call effect w =
     (case next_outcome w of
        (Fail e, w) \<Rightarrow> (Some e, w)
      | (_, w) \<Rightarrow> (None, effect w))"

definition transferred :: "nat \<Rightarrow> outcome \<Rightarrow> nat" where
  "transferred sz r = (case r of Partial k \<Rightarrow> min k sz | _ \<Rightarrow> sz)"

definition sys_read_random :: "nat \<Rightarrow> mac_world \<Rightarrow> (int + 8 word list) \<times> mac_world" where
  "sys_read_random sz w =
     (case next_outcome w of
        (Fail e, w) \<Rightarrow> (Inl e, w)
      | (r, w) \<Rightarrow>
          (Inr (map (\<lambda>i. random_bytes w (random_pos w + i)) [0..<transferred sz r]),
           w\<lparr>random_pos := random_pos w + transferred sz r\<rparr>))"

definition sys_read_file :: "string \<Rightarrow> nat \<Rightarrow> mac_world \<Rightarrow> (int + string) \<times> mac_world" where
  "sys_read_file content sz w =
     (case next_outcome w of
        (Fail e, w) \<Rightarrow> (Inl e, w)
      | (r, w) \<Rightarrow> (Inr (take (transferred sz r) content), w))"

definition sys_write :: "string \<Rightarrow> string \<Rightarrow> mac_world \<Rightarrow> (int + nat) \<times> mac_world" where
  "sys_write path bytes w =
     (case next_outcome w of
        (Fail e, w) \<Rightarrow> (Inl e, w)
      | (r, w) \<Rightarrow>
          (Inr (transferred (length bytes) r),
           w\<lparr>files := (files w)(path := map_option (\<lambda>f. f\<lparr>f_content :=
               f_content f @ take (transferred (length bytes) r) bytes\<rparr>) (files w path))\<rparr>))"

definition sys_open_read :: "string \<Rightarrow> mac_world \<Rightarrow> (int + string) \<times> mac_world" where
  "sys_open_read path w =
     (case sys_call id w of
        (Some e, w) \<Rightarrow> (Inl e, w)
      | (None, w) \<Rightarrow> (case files w path of None \<Rightarrow> (Inl ENOENT, w) | Some f \<Rightarrow> (Inr (f_content f), w)))"

definition sys_create :: "string \<Rightarrow> nat \<Rightarrow> mac_world \<Rightarrow> int option \<times> mac_world" where
  "sys_create path mode w =
     (case sys_call id w of
        (Some e, w) \<Rightarrow> (Some e, w)
      | (None, w) \<Rightarrow>
          (if files w path \<noteq> None then (Some EEXIST, w)
           else (None, w\<lparr>files := (files w)(path \<mapsto>
             \<lparr>f_content = [], f_mode = mode, f_uid = 0, f_gid = 0\<rparr>)\<rparr>)))"

definition sys_unlink :: "string \<Rightarrow> mac_world \<Rightarrow> int option \<times> mac_world" where
  "sys_unlink path w =
     (case sys_call id w of
        (Some e, w) \<Rightarrow> (Some e, w)
      | (None, w) \<Rightarrow>
          (if files w path = None then (Some ENOENT, w)
           else (None, w\<lparr>files := (files w)(path := None)\<rparr>)))"

definition sys_rename :: "string \<Rightarrow> string \<Rightarrow> mac_world \<Rightarrow> int option \<times> mac_world" where
  "sys_rename old new =
     sys_call (\<lambda>w. w\<lparr>files := (files w)(new := files w old, old := None)\<rparr>)"

definition sys_fchmod :: "string \<Rightarrow> nat \<Rightarrow> mac_world \<Rightarrow> int option \<times> mac_world" where
  "sys_fchmod path mode =
     sys_call (\<lambda>w. w\<lparr>files := (files w)(path := map_option (\<lambda>f. f\<lparr>f_mode := mode\<rparr>) (files w path))\<rparr>)"

definition sys_fchown :: "string \<Rightarrow> int \<Rightarrow> int \<Rightarrow> mac_world \<Rightarrow> int option \<times> mac_world" where
  "sys_fchown path uid gid =
     sys_call (\<lambda>w. w\<lparr>files := (files w)(path :=
       map_option (\<lambda>f. f\<lparr>f_uid := uid, f_gid := gid\<rparr>) (files w path))\<rparr>)"

lemma next_outcome_simps:
  "files (snd (next_outcome w)) = files w"
  "length (script (snd (next_outcome w))) \<le> length (script w)"
  by (simp_all add: next_outcome_def split: list.split)

lemma next_outcome_progress:
  "next_outcome w = (r, w') \<Longrightarrow> length (script w') < length (script w) \<or> r = Complete \<and> w' = w"
  by (auto simp: next_outcome_def split: list.splits)

section \<open>Reading and writing fully\<close>

function ReadFully :: "nat \<Rightarrow> mac_world \<Rightarrow> 8 word list option \<times> mac_world" where
  "ReadFully sz w =
     (if sz = 0 then (Some [], w)
      else case sys_read_random sz w of
             (Inl e, w') \<Rightarrow> (if e = EINTR then ReadFully sz w' else (None, w'))
           | (Inr bytes, w') \<Rightarrow>
               (if bytes = [] then (None, w')
                else case ReadFully (sz - length bytes) w' of
                       (None, w'') \<Rightarrow> (None, w'')
                     | (Some rest, w'') \<Rightarrow> (Some (bytes @ rest), w'')))"
  by pat_completeness auto

termination
proof (relation "measure (\<lambda>(sz, w). length (script w) + sz)", goal_cases)
  case 1
  show ?case by simp
next
  case (2 sz w r w' e)
  then show ?case
    by (auto simp: sys_read_random_def split: prod.splits outcome.splits dest!: next_outcome_progress)
next
  case (3 sz w r w' bytes)
  then show ?case
    by (auto simp: sys_read_random_def transferred_def split: prod.splits outcome.splits
        dest!: next_outcome_progress)
qed

declare ReadFully.simps [simp del]

function WriteFully :: "string \<Rightarrow> string \<Rightarrow> mac_world \<Rightarrow> bool \<times> mac_world" where
  "WriteFully path bytes w =
     (if bytes = [] then (True, w)
      else case sys_write path bytes w of
             (Inl e, w') \<Rightarrow> (if e = EINTR then WriteFully path bytes w' else (False, w'))
           | (Inr count, w') \<Rightarrow> WriteFully path (drop count bytes) w')"
  by pat_completeness auto

termination
proof (relation "measure (\<lambda>(path, bytes, w). length (script w) + length bytes)", goal_cases)
  case 1
  show ?case by simp
next
  case (2 path bytes w r w' e)
  then show ?case
    by (auto simp: sys_write_def split: prod.splits outcome.splits dest!: next_outcome_progress)
next
  case (3 path bytes w r w' count)
  then show ?case
    by (auto simp: sys_write_def transferred_def split: prod.splits outcome.splits
        dest!: next_outcome_progress)
qed

declare WriteFully.simps [simp del]

text \<open>
  The same loop when the outcomes never end: \<open>out n\<close> is the outcome of the \<open>n\<close>-th call. Nothing in
  the code bounds the number of retries, so the result is \<^const>\<open>None\<close> when the loop runs for
  ever; otherwise it comes with the number of the next outcome.
\<close>

definition write_with :: "outcome \<Rightarrow> string \<Rightarrow> string \<Rightarrow> mac_world \<Rightarrow> (int + nat) \<times> mac_world" where
  "write_with r path bytes w =
     (case r of
        Fail e \<Rightarrow> (Inl e, w)
      | _ \<Rightarrow>
          (Inr (transferred (length bytes) r),
           w\<lparr>files := (files w)(path := map_option (\<lambda>f. f\<lparr>f_content :=
               f_content f @ take (transferred (length bytes) r) bytes\<rparr>) (files w path))\<rparr>))"

partial_function (option) WriteFully_on :: "(nat \<Rightarrow> outcome) \<Rightarrow> nat \<Rightarrow> string \<Rightarrow> string \<Rightarrow> mac_world
    \<Rightarrow> (bool \<times> nat \<times> mac_world) option" where
  "WriteFully_on out n path bytes w =
     (if bytes = [] then Some (True, n, w)
      else case write_with (out n) path bytes w of
             (Inl e, w') \<Rightarrow>
               (if e = EINTR then WriteFully_on out (Suc n) path bytes w' else Some (False, Suc n, w'))
           | (Inr count, w') \<Rightarrow> WriteFully_on out (Suc n) path (drop count bytes) w')"

section \<open>Texts and addresses\<close>

text \<open>\<open>tolower\<close> in the C locale.\<close>

definition c_tolower :: "char \<Rightarrow> char" where
  "c_tolower c = (if 65 \<le> (of_char c :: nat) \<and> (of_char c :: nat) \<le> 90
     then char_of (of_char c + 32 :: nat) else c)"

definition HexValue :: "char \<Rightarrow> int" where
  "HexValue value0 =
     (if of_char CHR ''0'' \<le> (of_char value0 :: nat) \<and> (of_char value0 :: nat) \<le> of_char CHR ''9''
      then int (of_char value0) - int (of_char CHR ''0'')
      else let value0 = c_tolower value0
           in if of_char CHR ''a'' \<le> (of_char value0 :: nat) \<and> (of_char value0 :: nat) \<le> of_char CHR ''f''
              then int (of_char value0) - int (of_char CHR ''a'') + 10
              else -1)"

text \<open>The loop of \<open>ParseMac\<close>; the address is written as far as the text is understood.\<close>

function parse_octets :: "string \<Rightarrow> nat \<Rightarrow> 8 word list \<Rightarrow> bool \<times> 8 word list" where
  "parse_octets str index address =
     (if length address \<le> index then (True, address)
      else let offset = index * 3;
               high = HexValue (str ! offset);
               low = HexValue (str ! (offset + 1))
           in if high < 0 \<or> low < 0 \<or> (index < length address - 1 \<and> str ! (offset + 2) \<noteq> CHR '':'')
              then (False, address)
              else parse_octets str (index + 1)
                     (address[index := word_of_int (or (push_bit 4 high) low)]))"
  by pat_completeness auto
termination by (relation "measure (\<lambda>(_, index, address). length address - index)") auto

declare parse_octets.simps [simp del]

definition ParseMac :: "string \<Rightarrow> 8 word list \<Rightarrow> bool \<times> 8 word list" where
  "ParseMac str address =
     (if length str \<noteq> 17 then (False, address)
      else case parse_octets str 0 address of
             (False, address) \<Rightarrow> (False, address)
           | (True, address) \<Rightarrow>
               (let all_zero = foldl (\<lambda>b v. b \<and> v = 0) True address;
                    all_ff = foldl (\<lambda>b v. b \<and> v = 0xff) True address
                in (\<not> all_zero \<and> \<not> all_ff \<and> (address ! 0) AND 0x01 = 0, address)))"

text \<open>\<open>snprintf\<close> with \<open>%02X\<close> for one octet, and the format of \<open>StoreMac\<close>.\<close>

definition upper_hex :: "nat \<Rightarrow> char" where
  "upper_hex n = char_of (if n < 10 then 48 + n else 55 + n)"

definition format_octet :: "8 word \<Rightarrow> string" where
  "format_octet w = [upper_hex (unat w div 16), upper_hex (unat w mod 16)]"

definition format_mac :: "8 word list \<Rightarrow> string" where
  "format_mac a = format_octet (a ! 0) @ '':'' @ format_octet (a ! 1) @ '':'' @ format_octet (a ! 2)
     @ '':'' @ format_octet (a ! 3) @ '':'' @ format_octet (a ! 4) @ '':'' @ format_octet (a ! 5)"

section \<open>The operations of the service\<close>

function read_retry :: "string \<Rightarrow> nat \<Rightarrow> mac_world \<Rightarrow> string option \<times> mac_world" where
  "read_retry content sz w =
     (case sys_read_file content sz w of
        (Inl e, w') \<Rightarrow> (if e = EINTR then read_retry content sz w' else (None, w'))
      | (Inr bytes, w') \<Rightarrow> (Some bytes, w'))"
  by pat_completeness auto
termination
  by (relation "measure (\<lambda>(_, _, w). length (script w))")
    (auto simp: sys_read_file_def split: prod.splits outcome.splits dest!: next_outcome_progress)

declare read_retry.simps [simp del]

definition trim_back :: "string \<Rightarrow> string" where
  "trim_back str = rev (dropWhile c_isspace (rev str))"

definition HasValidMac :: "string \<Rightarrow> mac_world \<Rightarrow> bool \<times> mac_world" where
  "HasValidMac path w =
     (case sys_open_read path w of
        (Inl e, w) \<Rightarrow> (False, w)
      | (Inr content, w) \<Rightarrow>
          (let (count, w) = read_retry content 32 w;
               (_, w) = sys_call id w
           in case count of
                None \<Rightarrow> (False, w)
              | Some buffer \<Rightarrow>
                  (if buffer = [] then (False, w)
                   else (fst (ParseMac (trim_back buffer) (replicate 6 0)), w))))"

definition GenerateMac :: "mac_world \<Rightarrow> 8 word list option \<times> mac_world" where
  "GenerateMac w =
     (case sys_call id w of
        (Some e, w) \<Rightarrow> (None, w)
      | (None, w) \<Rightarrow>
          (let (success, w) = ReadFully 6 w;
               (_, w) = sys_call id w
           in case success of
                None \<Rightarrow> (None, w)
              | Some address \<Rightarrow> (Some (address[0 := ((address ! 0) AND 0xfe) OR 0x02]), w)))"

text \<open>The calls between creating and closing the temporary file, stopping at the first failure.\<close>

definition fill_temporary :: "string \<Rightarrow> int \<Rightarrow> int \<Rightarrow> string \<Rightarrow> mac_world \<Rightarrow> bool \<times> mac_world" where
  "fill_temporary temporary uid gid str w =
     (case sys_fchmod temporary 0x1b0 w of
        (Some e, w) \<Rightarrow> (False, w)
      | (None, w) \<Rightarrow>
          (case sys_fchown temporary uid gid w of
             (Some e, w) \<Rightarrow> (False, w)
           | (None, w) \<Rightarrow>
               (case WriteFully temporary str w of
                  (False, w) \<Rightarrow> (False, w)
                | (True, w) \<Rightarrow>
                    (case sys_call id w of (Some e, w) \<Rightarrow> (False, w) | (None, w) \<Rightarrow> (True, w)))))"

definition StoreMac :: "string \<Rightarrow> int \<Rightarrow> int \<Rightarrow> mac_world \<Rightarrow> bool \<times> mac_world" where
  "StoreMac path uid gid w =
     (case GenerateMac w of
        (None, w) \<Rightarrow> (False, w)
      | (Some address, w) \<Rightarrow>
          (let str = format_mac address
           in if length str \<noteq> 17 then (False, w)
              else let temporary = path @ ''.tmp'';
                       (removed, w) = sys_unlink temporary w
                   in if removed \<noteq> None \<and> removed \<noteq> Some ENOENT then (False, w)
                      else case sys_create temporary 0x1b0 w of
                             (Some e, w) \<Rightarrow> (False, w)
                           | (None, w) \<Rightarrow>
                               (let (success, w) = fill_temporary temporary uid gid str w;
                                    (closed, w) = sys_call id w;
                                    success = (success \<and> closed = None)
                                in if \<not> success then (False, snd (sys_unlink temporary w))
                                   else case sys_rename temporary path w of
                                          (Some e, w) \<Rightarrow> (False, snd (sys_unlink temporary w))
                                        | (None, w) \<Rightarrow> (True, w))))"

definition EnsureMac :: "string \<Rightarrow> int \<Rightarrow> int \<Rightarrow> mac_world \<Rightarrow> bool \<times> mac_world" where
  "EnsureMac path uid gid w =
     (case HasValidMac path w of
        (True, w) \<Rightarrow> (True, w)
      | (False, w) \<Rightarrow> StoreMac path uid gid w)"

text \<open>
  The vendor helper is another program: \<open>helper\<close> is what the program at a path does to the files. Its exit status is only
  logged.
\<close>

function wait_child :: "mac_world \<Rightarrow> mac_world" where
  "wait_child w =
     (case script w of
        Fail e # rest \<Rightarrow> (if e = EINTR then wait_child (w\<lparr>script := rest\<rparr>) else w\<lparr>script := rest\<rparr>)
      | _ \<Rightarrow> snd (next_outcome w))"
  by pat_completeness auto
termination by (relation "measure (\<lambda>w. length (script w))") auto

declare wait_child.simps [simp del]

type_synonym helper = "string \<Rightarrow> (string \<rightharpoonup> mac_file) \<Rightarrow> (string \<rightharpoonup> mac_file)"

definition kVendorHelper :: string where
  "kVendorHelper = ''/vendor/bin/mac_addr_normalization_vendor''"

definition RunVendorHelper :: "helper \<Rightarrow> mac_world \<Rightarrow> mac_world" where
  "RunVendorHelper helper w =
     (case sys_call (\<lambda>w. w\<lparr>files := helper kVendorHelper (files w)\<rparr>) w of
        (Some e, w) \<Rightarrow> w
      | (None, w) \<Rightarrow> wait_child w)"

definition kBluetoothPath :: string where
  "kBluetoothPath = ''/data/misc/bluedroid/macbt''"

definition kWifiPath :: string where
  "kWifiPath = ''/data/misc/wifi/macwifi''"

definition kSystemUid :: int where "kSystemUid = 1000"

definition kBluetoothUid :: int where "kBluetoothUid = 1002"

definition kBluetoothGid :: int where "kBluetoothGid = 1002"

definition kWifiGid :: int where "kWifiGid = 1010"

definition mac_main :: "helper \<Rightarrow> mac_world \<Rightarrow> int \<times> mac_world" where
  "mac_main helper w =
     (let (bluetooth_has, w) = HasValidMac kBluetoothPath w;
          (wifi_has, w) = (if bluetooth_has then HasValidMac kWifiPath w else (True, w));
          w = (if \<not> bluetooth_has \<or> \<not> wifi_has then RunVendorHelper helper w else w);
          (bluetooth_ok, w) = EnsureMac kBluetoothPath kBluetoothUid kBluetoothGid w;
          (wifi_ok, w) = EnsureMac kWifiPath kSystemUid kWifiGid w
      in (if bluetooth_ok \<and> wifi_ok then 0 else 1, w))"

section \<open>Reading a text and printing an address\<close>

definition mac_valid :: "8 word list \<Rightarrow> bool" where
  "mac_valid a \<longleftrightarrow> a \<noteq> replicate 6 0 \<and> a \<noteq> replicate 6 0xff \<and> (a ! 0) AND 1 = 0"

definition c_toupper :: "char \<Rightarrow> char" where
  "c_toupper c = (if 97 \<le> (of_char c :: nat) \<and> (of_char c :: nat) \<le> 122
     then char_of (of_char c - 32 :: nat) else c)"

lemma of_char_char_of: "n < 256 \<Longrightarrow> (of_char (char_of n :: char) :: nat) = n"
  by simp

lemma of_char_less: "(of_char (c :: char) :: nat) < 256"
  using range_nat_of_char by (metis atLeastLessThan_iff rangeI)

lemma of_char_eq: "(c :: char) = d \<longleftrightarrow> (of_char c :: nat) = of_char d"
  by simp

lemma HexValue_cases:
  "HexValue c = (let n = of_char c in
     if 48 \<le> n \<and> n \<le> 57 then int n - 48
     else if 65 \<le> n \<and> n \<le> 70 then int n - 55
     else if 97 \<le> n \<and> n \<le> 102 then int n - 87 else -1)"
  by (auto simp: HexValue_def c_tolower_def Let_def)

lemma of_char_upper_hex: "n < 16 \<Longrightarrow> (of_char (upper_hex n) :: nat) = (if n < 10 then 48 + n else 55 + n)"
  by (simp add: upper_hex_def)

lemma of_char_toupper:
  "(of_char (c_toupper c) :: nat) = (let n = of_char c in if 97 \<le> n \<and> n \<le> 122 then n - 32 else n)"
  using of_char_less [of c] by (auto simp: c_toupper_def Let_def)

lemma HexValue_eq_iff: "n < 16 \<Longrightarrow> HexValue c = int n \<longleftrightarrow> c_toupper c = upper_hex n"
  unfolding of_char_eq of_char_toupper HexValue_cases
  by (auto simp: of_char_upper_hex Let_def)

lemma HexValue_bound: "HexValue c < 16" "- 1 \<le> HexValue c"
  by (auto simp: HexValue_cases Let_def)

lemma toupper_colon: "c_toupper c = CHR '':'' \<longleftrightarrow> c = CHR '':''"
  unfolding of_char_eq of_char_toupper by (auto simp: Let_def)

lemma nibbles_or:
  assumes "0 \<le> h" and "h < 16" and "0 \<le> l" and "l < (16 :: int)"
  shows "or (push_bit 4 h) l = 16 * h + l"
proof -
  have "\<forall>h \<in> set [0..15]. \<forall>l \<in> set [0..15]. or (push_bit 4 h) l = 16 * h + (l :: int)"
    by code_simp
  with assms show ?thesis by simp
qed

lemma div_mod_split:
  assumes "0 \<le> (u :: int)" and "l < 16"
  shows "h = u div 16 \<and> l = u mod 16 \<longleftrightarrow> 0 \<le> h \<and> 0 \<le> l \<and> u = 16 * h + l"
proof
  assume "h = u div 16 \<and> l = u mod 16"
  then show "0 \<le> h \<and> 0 \<le> l \<and> u = 16 * h + l"
    using assms(1) by (simp add: pos_imp_zdiv_nonneg_iff)
qed (use assms(2) in auto)

lemma octet_iff:
  "c_toupper h = upper_hex (unat w div 16) \<and> c_toupper l = upper_hex (unat w mod 16)
    \<longleftrightarrow> 0 \<le> HexValue h \<and> 0 \<le> HexValue l
      \<and> w = word_of_int (or (push_bit 4 (HexValue h)) (HexValue l))" for w :: "8 word"
proof -
  have w: "unat w < 256" using unsigned_less [of w] by simp
  have "c_toupper h = upper_hex (unat w div 16) \<longleftrightarrow> HexValue h = int (unat w div 16)"
    "c_toupper l = upper_hex (unat w mod 16) \<longleftrightarrow> HexValue l = int (unat w mod 16)"
    using w by (subst HexValue_eq_iff; simp)+
  moreover have "HexValue h = int (unat w div 16) \<and> HexValue l = int (unat w mod 16)
      \<longleftrightarrow> 0 \<le> HexValue h \<and> 0 \<le> HexValue l \<and> uint w = 16 * HexValue h + HexValue l"
    using div_mod_split [OF uint_ge_0 HexValue_bound(1), of "HexValue h" w l]
    by (simp add: zdiv_int zmod_int)
  moreover have "uint w = 16 * HexValue h + HexValue l
      \<longleftrightarrow> w = word_of_int (or (push_bit 4 (HexValue h)) (HexValue l))"
    if "0 \<le> HexValue h" "0 \<le> HexValue l"
  proof -
    have "uint (word_of_int (16 * HexValue h + HexValue l) :: 8 word) = 16 * HexValue h + HexValue l"
      by (subst uint_word_of_int) (use that HexValue_bound [of h] HexValue_bound [of l] in simp)
    then show ?thesis
      unfolding nibbles_or [OF that(1) HexValue_bound(1) that(2) HexValue_bound(1)] word_uint_eq_iff
      by simp
  qed
  ultimately show ?thesis by blast
qed

lemma length_17:
  assumes "length str = 17"
  obtains c0 c1 c2 c3 c4 c5 c6 c7 c8 c9 c10 c11 c12 c13 c14 c15 c16
  where "str = [c0, c1, c2, c3, c4, c5, c6, c7, c8, c9, c10, c11, c12, c13, c14, c15, c16]"
  using assms by (auto simp: eval_nat_numeral length_Suc_conv)

lemma length_6:
  assumes "length a = 6"
  obtains a0 a1 a2 a3 a4 a5 where "a = [a0, a1, a2, a3, a4, a5]"
  using assms by (auto simp: eval_nat_numeral length_Suc_conv)

lemma length_format_mac [simp]: "length (format_mac a) = 17"
  by (simp add: format_mac_def format_octet_def)

lemma parse_octets_length: "length (snd (parse_octets str i a)) = length a"
  by (induction str i a rule: parse_octets.induct) (subst parse_octets.simps, simp add: Let_def)

lemma parse_octets_iff:
  assumes "length str = 17" and "length addr = 6"
  shows "parse_octets str 0 addr = (True, a) \<longleftrightarrow> length a = 6 \<and> map c_toupper str = format_mac a"
proof (cases "length a = 6")
  case True
  obtain c0 c1 c2 c3 c4 c5 c6 c7 c8 c9 c10 c11 c12 c13 c14 c15 c16
    where str: "str = [c0, c1, c2, c3, c4, c5, c6, c7, c8, c9, c10, c11, c12, c13, c14, c15, c16]"
    using length_17 [OF assms(1)] by blast
  obtain b0 b1 b2 b3 b4 b5 where addr: "addr = [b0, b1, b2, b3, b4, b5]"
    using length_6 [OF assms(2)] by blast
  obtain a0 a1 a2 a3 a4 a5 where a: "a = [a0, a1, a2, a3, a4, a5]"
    using length_6 [OF True] by blast
  have "map c_toupper str = format_mac a \<longleftrightarrow>
      (c_toupper c0 = upper_hex (unat a0 div 16) \<and> c_toupper c1 = upper_hex (unat a0 mod 16)) \<and> c2 = CHR '':''
    \<and> (c_toupper c3 = upper_hex (unat a1 div 16) \<and> c_toupper c4 = upper_hex (unat a1 mod 16)) \<and> c5 = CHR '':''
    \<and> (c_toupper c6 = upper_hex (unat a2 div 16) \<and> c_toupper c7 = upper_hex (unat a2 mod 16)) \<and> c8 = CHR '':''
    \<and> (c_toupper c9 = upper_hex (unat a3 div 16) \<and> c_toupper c10 = upper_hex (unat a3 mod 16)) \<and> c11 = CHR '':''
    \<and> (c_toupper c12 = upper_hex (unat a4 div 16) \<and> c_toupper c13 = upper_hex (unat a4 mod 16)) \<and> c14 = CHR '':''
    \<and> (c_toupper c15 = upper_hex (unat a5 div 16) \<and> c_toupper c16 = upper_hex (unat a5 mod 16))"
    by (simp add: str a format_mac_def format_octet_def toupper_colon)
  then show ?thesis
    unfolding octet_iff str addr a
    by (simp add: parse_octets.simps Let_def not_less numeral_2_eq_2 numeral_3_eq_3) blast
next
  case False
  with parse_octets_length [of str 0 addr] assms(2) show ?thesis by auto
qed

lemma ParseMac_iff:
  assumes "length addr = 6"
  shows "ParseMac str addr = (True, a) \<longleftrightarrow>
    length a = 6 \<and> mac_valid a \<and> map c_toupper str = format_mac a"
proof (cases "length str = 17")
  case True
  have valid: "\<not> foldl (\<lambda>b v. b \<and> v = 0) True b \<and> \<not> foldl (\<lambda>b v. b \<and> v = 0xff) True b
      \<and> (b ! 0) AND 1 = 0 \<longleftrightarrow> mac_valid b" if "length b = 6" for b :: "8 word list"
    by (rule length_6 [OF that]) (simp add: mac_valid_def eval_nat_numeral)
  obtain ok b where parse: "parse_octets str 0 addr = (ok, b)" by fastforce
  have "length b = 6" using parse_octets_length [of str 0 addr] assms by (simp add: parse)
  with valid [OF this] parse_octets_iff [OF True assms, of a] parse_octets_iff [OF True assms, of b]
  show ?thesis by (cases ok) (auto simp: ParseMac_def True parse Let_def)
next
  case False
  have "length str = 17" if "map c_toupper str = format_mac a"
    using arg_cong [OF that, of length] by simp
  with False show ?thesis by (auto simp: ParseMac_def)
qed

text \<open>What the installed text needs to be read back.\<close>

definition mac_text_ok :: "string \<Rightarrow> bool" where
  "mac_text_ok buffer \<longleftrightarrow> fst (ParseMac (trim_back buffer) (replicate 6 0))"

lemma mac_text_ok_iff:
  "mac_text_ok buffer \<longleftrightarrow>
    (\<exists>a. length a = 6 \<and> mac_valid a \<and> map c_toupper (trim_back buffer) = format_mac a)"
proof -
  have "mac_text_ok buffer \<longleftrightarrow> (\<exists>a. ParseMac (trim_back buffer) (replicate 6 0) = (True, a))"
    unfolding mac_text_ok_def by (cases "ParseMac (trim_back buffer) (replicate 6 0)") auto
  then show ?thesis by (simp add: ParseMac_iff)
qed

lemma toupper_upper_hex: "n < 16 \<Longrightarrow> c_toupper (upper_hex n) = upper_hex n"
  unfolding of_char_eq of_char_toupper by (simp add: of_char_upper_hex Let_def)

lemma not_space_upper_hex: "n < 16 \<Longrightarrow> \<not> c_isspace (upper_hex n)"
  by (simp add: c_isspace_def of_char_upper_hex)

lemma unat_octet: "unat (w :: 8 word) div 16 < 16"
proof -
  have "unat w < 256" using unsigned_less [of w] by simp
  then show ?thesis by simp
qed

lemma toupper_format_mac: "map c_toupper (format_mac a) = format_mac a"
  by (simp add: format_mac_def format_octet_def toupper_upper_hex unat_octet toupper_colon [THEN iffD2])

lemma trim_format_mac: "trim_back (format_mac a) = format_mac a"
  by (simp add: trim_back_def format_mac_def format_octet_def not_space_upper_hex)

lemma mac_text_ok_format: "length a = 6 \<Longrightarrow> mac_valid a \<Longrightarrow> mac_text_ok (format_mac a)"
  by (auto simp: mac_text_ok_iff trim_format_mac toupper_format_mac)

lemma local_unicast_valid:
  assumes "length a = 6" and "(a ! 0) AND 3 = 2"
  shows "mac_valid a"
proof -
  have "(a ! 0) AND 1 = ((a ! 0) AND 3) AND 1"
    by (simp add: and.assoc)
  then have "(a ! 0) AND 1 = 0" by (simp add: assms(2))
  moreover have "a \<noteq> replicate 6 0" "a \<noteq> replicate 6 0xff"
    using assms(2) by auto
  ultimately show ?thesis by (simp add: mac_valid_def)
qed

lemma fallback_bits: "((b AND 0xfe) OR 0x02) AND 3 = (2 :: 8 word)"
proof -
  have "((b AND 0xfe) OR 0x02) AND 3 = (b AND (0xfe AND 3)) OR (0x02 AND 3)"
    by (simp only: and.assoc bit.conj_disj_distrib2)
  also have "\<dots> = (b AND 2) OR 2" by simp
  also have "\<dots> = 2" by (rule bit_word_eqI) (auto simp: bit_simps)
  finally show ?thesis .
qed

section \<open>Effects of the operations on the files\<close>

lemma sys_call_cases:
  assumes "sys_call f w = (r, w')"
  obtains w1 where "files w1 = files w" "random_bytes w1 = random_bytes w"
    "r = None \<and> w' = f w1 \<or> r \<noteq> None \<and> w' = w1"
proof -
  obtain out w1 where n: "next_outcome w = (out, w1)" by fastforce
  then have "files w1 = files w" "random_bytes w1 = random_bytes w"
    by (auto simp: next_outcome_def split: list.splits)
  moreover have "r = None \<and> w' = f w1 \<or> r \<noteq> None \<and> w' = w1"
    using assms n by (auto simp: sys_call_def split: outcome.splits)
  ultimately show ?thesis by (rule that)
qed

lemma files_sys_call_id: "files (snd (sys_call id w)) = files w"
  by (auto simp: sys_call_def next_outcome_def split: list.splits outcome.splits)

lemma ReadFully_files: "files (snd (ReadFully sz w)) = files w"
proof (induction sz w rule: ReadFully.induct)
  case (1 sz w)
  have read: "files (snd (sys_read_random sz w)) = files w"
    by (auto simp: sys_read_random_def next_outcome_def split: list.splits outcome.splits)
  show ?case
    using 1 read
    by (subst ReadFully.simps) (auto split: prod.splits sum.splits option.splits)
qed

lemma ReadFully_length: "fst (ReadFully sz w) = Some bytes \<Longrightarrow> length bytes = sz"
proof (induction sz w arbitrary: bytes rule: ReadFully.induct)
  case (1 sz w)
  have read: "length b \<le> sz" if "fst (sys_read_random sz w) = Inr b" for b
    using that by (auto simp: sys_read_random_def transferred_def split: prod.splits outcome.splits)
  show ?case
  proof (cases "sz = 0")
    case True
    with 1(3) show ?thesis by (simp add: ReadFully.simps)
  next
    case False
    obtain r w1 where r: "sys_read_random sz w = (r, w1)" by fastforce
    show ?thesis
    proof (cases r)
      case (Inl e)
      with 1(1) [OF False] 1(3) r False show ?thesis
        by (auto simp: ReadFully.simps [of sz w] split: if_splits)
    next
      case (Inr b)
      with 1(3) r False obtain rest where "b \<noteq> []" "fst (ReadFully (sz - length b) w1) = Some rest"
        "bytes = b @ rest"
        by (auto simp: ReadFully.simps [of sz w] split: if_splits prod.splits option.splits)
      with 1(2) [OF False r [symmetric] Inr] read [of b] r Inr show ?thesis by auto
    qed
  qed
qed

lemma WriteFully_files:
  "files w path = Some f \<Longrightarrow> WriteFully path bytes w = (ok, w') \<Longrightarrow>
    \<exists>k. files w' = (files w)(path \<mapsto> f\<lparr>f_content := f_content f @ take k bytes\<rparr>)
      \<and> (ok \<longrightarrow> take k bytes = bytes)"
proof (induction path bytes w arbitrary: f rule: WriteFully.induct)
  case (1 path bytes w)
  show ?case
  proof (cases "bytes = []")
    case True
    with 1(3,4) show ?thesis by (auto simp: WriteFully.simps fun_upd_idem)
  next
    case False
    show ?thesis
    proof (cases "fst (sys_write path bytes w)")
      case (Inl e)
      then obtain w1 where wr: "sys_write path bytes w = (Inl e, w1)" "files w1 = files w"
        by (auto simp: sys_write_def next_outcome_def split: list.splits outcome.splits)
      show ?thesis
      proof (cases "e = EINTR")
        case True
        with 1(4) False wr have "WriteFully path bytes w1 = (ok, w')"
          by (subst (asm) WriteFully.simps) simp
        with 1(1) [OF False wr(1) [symmetric] refl, of f] wr(2) 1(3) True show ?thesis by auto
      next
        case False
        with 1(4) \<open>bytes \<noteq> []\<close> wr have "w' = w1 \<and> \<not> ok"
          by (subst (asm) WriteFully.simps) simp
        with wr(2) 1(3) show ?thesis by (intro exI [of _ 0]) (auto simp: fun_upd_idem)
      qed
    next
      case (Inr n)
      then obtain w1 where wr: "sys_write path bytes w = (Inr n, w1)"
        "files w1 = (files w)(path \<mapsto> f\<lparr>f_content := f_content f @ take n bytes\<rparr>)"
        using 1(3) by (auto simp: sys_write_def next_outcome_def split: list.splits outcome.splits)
      let ?f = "f\<lparr>f_content := f_content f @ take n bytes\<rparr>"
      have run: "WriteFully path (drop n bytes) w1 = (ok, w')"
        using 1(4) False wr by (subst (asm) WriteFully.simps) simp
      have "files w1 path = Some ?f" by (simp add: wr(2))
      from 1(2) [OF False wr(1) [symmetric] refl this run] obtain k
        where "files w' = (files w1)(path \<mapsto> ?f\<lparr>f_content := f_content ?f @ take k (drop n bytes)\<rparr>)"
        "ok \<longrightarrow> take k (drop n bytes) = drop n bytes"
        by blast
      then show ?thesis
        by (intro exI [of _ "n + k"]) (simp add: wr(2) take_add)
    qed
  qed
qed

lemma GenerateMac_result:
  assumes "GenerateMac w = (r, w')"
  shows "files w' = files w \<and> (\<forall>a. r = Some a \<longrightarrow> length a = 6 \<and> (a ! 0) AND 3 = 2)"
proof -
  obtain e w1 where opened: "sys_call id w = (e, w1)" by fastforce
  obtain b w2 where read: "ReadFully 6 w1 = (b, w2)" by fastforce
  have "files w2 = files w"
    using files_sys_call_id [of w] ReadFully_files [of 6 w1] by (simp add: opened read)
  moreover have "length a = 6" if "b = Some a" for a
    using ReadFully_length [of 6 w1 a] that by (simp add: read)
  ultimately show ?thesis
    using assms files_sys_call_id [of w2] files_sys_call_id [of w]
    by (cases e; cases b) (auto simp: GenerateMac_def opened read fallback_bits split: prod.splits)
qed

lemma sys_fchmod_files:
  assumes "sys_fchmod path mode w = (r, w')" and "files w path = Some f"
  shows "\<exists>f'. files w' = (files w)(path \<mapsto> f') \<and> f_content f' = f_content f
    \<and> (r = None \<longrightarrow> f' = f\<lparr>f_mode := mode\<rparr>)"
  by (rule sys_call_cases [OF assms(1) [unfolded sys_fchmod_def]])
    (use assms(2) map_upd_triv [of "files w" path f, symmetric] in \<open>auto intro: exI [of _ f]\<close>)

lemma sys_fchown_files:
  assumes "sys_fchown path uid gid w = (r, w')" and "files w path = Some f"
  shows "\<exists>f'. files w' = (files w)(path \<mapsto> f') \<and> f_content f' = f_content f
    \<and> (r = None \<longrightarrow> f' = f\<lparr>f_uid := uid, f_gid := gid\<rparr>)"
  by (rule sys_call_cases [OF assms(1) [unfolded sys_fchown_def]])
    (use assms(2) map_upd_triv [of "files w" path f, symmetric] in \<open>auto intro: exI [of _ f]\<close>)

lemma fill_temporary_files:
  assumes "fill_temporary path uid gid str w = (ok, w')" and "files w path = Some f"
    and "f_content f = []"
  shows "\<exists>f'. files w' = (files w)(path \<mapsto> f')
    \<and> (ok \<longrightarrow> f' = \<lparr>f_content = str, f_mode = 0x1b0, f_uid = uid, f_gid = gid\<rparr>)"
proof -
  obtain e1 w1 where c1: "sys_fchmod path 0x1b0 w = (e1, w1)" by fastforce
  obtain e2 w2 where c2: "sys_fchown path uid gid w1 = (e2, w2)" by fastforce
  obtain ok3 w3 where c3: "WriteFully path str w2 = (ok3, w3)" by fastforce
  obtain e4 w4 where c4: "sys_call id w3 = (e4, w4)" by fastforce
  obtain f1 where f1: "files w1 = (files w)(path \<mapsto> f1)" "f_content f1 = []"
    "e1 = None \<longrightarrow> f1 = f\<lparr>f_mode := 0x1b0\<rparr>"
    using sys_fchmod_files [OF c1 assms(2)] assms(3) by auto
  obtain f2 where f2: "files w2 = (files w)(path \<mapsto> f2)" "f_content f2 = []"
    "e2 = None \<longrightarrow> f2 = f1\<lparr>f_uid := uid, f_gid := gid\<rparr>"
    using sys_fchown_files [OF c2, of f1] f1 by (auto simp: fun_upd_upd)
  have "files w2 path = Some f2" by (simp add: f2(1))
  from WriteFully_files [OF this c3] obtain k where f3:
    "files w3 = (files w)(path \<mapsto> f2\<lparr>f_content := take k str\<rparr>)" "ok3 \<longrightarrow> take k str = str"
    by (auto simp: f2(1,2))
  have f4: "files w4 = files w3" using files_sys_call_id [of w3] by (simp add: c4)
  show ?thesis
    using assms(1) f1 f2 f3 f4 assms(3)
    by (cases e1; cases e2; cases ok3; cases e4)
      (auto simp: fill_temporary_def c1 c2 c3 c4 intro: mac_file.equality)
qed

lemma sys_unlink_files:
  "files (snd (sys_unlink path w)) = (if fst (sys_unlink path w) = None then (files w)(path := None) else files w)"
  by (auto simp: sys_unlink_def sys_call_def next_outcome_def split: list.splits outcome.splits)

lemma sys_create_files:
  assumes "sys_create path mode w = (r, w')"
  shows "(r \<noteq> None \<longrightarrow> files w' = files w)
    \<and> (r = None \<longrightarrow> files w path = None
         \<and> files w' = (files w)(path \<mapsto> \<lparr>f_content = [], f_mode = mode, f_uid = 0, f_gid = 0\<rparr>))"
  using assms
  by (auto simp: sys_create_def sys_call_def next_outcome_def split: list.splits outcome.splits if_splits)

lemma sys_rename_files:
  assumes "sys_rename old new w = (r, w')"
  shows "files w' = (if r = None then (files w)(new := files w old, old := None) else files w)"
  by (rule sys_call_cases [OF assms [unfolded sys_rename_def]]) auto

text \<open>The two ways \<open>StoreMac\<close> ends, seen on the files.\<close>

lemma store_tail:
  fixes path :: string and str :: string
  defines "tmp \<equiv> path @ ''.tmp''"
  assumes "files w tmp = Some f" and "f_content f = []"
    and run: "(let (success, w) = fill_temporary tmp uid gid str w;
                 (closed, w) = sys_call id w;
                 success = (success \<and> closed = None)
             in if \<not> success then (False, snd (sys_unlink tmp w))
                else case sys_rename tmp path w of
                       (Some e, w) \<Rightarrow> (False, snd (sys_unlink tmp w))
                     | (None, w) \<Rightarrow> (True, w)) = (ok, w')"
  shows "(\<forall>p. p \<noteq> path \<and> p \<noteq> tmp \<longrightarrow> files w' p = files w p)
    \<and> (\<not> ok \<longrightarrow> files w' path = files w path)
    \<and> (ok \<longrightarrow> files w' tmp = None
        \<and> files w' path = Some \<lparr>f_content = str, f_mode = 0x1b0, f_uid = uid, f_gid = gid\<rparr>)"
proof -
  obtain ok4 w4 where c4: "fill_temporary tmp uid gid str w = (ok4, w4)" by fastforce
  obtain e5 w5 where c5: "sys_call id w4 = (e5, w5)" by fastforce
  obtain e6 w6 where c6: "sys_rename tmp path w5 = (e6, w6)" by fastforce
  obtain f4 where f4: "files w4 = (files w)(tmp \<mapsto> f4)"
    "ok4 \<longrightarrow> f4 = \<lparr>f_content = str, f_mode = 0x1b0, f_uid = uid, f_gid = gid\<rparr>"
    using fill_temporary_files [OF c4 assms(2,3)] by auto
  have f5: "files w5 = files w4" using files_sys_call_id [of w4] by (simp add: c5)
  have f6: "files w6 = (if e6 = None then (files w5)(path := files w5 tmp, tmp := None) else files w5)"
    by (rule sys_rename_files [OF c6])
  have undo: "files (snd (sys_unlink tmp v)) p = files v p" if "p \<noteq> tmp" for v p
    using that by (simp add: sys_unlink_files)
  from run have "(ok, w') = (if \<not> (ok4 \<and> e5 = None) then (False, snd (sys_unlink tmp w5))
      else if e6 = None then (True, w6) else (False, snd (sys_unlink tmp w6)))"
    by (cases e6) (auto simp: c4 c5 c6 split: if_splits)
  moreover have "path \<noteq> tmp" by (simp add: tmp_def)
  ultimately show ?thesis
    using f4(2) by (auto simp: undo f4(1) f5 f6 split: if_splits)
qed

lemma StoreMac_result:
  assumes "StoreMac path uid gid w = (ok, w')"
  shows "(\<forall>p. p \<noteq> path \<and> p \<noteq> path @ ''.tmp'' \<longrightarrow> files w' p = files w p)
    \<and> (\<not> ok \<longrightarrow> files w' path = files w path)
    \<and> (ok \<longrightarrow> files w' (path @ ''.tmp'') = None
        \<and> (\<exists>a. length a = 6 \<and> (a ! 0) AND 3 = 2 \<and> files w' path =
             Some \<lparr>f_content = format_mac a, f_mode = 0x1b0, f_uid = uid, f_gid = gid\<rparr>))"
proof -
  let ?tmp = "path @ ''.tmp''"
  obtain r w1 where c1: "GenerateMac w = (r, w1)" by fastforce
  note g = GenerateMac_result [OF c1]
  show ?thesis
  proof (cases r)
    case None
    with assms g show ?thesis by (simp add: StoreMac_def c1)
  next
    case (Some a)
    obtain e2 w2 where c2: "sys_unlink ?tmp w1 = (e2, w2)" by fastforce
    obtain e3 w3 where c3: "sys_create ?tmp 0x1b0 w2 = (e3, w3)" by fastforce
    note f3 = sys_create_files [OF c3]
    have o2: "files w2 p = files w p" "files w3 p = files w p" if "p \<noteq> ?tmp" for p
      using that sys_unlink_files [of ?tmp w1] f3 g by (cases e3; simp add: c2)+
    show ?thesis
    proof (cases "(e2 \<noteq> None \<and> e2 \<noteq> Some ENOENT) \<or> e3 \<noteq> None")
      case True
      then have "(ok, w') = (False, w2) \<or> (ok, w') = (False, w3)"
        using assms by (cases e3) (auto simp: StoreMac_def c1 Some c2 c3 Let_def split: if_splits)
      with o2 show ?thesis by auto
    next
      case False
      then have created: "files w3 ?tmp = Some \<lparr>f_content = [], f_mode = 0x1b0, f_uid = 0, f_gid = 0\<rparr>"
        using f3 by simp
      have "(let (success, w) = fill_temporary ?tmp uid gid (format_mac a) w3;
                 (closed, w) = sys_call id w;
                 success = (success \<and> closed = None)
             in if \<not> success then (False, snd (sys_unlink ?tmp w))
                else case sys_rename ?tmp path w of
                       (Some e, w) \<Rightarrow> (False, snd (sys_unlink ?tmp w))
                     | (None, w) \<Rightarrow> (True, w)) = (ok, w')"
        using assms False by (auto simp: StoreMac_def c1 Some c2 c3 Let_def)
      from store_tail [OF created _ this] o2 g Some show ?thesis by auto
    qed
  qed
qed

lemma read_retry_result:
  "read_retry content sz w = (r, w')
    \<Longrightarrow> files w' = files w \<and> (\<forall>b. r = Some b \<longrightarrow> (\<exists>n \<le> sz. b = take n content))"
proof (induction content sz w rule: read_retry.induct)
  case (1 content sz w)
  show ?case
  proof (cases "sys_read_file content sz w")
    case (Pair out w1)
    then have same: "files w1 = files w" and part: "\<forall>b. out = Inr b \<longrightarrow> (\<exists>n \<le> sz. b = take n content)"
      by (auto simp: sys_read_file_def next_outcome_def transferred_def
          split: list.splits outcome.splits) (metis min.cobounded2)
    show ?thesis
    proof (cases out)
      case (Inl e)
      with 1 Pair same show ?thesis
        by (cases "e = EINTR") (auto simp: read_retry.simps [of content sz w])
    next
      case (Inr b)
      with 1(2) Pair same part show ?thesis by (auto simp: read_retry.simps [of content sz w])
    qed
  qed
qed

definition mac_file_ok :: "(string \<rightharpoonup> mac_file) \<Rightarrow> string \<Rightarrow> bool" where
  "mac_file_ok fs path \<longleftrightarrow> (\<exists>f n. fs path = Some f \<and> mac_text_ok (take n (f_content f)))"

lemma HasValidMac_result:
  assumes "HasValidMac path w = (ok, w')"
  shows "files w' = files w \<and> (ok \<longrightarrow> mac_file_ok (files w) path)"
proof -
  obtain r w1 where opened: "sys_open_read path w = (r, w1)" by fastforce
  then have f1: "files w1 = files w"
    and content: "\<forall>c. r = Inr c \<longrightarrow> (\<exists>f. files w path = Some f \<and> f_content f = c)"
    by (auto simp: sys_open_read_def sys_call_def next_outcome_def
        split: list.splits outcome.splits option.splits)
  show ?thesis
  proof (cases r)
    case (Inl e)
    with assms f1 show ?thesis by (simp add: HasValidMac_def opened)
  next
    case (Inr c)
    obtain b w2 where read: "read_retry c 32 w1 = (b, w2)" by fastforce
    obtain e w3 where closed: "sys_call id w2 = (e, w3)" by fastforce
    have same: "files w3 = files w"
      using read_retry_result [OF read] files_sys_call_id [of w2] f1 by (simp add: closed)
    show ?thesis
    proof (cases b)
      case None
      with assms same show ?thesis by (simp add: HasValidMac_def opened Inr read closed)
    next
      case (Some buf)
      then obtain n where n: "buf = take n c" using read_retry_result [OF read] by auto
      have "(ok, w') = (buf \<noteq> [] \<and> mac_text_ok buf, w3)"
        using assms by (auto simp: HasValidMac_def opened Inr read closed Some mac_text_ok_def split: if_splits)
      with same content Inr n show ?thesis by (auto simp: mac_file_ok_def)
    qed
  qed
qed

lemma stored_file_ok:
  assumes "length a = 6" and "(a ! 0) AND 3 = 2" and "fs path = Some f" and "f_content f = format_mac a"
  shows "mac_file_ok fs path"
  unfolding mac_file_ok_def using assms mac_text_ok_format [OF assms(1) local_unicast_valid [OF assms(1,2)]]
  by (intro exI [of _ f] exI [of _ 17]) simp

lemma EnsureMac_result:
  assumes "EnsureMac path uid gid w = (ok, w')"
  shows "(\<forall>p. p \<noteq> path \<and> p \<noteq> path @ ''.tmp'' \<longrightarrow> files w' p = files w p)
    \<and> (ok \<longrightarrow> mac_file_ok (files w') path)"
proof -
  obtain has w1 where has: "HasValidMac path w = (has, w1)" by fastforce
  note h = HasValidMac_result [OF has]
  show ?thesis
  proof (cases has)
    case True
    with assms h show ?thesis by (simp add: EnsureMac_def has)
  next
    case False
    with assms have "StoreMac path uid gid w1 = (ok, w')" by (simp add: EnsureMac_def has)
    note st = StoreMac_result [OF this]
    have "mac_file_ok (files w') path" if "ok"
    proof -
      from st that obtain a where a: "length a = 6" "(a ! 0) AND 3 = 2"
        "files w' path = Some \<lparr>f_content = format_mac a, f_mode = 0x1b0, f_uid = uid, f_gid = gid\<rparr>"
        by blast
      from stored_file_ok [where fs = "files w'" and path = path, OF this] show ?thesis by simp
    qed
    with st h show ?thesis by simp
  qed
qed

section \<open>Runs without faults\<close>

text \<open>A world in which no system call fails, is interrupted or transfers less than asked.\<close>

lemma no_fault_next: "script w = [] \<Longrightarrow> next_outcome w = (Complete, w)"
  by (simp add: next_outcome_def)

lemma no_fault_call: "script w = [] \<Longrightarrow> sys_call f w = (None, f w)"
  by (simp add: sys_call_def no_fault_next)

lemmas no_fault = no_fault_next no_fault_call transferred_def

lemma no_fault_has:
  "script w = [] \<Longrightarrow> HasValidMac path w =
    ((case files w path of None \<Rightarrow> False | Some f \<Rightarrow> mac_text_ok (take 32 (f_content f))), w)"
  by (auto simp: HasValidMac_def sys_open_read_def read_retry.simps sys_read_file_def no_fault
      mac_text_ok_def trim_back_def ParseMac_def split: option.split)

lemma no_fault_store:
  assumes "script w = []"
  shows "fst (StoreMac path uid gid w) \<and> script (snd (StoreMac path uid gid w)) = []"
proof -
  obtain a w1 where g: "GenerateMac w = (Some a, w1)" "script w1 = []"
    using assms by (simp add: GenerateMac_def no_fault ReadFully.simps sys_read_random_def)
  have unlink: "(fst (sys_unlink p w) = None \<or> fst (sys_unlink p w) = Some ENOENT)
      \<and> script (snd (sys_unlink p w)) = [] \<and> files (snd (sys_unlink p w)) p = None"
    if "script w = []" for p w
    using that by (auto simp: sys_unlink_def no_fault)
  let ?tmp = "path @ ''.tmp''"
  obtain e2 w2 where c2: "sys_unlink ?tmp w1 = (e2, w2)" by fastforce
  with unlink [OF g(2), of ?tmp] have w2: "e2 = None \<or> e2 = Some ENOENT" "script w2 = []" "files w2 ?tmp = None"
    by simp_all
  have "\<exists>w3. sys_create ?tmp 0x1b0 w2 = (None, w3) \<and> script w3 = []"
    using w2 by (simp add: sys_create_def no_fault)
  then obtain w3 where c3: "sys_create ?tmp 0x1b0 w2 = (None, w3)" "script w3 = []" by blast
  have nonempty: "format_mac a \<noteq> []"
    using length_format_mac [of a] by (metis list.size(3) zero_neq_numeral)
  have "\<exists>w4. fill_temporary ?tmp uid gid (format_mac a) w3 = (True, w4) \<and> script w4 = []"
    using c3(2) by (simp add: fill_temporary_def sys_fchmod_def sys_fchown_def no_fault sys_write_def
        WriteFully.simps [of _ "format_mac a"] WriteFully.simps [of _ "[]"] nonempty)
  then obtain w4 where c4: "fill_temporary ?tmp uid gid (format_mac a) w3 = (True, w4)" "script w4 = []"
    by blast
  show ?thesis
    using w2(1) by (auto simp: StoreMac_def g c2 c3(1) c4 Let_def no_fault sys_rename_def)
qed

lemma no_fault_ensure:
  assumes "script w = []"
  shows "fst (EnsureMac path uid gid w) \<and> script (snd (EnsureMac path uid gid w)) = []"
  using assms no_fault_store [OF assms, of path uid gid]
  by (auto simp: EnsureMac_def no_fault_has split: bool.split)

lemma no_fault_main:
  assumes "script w = []"
  shows "fst (mac_main helper w) = 0"
    and "fst (HasValidMac kBluetoothPath w) \<and> fst (HasValidMac kWifiPath w) \<Longrightarrow> snd (mac_main helper w) = w"
proof -
  let ?w1 = "if fst (HasValidMac kBluetoothPath w) \<and> fst (HasValidMac kWifiPath w) then w
    else RunVendorHelper helper w"
  have has: "snd (HasValidMac p w) = w" for p
    using assms by (simp add: no_fault_has)
  have w1: "script ?w1 = []"
    using assms by (auto simp: RunVendorHelper_def no_fault wait_child.simps)
  let ?b = "EnsureMac kBluetoothPath kBluetoothUid kBluetoothGid ?w1"
  have run: "mac_main helper w = (let (wifi_ok, w) = EnsureMac kWifiPath kSystemUid kWifiGid (snd ?b)
      in (if fst ?b \<and> wifi_ok then 0 else 1, w))"
    by (simp add: mac_main_def Let_def case_prod_beta has)
  show "fst (mac_main helper w) = 0"
    unfolding run using no_fault_ensure [OF w1] no_fault_ensure [of "snd ?b"]
    by (simp add: case_prod_beta)
  assume valid: "fst (HasValidMac kBluetoothPath w) \<and> fst (HasValidMac kWifiPath w)"
  have ensure: "EnsureMac p u g w = (True, w)" if "fst (HasValidMac p w)" for p u g
    using that by (simp add: EnsureMac_def has case_prod_beta split: bool.split)
  show "snd (mac_main helper w) = w"
    unfolding run using valid by (simp add: ensure)
qed

lemma WriteFully_no_error:
  "files w path = Some f \<Longrightarrow> \<forall>e. Fail e \<in> set (script w) \<longrightarrow> e = EINTR
    \<Longrightarrow> fst (WriteFully path bytes w)"
proof (induction path bytes w arbitrary: f rule: WriteFully.induct)
  case (1 path bytes w)
  show ?case
  proof (cases "bytes = []")
    case True
    then show ?thesis by (simp add: WriteFully.simps)
  next
    case False
    obtain r w1 where wr: "sys_write path bytes w = (r, w1)" by fastforce
    obtain out w0 where out: "next_outcome w = (out, w0)" by fastforce
    have w0: "set (script w0) \<subseteq> set (script w)" "files w0 = files w"
      "Fail e = out \<Longrightarrow> Fail e \<in> set (script w)" for e
      using out by (auto simp: next_outcome_def split: list.splits)
    have later: "\<forall>e. Fail e \<in> set (script w0) \<longrightarrow> e = EINTR" using 1(4) w0(1) by blast
    show ?thesis
    proof (cases out)
      case (Fail e)
      then have "e = EINTR" using w0(3) [of e] 1(4) by blast
      moreover have step: "sys_write path bytes w = (Inl e, w0)" by (simp add: sys_write_def out Fail)
      ultimately show ?thesis
        using 1(1) [OF False step [symmetric] refl, of f] 1(3) w0(2) later False
        by (simp add: WriteFully.simps [of path bytes w])
    next
      case (Partial k)
      then show ?thesis
        using 1(2) [OF False wr [symmetric]] wr 1(3) w0(2) later False
        by (auto simp: WriteFully.simps [of path bytes w] sys_write_def out)
    next
      case Complete
      then show ?thesis
        using 1(2) [OF False wr [symmetric]] wr 1(3) w0(2) later False
        by (auto simp: WriteFully.simps [of path bytes w] sys_write_def out)
    qed
  qed
qed

text \<open>A world for the witnesses: the Wi-Fi file holds an address in small letters, the other is missing.\<close>

definition demo_world :: mac_world where
  "demo_world = \<lparr>files = [kWifiPath \<mapsto> \<lparr>f_content = ''02:1a:2B:00:00:ff'' @ [CHR 0x0A], f_mode = 0x1b0,
       f_uid = 1000, f_gid = 1010\<rparr>],
     random_bytes = (\<lambda>n. of_nat n), random_pos = 0, script = []\<rparr>"

section \<open>Properties\<close>

text \<open>
  C21: \<open>ParseMac\<close> accepts exactly the texts of six two-digit hexadecimal octets, in large or small
  letters and separated by colons, whose address is neither zero nor broadcast nor multicast, and
  returns that address; so what \<open>StoreMac\<close> prints is read back as the address printed.
\<close>

theorem ParseMac_exact:
  assumes "length addr = 6"
  shows "(ParseMac str addr = (True, a) \<longleftrightarrow>
      length a = 6 \<and> mac_valid a \<and> map c_toupper str = format_mac a)
    \<and> (length a = 6 \<and> mac_valid a \<longrightarrow> ParseMac (format_mac a) addr = (True, a))"
  using ParseMac_iff [OF assms] by (simp add: toupper_format_mac)

theorem ParseMac_exact_witness:
  "ParseMac (format_mac [2, 26, 43, 0, 0, 255]) (replicate 6 0) = (True, [2, 26, 43, 0, 0, 255])
   \<and> \<not> fst (ParseMac ''01:1a:2b:00:00:ff'' (replicate 6 0))"
proof -
  have six: "length (replicate 6 (0 :: 8 word)) = 6" by simp
  have "mac_valid [2, 26, 43, 0, 0, 255]" by code_simp
  then have "ParseMac (format_mac [2, 26, 43, 0, 0, 255]) (replicate 6 0) = (True, [2, 26, 43, 0, 0, 255])"
    using ParseMac_exact [OF six, of "format_mac [2, 26, 43, 0, 0, 255]" "[2, 26, 43, 0, 0, 255]"] by simp
  moreover have "\<not> fst (ParseMac ''01:1a:2b:00:00:ff'' (replicate 6 0))" by code_simp
  ultimately show ?thesis by blast
qed

text \<open>
  C19: \<open>StoreMac\<close> is atomic, whichever of its system calls fail, are interrupted or come back short. It
  changes no file but its target and its temporary file. When it fails, the target is as before. When it
  succeeds, the target is the complete text of a locally administered unicast address with mode 0660
  and the owner asked for, no temporary file is left, and reading the target gives a valid address.
\<close>

theorem StoreMac_atomic:
  assumes "StoreMac path uid gid w = (ok, w')"
  shows "(\<forall>p. p \<noteq> path \<and> p \<noteq> path @ ''.tmp'' \<longrightarrow> files w' p = files w p)
    \<and> (\<not> ok \<longrightarrow> files w' path = files w path)
    \<and> (ok \<longrightarrow> files w' (path @ ''.tmp'') = None
        \<and> (\<exists>a. length a = 6 \<and> (a ! 0) AND 3 = 2 \<and> files w' path =
             Some \<lparr>f_content = format_mac a, f_mode = 0x1b0, f_uid = uid, f_gid = gid\<rparr>)
        \<and> fst (HasValidMac path (w'\<lparr>script := []\<rparr>)))"
proof -
  note st = StoreMac_result [OF assms]
  have "fst (HasValidMac path (w'\<lparr>script := []\<rparr>))" if ok
  proof -
    from st that obtain a where a: "length a = 6" "(a ! 0) AND 3 = 2"
      "files w' path = Some \<lparr>f_content = format_mac a, f_mode = 0x1b0, f_uid = uid, f_gid = gid\<rparr>"
      by blast
    then show ?thesis
      by (simp add: no_fault_has mac_text_ok_format local_unicast_valid)
  qed
  with st show ?thesis by blast
qed

theorem StoreMac_atomic_witness:
  "\<exists>w'. StoreMac kBluetoothPath 1002 1002 (demo_world\<lparr>script := [Complete, Partial 2, Fail 5]\<rparr>) = (False, w')
     \<and> files w' kBluetoothPath = None"
proof -
  let ?w = "demo_world\<lparr>script := [Complete, Partial 2, Fail 5]\<rparr>"
  have "\<exists>w'. StoreMac kBluetoothPath 1002 1002 ?w = (False, w')"
    by (simp add: StoreMac_def GenerateMac_def sys_call_def next_outcome_def demo_world_def
        ReadFully.simps [of 6] ReadFully.simps [of 4] sys_read_random_def transferred_def EINTR_def)
  then obtain w' where "StoreMac kBluetoothPath 1002 1002 ?w = (False, w')" by blast
  with StoreMac_atomic [OF this] show ?thesis
    by (simp add: demo_world_def kWifiPath_def kBluetoothPath_def)
qed

text \<open>
  C20: the exit status can be trusted. When the program returns 0, whatever the helper did and whichever
  calls failed on the way, both files exist and hold a text whose read gives a valid address.
\<close>

theorem mac_main_success:
  assumes "mac_main helper w = (0, w')"
  shows "mac_file_ok (files w') kBluetoothPath \<and> mac_file_ok (files w') kWifiPath"
proof -
  obtain w0 b w1 where "EnsureMac kBluetoothPath kBluetoothUid kBluetoothGid w0 = (b, w1)"
    and rest: "(let (wifi_ok, w) = EnsureMac kWifiPath kSystemUid kWifiGid w1
       in (if b \<and> wifi_ok then 0 else (1 :: int), w)) = (0, w')"
    using assms by (auto simp: mac_main_def Let_def split: prod.splits)
  moreover obtain v where v: "EnsureMac kWifiPath kSystemUid kWifiGid w1 = (v, w')" "b" "v"
    using rest by (auto simp: Let_def split: prod.splits if_splits)
  ultimately have "mac_file_ok (files w1) kBluetoothPath" "mac_file_ok (files w') kWifiPath"
    and same: "files w' kBluetoothPath = files w1 kBluetoothPath"
    using EnsureMac_result [of kBluetoothPath kBluetoothUid kBluetoothGid w0 b w1]
      EnsureMac_result [OF v(1)]
    by (auto simp: kBluetoothPath_def kWifiPath_def)
  then show ?thesis by (simp add: mac_file_ok_def same)
qed

theorem mac_main_success_witness:
  "mac_file_ok (files (snd (mac_main (\<lambda>_. id) demo_world))) kBluetoothPath"
proof -
  have "script demo_world = []" by (simp add: demo_world_def)
  from no_fault_main(1) [OF this, of "\<lambda>_. id"] have "mac_main (\<lambda>_. id) demo_world = (0, snd (mac_main (\<lambda>_. id) demo_world))"
    by (metis prod.collapse)
  from mac_main_success [OF this] show ?thesis by blast
qed

text \<open>
  Without faults the program always succeeds, and when both files are valid it changes nothing and
  does not run the helper.
\<close>

theorem mac_main_no_faults:
  assumes "script w = []"
  shows "fst (mac_main helper w) = 0
    \<and> (fst (HasValidMac kBluetoothPath w) \<and> fst (HasValidMac kWifiPath w) \<longrightarrow> snd (mac_main helper w) = w)"
  using no_fault_main [OF assms] by blast

theorem mac_main_no_faults_witness: "fst (mac_main (\<lambda>_ _. Map.empty) demo_world) = 0"
  using mac_main_no_faults [of demo_world "\<lambda>_ _. Map.empty"] by (simp add: demo_world_def)

section \<open>When writing ends\<close>

text \<open>An outcome that lets the loop go on, and how many bytes it takes off at most.\<close>

fun goes_on :: "outcome \<Rightarrow> bool" where
  "goes_on (Fail e) \<longleftrightarrow> e = EINTR"
| "goes_on (Partial j) \<longleftrightarrow> True"
| "goes_on Complete \<longleftrightarrow> False"

fun amount :: "outcome \<Rightarrow> nat" where
  "amount (Partial j) = j"
| "amount _ = 0"

definition hard_error :: "outcome \<Rightarrow> bool" where
  "hard_error r \<longleftrightarrow> (case r of Fail e \<Rightarrow> e \<noteq> EINTR | _ \<Rightarrow> False)"

lemma hard_error_simps [simp]:
  "hard_error (Fail e) \<longleftrightarrow> e \<noteq> EINTR" "\<not> hard_error (Partial j)" "\<not> hard_error Complete"
  by (simp_all add: hard_error_def)

lemma sum_amount_Suc: "(\<Sum>i < Suc k. amount (out (n + i))) = amount (out n) + (\<Sum>i < k. amount (out (Suc n + i)))"
  using sum.lessThan_Suc_shift [of "\<lambda>i. amount (out (n + i))" k] by simp

lemma all_from_Suc:
  "Suc n \<le> m \<Longrightarrow> (\<forall>i. n \<le> i \<and> i < m \<longrightarrow> P i) \<longleftrightarrow> P n \<and> (\<forall>i. Suc n \<le> i \<and> i < m \<longrightarrow> P i)"
  by (metis Suc_leD Suc_le_eq le_eq_less_or_eq)

text \<open>The end of the loop seen from one round earlier.\<close>

lemma stops_Suc:
  assumes "\<exists>k. \<not> goes_on (out (Suc n + k)) \<or> sz - count \<le> (\<Sum>i < Suc k. amount (out (Suc n + i)))"
    and "count \<le> amount (out n)"
  shows "\<exists>k. \<not> goes_on (out (n + k)) \<or> sz \<le> (\<Sum>i < Suc k. amount (out (n + i)))"
proof -
  obtain k where "\<not> goes_on (out (Suc n + k)) \<or> sz - count \<le> (\<Sum>i < Suc k. amount (out (Suc n + i)))"
    using assms(1) ..
  then have "\<not> goes_on (out (n + Suc k)) \<or> sz \<le> (\<Sum>i < Suc (Suc k). amount (out (n + i)))"
    unfolding sum_amount_Suc [of out n "Suc k"] using assms(2) by auto
  then show ?thesis ..
qed

text \<open>What the file is like after one call, and after all of them.\<close>

lemma write_with_appends:
  assumes "files w path = Some f" and "write_with r path bytes w = (Inr count, w')"
  shows "files w' = (files w)(path \<mapsto> f\<lparr>f_content := f_content f @ take count bytes\<rparr>)"
    and "count = (if r = Complete then length bytes else min (amount r) (length bytes))" and "\<not> hard_error r"
  using assms by (auto simp: write_with_def transferred_def split: outcome.splits)

lemma write_with_error: "write_with r path bytes w = (Inl e, w') \<longleftrightarrow> r = Fail e \<and> w' = w"
  by (auto simp: write_with_def split: outcome.splits)

text \<open>A call that returns: what it has written, and why it stopped.\<close>

definition written_fully :: "(nat \<Rightarrow> outcome) \<Rightarrow> nat \<Rightarrow> string \<Rightarrow> string \<Rightarrow> mac_world \<Rightarrow> mac_file \<Rightarrow> bool \<times> nat \<times> mac_world \<Rightarrow> bool" where
  "written_fully out n path bytes w f r \<longleftrightarrow> (case r of (ok, m, w') \<Rightarrow> n \<le> m
     \<and> (\<exists>j \<le> length bytes. files w' = (files w)(path \<mapsto> f\<lparr>f_content := f_content f @ take j bytes\<rparr>)
          \<and> (ok \<longrightarrow> j = length bytes))
     \<and> (ok \<longleftrightarrow> (\<forall>i. n \<le> i \<and> i < m \<longrightarrow> \<not> hard_error (out i)))
     \<and> (bytes = [] \<or> (\<exists>k. \<not> goes_on (out (n + k)) \<or> length bytes \<le> (\<Sum>i < Suc k. amount (out (n + i))))))"

lemma written_fully_more:
  assumes "files w path = Some f" and "write_with (out n) path bytes w = (Inr count, w1)"
    and "written_fully out (Suc n) path (drop count bytes) w1 (f\<lparr>f_content := f_content f @ take count bytes\<rparr>) (ok, m, w')"
  shows "written_fully out n path bytes w f (ok, m, w')"
proof -
  note one = write_with_appends [OF assms(1,2)]
  obtain j where m: "Suc n \<le> m" and j: "j \<le> length bytes - count" "ok \<longrightarrow> j = length bytes - count"
    and f: "files w' = (files w1)(path \<mapsto> f\<lparr>f_content := f_content f @ take count bytes @ take j (drop count bytes)\<rparr>)"
    and ok: "ok \<longleftrightarrow> (\<forall>i. Suc n \<le> i \<and> i < m \<longrightarrow> \<not> hard_error (out i))"
    and stop: "length bytes \<le> count \<or> (\<exists>k. \<not> goes_on (out (Suc n + k))
      \<or> length bytes - count \<le> (\<Sum>i < Suc k. amount (out (Suc n + i))))"
    using assms(3) unfolding written_fully_def by auto
  have le: "count \<le> length bytes" using one(2) by simp
  have "files w' = (files w)(path \<mapsto> f\<lparr>f_content := f_content f @ take (count + j) bytes\<rparr>)"
    by (simp add: f one(1) take_add)
  moreover have "count + j \<le> length bytes" "ok \<longrightarrow> count + j = length bytes" using j le by auto
  moreover have "ok \<longleftrightarrow> (\<forall>i. n \<le> i \<and> i < m \<longrightarrow> \<not> hard_error (out i))"
    unfolding ok using one(3) by (simp add: all_from_Suc [OF m])
  moreover have "\<exists>k. \<not> goes_on (out (n + k)) \<or> length bytes \<le> (\<Sum>i < Suc k. amount (out (n + i)))"
    using stop
  proof
    assume "length bytes \<le> count"
    with one(2) have "\<not> goes_on (out (n + 0)) \<or> length bytes \<le> (\<Sum>i < Suc 0. amount (out (n + i)))"
      by (auto split: if_splits)
    then show ?thesis by blast
  next
    assume "\<exists>k. \<not> goes_on (out (Suc n + k)) \<or> length bytes - count \<le> (\<Sum>i < Suc k. amount (out (Suc n + i)))"
    note stop = this
    show ?thesis
    proof (cases "out n = Complete")
      case True
      then have "\<not> goes_on (out (n + 0))" by simp
      then show ?thesis by blast
    next
      case False
      then have "count \<le> amount (out n)" using one(2) by simp
      with stop show ?thesis by (rule stops_Suc)
    qed
  qed
  ultimately show ?thesis using m unfolding written_fully_def by auto
qed

lemma WriteFully_on_result:
  assumes "WriteFully_on out n path bytes w = Some r"
  shows "\<forall>f. files w path = Some f \<longrightarrow> written_fully out n path bytes w f r"
proof (rule WriteFully_on.raw_induct [OF _ assms, where P = "\<lambda>out n path bytes w r. \<forall>f. files w path = Some f \<longrightarrow> written_fully out n path bytes w f r"],
    intro allI impI)
  fix rec out n path bytes w r f
  assume IH: "\<And>out n path bytes w r. rec out n path bytes w = Some r
      \<Longrightarrow> \<forall>f. files w path = Some f \<longrightarrow> written_fully out n path bytes w f r"
    and body: "(if bytes = [] then Some (True, n, w) else case write_with (out n) path bytes w of
        (Inl e, w') \<Rightarrow> (if e = EINTR then rec out (Suc n) path bytes w' else Some (False, Suc n, w'))
      | (Inr count, w') \<Rightarrow> rec out (Suc n) path (drop count bytes) w') = Some r"
    and entry: "files w path = Some f"
  show "written_fully out n path bytes w f r"
  proof (cases "bytes = []")
    case True
    with body have "r = (True, n, w)" by simp
    moreover have "files w = (files w)(path \<mapsto> f)" using entry by (simp add: fun_upd_idem)
    ultimately show ?thesis using True by (auto simp: written_fully_def)
  next
    case False
    show ?thesis
    proof (cases "write_with (out n) path bytes w")
      case (Pair a w1)
      show ?thesis
      proof (cases a)
        case (Inl e)
        with Pair write_with_error have w1: "out n = Fail e" "w1 = w" by auto
        show ?thesis
        proof (cases "e = EINTR")
          case True
          with body False Pair Inl w1 have "rec out (Suc n) path bytes w = Some r" by simp
          from IH [OF this] entry obtain ok m w' where r: "r = (ok, m, w')"
            and more: "written_fully out (Suc n) path bytes w f (ok, m, w')" by (cases r) auto
          from more have m: "Suc n \<le> m" by (simp add: written_fully_def)
          from more have "ok \<longleftrightarrow> (\<forall>i. n \<le> i \<and> i < m \<longrightarrow> \<not> hard_error (out i))"
            using w1(1) True by (simp add: written_fully_def all_from_Suc [OF m])
          moreover have "\<exists>k. \<not> goes_on (out (n + k)) \<or> length bytes \<le> (\<Sum>i < Suc k. amount (out (n + i)))"
            by (rule stops_Suc [where count = 0]) (use more False in \<open>simp_all add: written_fully_def\<close>)
          ultimately show ?thesis using more m unfolding written_fully_def r by auto
        next
          case False
          with body \<open>bytes \<noteq> []\<close> Pair Inl w1 have "r = (False, Suc n, w)" by simp
          moreover have "\<not> goes_on (out (n + 0))" "hard_error (out n)" using w1(1) False by simp_all
          moreover have "files w = (files w)(path \<mapsto> f\<lparr>f_content := f_content f @ take 0 bytes\<rparr>)"
            using entry by (simp add: fun_upd_idem)
          ultimately show ?thesis unfolding written_fully_def by (auto simp del: take0 intro: exI [of _ 0])
        qed
      next
        case (Inr count)
        with body False Pair have "rec out (Suc n) path (drop count bytes) w1 = Some r" by simp
        moreover have "files w1 path = Some (f\<lparr>f_content := f_content f @ take count bytes\<rparr>)"
          using write_with_appends(1) [OF entry] Pair Inr by simp
        ultimately have "written_fully out (Suc n) path (drop count bytes) w1 (f\<lparr>f_content := f_content f @ take count bytes\<rparr>) r"
          using IH by blast
        with written_fully_more [OF entry] Pair Inr show ?thesis by (cases r) auto
      qed
    qed
  qed
qed

text \<open>Conversely, the loop ends once an outcome ends it or enough bytes have been taken off.\<close>

lemma WriteFully_on_ends:
  "\<not> goes_on (out (n + k)) \<or> length bytes \<le> (\<Sum>i < Suc k. amount (out (n + i)))
    \<Longrightarrow> WriteFully_on out n path bytes w \<noteq> None"
proof (induction k arbitrary: n bytes w)
  case 0
  show ?case
  proof (cases "bytes = []")
    case True
    then show ?thesis by (subst WriteFully_on.simps) simp
  next
    case False
    have none: "WriteFully_on out (Suc n) path [] w' \<noteq> None" for w' by (subst WriteFully_on.simps) simp
    from 0 False none show ?thesis
      by (subst WriteFully_on.simps) (cases "out n"; auto simp: write_with_def transferred_def)
  qed
next
  case (Suc k)
  show ?case
  proof (cases "bytes = []")
    case True
    then show ?thesis by (subst WriteFully_on.simps) simp
  next
    case False
    have later: "WriteFully_on out (Suc n) path (drop j bytes) w' \<noteq> None" if "min (amount (out n)) (length bytes) \<le> j" for j w'
    proof (rule Suc.IH)
      show "\<not> goes_on (out (Suc n + k)) \<or> length (drop j bytes) \<le> (\<Sum>i < Suc k. amount (out (Suc n + i)))"
        using Suc.prems that unfolding sum_amount_Suc [of out n "Suc k"] by auto
    qed
    have none: "WriteFully_on out (Suc n) path [] w' \<noteq> None" for w' by (subst WriteFully_on.simps) simp
    from False later [of 0] later none show ?thesis
      by (subst WriteFully_on.simps) (cases "out n"; auto simp: write_with_def transferred_def)
  qed
qed

text \<open>
  C22: when \<open>WriteFully\<close> returns. The outcomes of the calls of \<open>write\<close> never end and are arbitrary. The
  function runs for ever exactly when there is something to write, every call is interrupted or transfers
  some bytes, none or not all, and the bytes transferred never add up to the length; so it spins as soon
  as \<open>write\<close> keeps returning 0, and it returns whenever enough bytes are accepted between the
  interruptions. When it returns, it has appended a prefix of the bytes to the file, once and in order; it
  returns true exactly when no call failed with another error than \<open>EINTR\<close>, and then
  everything is written.
\<close>

theorem WriteFully_returns:
  assumes "files w path = Some f"
  shows "(WriteFully_on out n path bytes w = None \<longleftrightarrow>
      bytes \<noteq> [] \<and> (\<forall>k. (out (n + k) = Fail EINTR \<or> (\<exists>j. out (n + k) = Partial j))
        \<and> (\<Sum>i < Suc k. amount (out (n + i))) < length bytes)) \<and>
    (\<forall>ok m w'. WriteFully_on out n path bytes w = Some (ok, m, w') \<longrightarrow> n \<le> m
      \<and> (\<exists>j \<le> length bytes. files w' = (files w)(path \<mapsto> f\<lparr>f_content := f_content f @ take j bytes\<rparr>)
          \<and> (ok \<longrightarrow> j = length bytes))
      \<and> (ok \<longleftrightarrow> (\<forall>i. n \<le> i \<and> i < m \<longrightarrow> \<not> (\<exists>e. out i = Fail e \<and> e \<noteq> EINTR))))"
proof -
  have hard: "hard_error r \<longleftrightarrow> (\<exists>e. r = Fail e \<and> e \<noteq> EINTR)" for r by (cases r) auto
  have goes: "goes_on r \<longleftrightarrow> r = Fail EINTR \<or> (\<exists>j. r = Partial j)" for r by (cases r) auto
  have "WriteFully_on out n path bytes w = None \<longleftrightarrow>
      bytes \<noteq> [] \<and> (\<forall>k. (out (n + k) = Fail EINTR \<or> (\<exists>j. out (n + k) = Partial j))
        \<and> (\<Sum>i < Suc k. amount (out (n + i))) < length bytes)" (is "_ \<longleftrightarrow> ?ever")
  proof
    assume none: "WriteFully_on out n path bytes w = None"
    then have "bytes \<noteq> []" by (subst (asm) WriteFully_on.simps) (auto split: if_splits)
    with WriteFully_on_ends [of out n _ bytes path w] none show ?ever unfolding goes [symmetric] by (meson not_le)
  next
    assume ever: ?ever
    show "WriteFully_on out n path bytes w = None"
    proof (cases "WriteFully_on out n path bytes w")
      case (Some r)
      with WriteFully_on_result [OF Some] assms have "written_fully out n path bytes w f r" by blast
      with ever have False unfolding written_fully_def goes [symmetric] by (cases r) (auto simp: not_le [symmetric])
      then show ?thesis ..
    qed
  qed
  moreover have "\<forall>ok m w'. WriteFully_on out n path bytes w = Some (ok, m, w') \<longrightarrow> n \<le> m
      \<and> (\<exists>j \<le> length bytes. files w' = (files w)(path \<mapsto> f\<lparr>f_content := f_content f @ take j bytes\<rparr>)
          \<and> (ok \<longrightarrow> j = length bytes))
      \<and> (ok \<longleftrightarrow> (\<forall>i. n \<le> i \<and> i < m \<longrightarrow> \<not> (\<exists>e. out i = Fail e \<and> e \<noteq> EINTR)))"
    using WriteFully_on_result [of out n path bytes w] assms unfolding written_fully_def hard [symmetric] by fastforce
  ultimately show ?thesis ..
qed

theorem WriteFully_returns_witness:
  "WriteFully_on (\<lambda>_. Partial 0) 0 kWifiPath ''abc'' demo_world = None
    \<and> WriteFully_on (\<lambda>i. if i = 0 then Fail 4 else Partial 2) 0 kWifiPath ''abc'' demo_world \<noteq> None"
proof -
  have there: "files demo_world kWifiPath = Some
      \<lparr>f_content = ''02:1a:2B:00:00:ff'' @ [CHR 0x0A], f_mode = 0x1b0, f_uid = 1000, f_gid = 1010\<rparr>"
    by (simp add: demo_world_def)
  from conjunct1 [OF WriteFully_returns [OF there, of "\<lambda>_. Partial 0" 0 "''abc''"]]
  have "WriteFully_on (\<lambda>_. Partial 0) 0 kWifiPath ''abc'' demo_world = None" by (rule iffD2) simp
  moreover have "\<not> (\<Sum>i < Suc 2. amount (if 0 + i = 0 then Fail 4 else Partial 2)) < length ''abc''"
    by (simp add: numeral_2_eq_2)
  then have "WriteFully_on (\<lambda>i. if i = 0 then Fail 4 else Partial 2) 0 kWifiPath ''abc'' demo_world \<noteq> None"
    using conjunct1 [OF WriteFully_returns [OF there, of "\<lambda>i. if i = 0 then Fail 4 else Partial 2" 0 "''abc''"]] by blast
  ultimately show ?thesis ..
qed

text \<open>
  The function of the service, whose outcomes are a script that ends, is this loop with calls that succeed
  after the end of the script.
\<close>

definition scripted :: "outcome list \<Rightarrow> nat \<Rightarrow> outcome" where
  "scripted rs i = (if i < length rs then rs ! i else Complete)"

lemma next_outcome_scripted:
  "next_outcome (w\<lparr>script := drop n rs\<rparr>) = (scripted rs n, w\<lparr>script := drop (Suc n) rs\<rparr>)"
  by (cases "n < length rs")
    (auto simp: next_outcome_def scripted_def Cons_nth_drop_Suc [symmetric] split: list.split)

lemma sys_write_scripted:
  "sys_write path bytes (w\<lparr>script := drop n rs\<rparr>)
    = (case write_with (scripted rs n) path bytes w of (r, w') \<Rightarrow> (r, w'\<lparr>script := drop (Suc n) rs\<rparr>))"
  by (auto simp: sys_write_def next_outcome_scripted write_with_def split: outcome.split)

lemma WriteFully_on_scripted:
  assumes "WriteFully_on out n path bytes w = Some r"
  shows "\<forall>rs. out = scripted rs \<longrightarrow>
    WriteFully path bytes (w\<lparr>script := drop n rs\<rparr>) = (fst r, (snd (snd r))\<lparr>script := drop (fst (snd r)) rs\<rparr>)"
proof (rule WriteFully_on.raw_induct [OF _ assms, where P = "\<lambda>out n path bytes w r. \<forall>rs. out = scripted rs \<longrightarrow>
    WriteFully path bytes (w\<lparr>script := drop n rs\<rparr>) = (fst r, (snd (snd r))\<lparr>script := drop (fst (snd r)) rs\<rparr>)"],
    intro allI impI)
  fix rec out n path bytes w r rs
  assume IH: "\<And>out n path bytes w r. rec out n path bytes w = Some r \<Longrightarrow> \<forall>rs. out = scripted rs \<longrightarrow>
      WriteFully path bytes (w\<lparr>script := drop n rs\<rparr>) = (fst r, (snd (snd r))\<lparr>script := drop (fst (snd r)) rs\<rparr>)"
    and body: "(if bytes = [] then Some (True, n, w) else case write_with (out n) path bytes w of
        (Inl e, w') \<Rightarrow> (if e = EINTR then rec out (Suc n) path bytes w' else Some (False, Suc n, w'))
      | (Inr count, w') \<Rightarrow> rec out (Suc n) path (drop count bytes) w') = Some r"
    and out: "out = scripted rs"
  obtain a w1 where one: "write_with (scripted rs n) path bytes w = (a, w1)" by fastforce
  from one have step: "sys_write path bytes (w\<lparr>script := drop n rs\<rparr>) = (a, w1\<lparr>script := drop (Suc n) rs\<rparr>)"
    by (simp add: sys_write_scripted)
  show "WriteFully path bytes (w\<lparr>script := drop n rs\<rparr>) = (fst r, (snd (snd r))\<lparr>script := drop (fst (snd r)) rs\<rparr>)"
    using body IH out by (subst WriteFully.simps) (auto simp: one step split: sum.splits if_splits)
qed

text \<open>It always returns, because the outcomes after the script are successes.\<close>

lemma WriteFully_scripted:
  obtains ok m w' where "WriteFully_on (scripted rs) n path bytes w = Some (ok, m, w')"
    "WriteFully path bytes (w\<lparr>script := drop n rs\<rparr>) = (ok, w'\<lparr>script := drop m rs\<rparr>)"
proof -
  have "\<not> goes_on (scripted rs (n + length rs))" by (simp add: scripted_def)
  then have "WriteFully_on (scripted rs) n path bytes w \<noteq> None" by (intro WriteFully_on_ends) blast
  then obtain ok m w' where "WriteFully_on (scripted rs) n path bytes w = Some (ok, m, w')" by auto
  with WriteFully_on_scripted [OF this] that show thesis by simp
qed

text \<open>
  \<open>WriteFully\<close> copes with interrupted and short writes: while no call fails with another error than
  \<open>EINTR\<close>, it returns and everything was appended to the file, once and in order.
\<close>

theorem WriteFully_interrupted:
  assumes "files w path = Some f" and "\<forall>e. Fail e \<in> set (script w) \<longrightarrow> e = EINTR"
  shows "\<exists>w'. WriteFully path bytes w = (True, w')
    \<and> files w' = (files w)(path \<mapsto> f\<lparr>f_content := f_content f @ bytes\<rparr>)"
proof -
  obtain ok w' where run: "WriteFully path bytes w = (ok, w')" by fastforce
  have ok using WriteFully_no_error [OF assms, of bytes] by (simp add: run)
  with WriteFully_files [OF assms(1) run] run show ?thesis by auto
qed

theorem WriteFully_interrupted_witness:
  "\<exists>w'. WriteFully kWifiPath ''abc'' (demo_world\<lparr>script := [Partial 1, Fail 4, Partial 0]\<rparr>) = (True, w')"
proof -
  have "files (demo_world\<lparr>script := [Partial 1, Fail 4, Partial 0]\<rparr>) kWifiPath = Some
      \<lparr>f_content = ''02:1a:2B:00:00:ff'' @ [CHR 0x0A], f_mode = 0x1b0, f_uid = 1000, f_gid = 1010\<rparr>"
    by (simp add: demo_world_def)
  from WriteFully_interrupted [OF this, of "''abc''"] show ?thesis by (auto simp: EINTR_def)
qed

end
