(* ===== verification/Power_Hal.thy ===== *)
theory Power_Hal
  imports Mozart_Prelude
begin

text \<open>
  The power HAL, \<open>power/power.c\<close>: hints from the framework raise the minimum frequencies for a short
  time, and a worker thread takes them back when the deadline has passed. Every section under
  \<open>boost_lock\<close>, every reading of the clock and every write to a kernel node is one step; the caller
  and the worker interleave. The theory shows the arithmetic of the deadline, that the end of a boost
  is never forgotten nor later than three seconds, what low-power mode guarantees, and a race that
  leaves an active boost without its frequencies.
\<close>

section \<open>Time\<close>

record timespec =
  tv_sec :: int
  tv_nsec :: int

definition compare_timespec :: "timespec \<Rightarrow> timespec \<Rightarrow> int" where
  "compare_timespec left right =
     (if tv_sec left \<noteq> tv_sec right then (if tv_sec left < tv_sec right then -1 else 1)
      else if tv_nsec left \<noteq> tv_nsec right then (if tv_nsec left < tv_nsec right then -1 else 1)
      else 0)"

definition DEFAULT_INTERACTION_MS :: int where "DEFAULT_INTERACTION_MS = 1500"

definition LAUNCH_BOOST_MS :: int where "LAUNCH_BOOST_MS = 1500"

definition MAX_BOOST_MS :: int where "MAX_BOOST_MS = 3000"

text \<open>The first part of \<open>request_boost\<close>: the duration is clamped and added to the time.\<close>

definition clamp_duration :: "int \<Rightarrow> int" where
  "clamp_duration duration_ms =
     (if duration_ms \<le> 0 then DEFAULT_INTERACTION_MS
      else if duration_ms > MAX_BOOST_MS then MAX_BOOST_MS
      else duration_ms)"

definition deadline_after :: "int \<Rightarrow> timespec \<Rightarrow> timespec" where
  "deadline_after duration_ms now =
     (let deadline = now\<lparr>tv_sec := s64 (tv_sec now + duration_ms sdiv 1000)\<rparr>;
          deadline = deadline\<lparr>tv_nsec := s64 (tv_nsec deadline + s64 ((duration_ms smod 1000) * 1000000))\<rparr>
      in if tv_nsec deadline \<ge> 1000000000
         then deadline\<lparr>tv_sec := s64 (tv_sec deadline + 1), tv_nsec := tv_nsec deadline - 1000000000\<rparr>
         else deadline)"

section \<open>Kernel nodes\<close>

definition cpu0_min :: string where
  "cpu0_min = ''/sys/devices/system/cpu/cpu0/cpufreq/scaling_min_freq''"

definition cpu4_min :: string where
  "cpu4_min = ''/sys/devices/system/cpu/cpu4/cpufreq/scaling_min_freq''"

definition cpu0_boostpulse :: string where
  "cpu0_boostpulse = ''/sys/devices/system/cpu/cpu0/cpufreq/interactive/boostpulse''"

definition gpu_min :: string where "gpu_min = ''/sys/class/devfreq/gpufreq/min_freq''"

definition ddr_min :: string where "ddr_min = ''/sys/class/devfreq/ddrfreq/min_freq''"

definition hmp_up :: string where "hmp_up = ''/sys/kernel/hmp/up_threshold''"

definition hmp_down :: string where "hmp_down = ''/sys/kernel/hmp/down_threshold''"

text \<open>The writes of \<open>set_interaction_boost\<close>, in order.\<close>

definition set_interaction_boost :: "bool \<Rightarrow> (string \<times> string) list" where
  "set_interaction_boost enabled =
     (if enabled
      then [(cpu0_min, ''1516800''), (cpu4_min, ''2016000''), (gpu_min, ''600000000''),
            (ddr_min, ''667000000''), (hmp_up, ''300''), (hmp_down, ''150'')]
      else [(cpu0_min, ''403200''), (cpu4_min, ''1017600''), (gpu_min, ''288000000''),
            (ddr_min, ''120000000''), (hmp_up, ''978''), (hmp_down, ''672'')])"

section \<open>The state and the caller\<close>

text \<open>
  What the caller has still to do inside a call of the HAL. \<open>Boost\<close> and \<open>Cancel\<close> are the sections
  under the lock; each may be followed by writes.
\<close>

datatype power_act =
    Write_Value string string
  | Read_Clock int
  | Boost timespec
  | Set_Low_Power bool
  | Cancel

text \<open>
  The worker waits for a boost, waits for the deadline it read when it started to wait, or has
  released the lock to restore the nodes. The first two carry whether a signal has arrived.
\<close>

datatype worker_pc =
    B_Wait bool
  | B_Timed timespec bool
  | B_Restore "(string \<times> string) list"

record power =
  boost_active :: bool
  boost_deadline :: timespec
  boost_thread_started :: bool
  low_power_mode :: bool
  nodes :: "string \<rightharpoonup> string"
  clock :: timespec
  worker :: worker_pc
  caller :: "power_act list"

fun signal_worker :: "worker_pc \<Rightarrow> worker_pc" where
  "signal_worker (B_Wait sig) = B_Wait True"
| "signal_worker (B_Timed d sig) = B_Timed d True"
| "signal_worker (B_Restore ws) = B_Restore ws"

text \<open>A write to a kernel node may be refused, which is only logged.\<close>

definition write_value :: "bool \<Rightarrow> string \<Rightarrow> string \<Rightarrow> power \<Rightarrow> power" where
  "write_value accepted path v s = (if accepted then s\<lparr>nodes := (nodes s)(path \<mapsto> v)\<rparr> else s)"

abbreviation boost_writes :: "bool \<Rightarrow> power_act list" where
  "boost_writes enabled \<equiv> map (\<lambda>(path, v). Write_Value path v) (set_interaction_boost enabled)"

definition request_boost :: "int \<Rightarrow> power_act list" where
  "request_boost duration_ms = [Read_Clock (clamp_duration duration_ms)]"

definition cancel_boost :: "power_act list" where
  "cancel_boost = [Cancel]"

text \<open>One atomic action: the new state and what the caller does next because of it.\<close>

fun caller_act :: "bool \<Rightarrow> power_act \<Rightarrow> power \<Rightarrow> power \<times> power_act list" where
  "caller_act accepted (Write_Value path v) s = (write_value accepted path v s, [])"
| "caller_act accepted (Read_Clock duration_ms) s = (s, [Boost (deadline_after duration_ms (clock s))])"
| "caller_act accepted (Boost deadline) s =
     (if low_power_mode s then (s, [])
      else (s\<lparr>boost_deadline := (if \<not> boost_active s \<or> compare_timespec deadline (boost_deadline s) > 0
                               then deadline else boost_deadline s),
              boost_active := True, worker := signal_worker (worker s)\<rparr>,
            boost_writes True))"
| "caller_act accepted (Set_Low_Power enabled) s = (s\<lparr>low_power_mode := enabled\<rparr>, [])"
| "caller_act accepted Cancel s =
     (s\<lparr>boost_active := False, worker := signal_worker (worker s)\<rparr>,
      if boost_active s then boost_writes False else [])"

datatype power_hint_t = POWER_HINT_INTERACTION | POWER_HINT_LAUNCH | POWER_HINT_LOW_POWER | Other_Hint int

definition LINEAGE_POWER_HINT_CPU_BOOST :: int where "LINEAGE_POWER_HINT_CPU_BOOST = 0x110"

definition power_hint :: "power_hint_t \<Rightarrow> int option \<Rightarrow> power \<Rightarrow> power_act list" where
  "power_hint hint arg s =
     (if \<not> boost_thread_started s then []
      else case hint of
        POWER_HINT_INTERACTION \<Rightarrow>
          Write_Value cpu0_boostpulse ''1''
            # request_boost (case arg of Some v \<Rightarrow> v | None \<Rightarrow> DEFAULT_INTERACTION_MS)
      | POWER_HINT_LAUNCH \<Rightarrow>
          (case arg of Some v \<Rightarrow> if v \<noteq> 0 then request_boost LAUNCH_BOOST_MS else [] | None \<Rightarrow> [])
      | POWER_HINT_LOW_POWER \<Rightarrow>
          (let enabled = (case arg of Some v \<Rightarrow> v \<noteq> 0 | None \<Rightarrow> False)
           in Set_Low_Power enabled # (if enabled then cancel_boost else []))
      | Other_Hint n \<Rightarrow>
          (if n = LINEAGE_POWER_HINT_CPU_BOOST
           then let duration_us = (case arg of Some v \<Rightarrow> v | None \<Rightarrow> 0)
                in request_boost (duration_us sdiv 1000)
           else []))"

definition power_set_interactive :: "bool \<Rightarrow> power \<Rightarrow> power_act list" where
  "power_set_interactive on s = (if \<not> on \<and> boost_thread_started s then cancel_boost else [])"

section \<open>The worker\<close>

text \<open>The top of the loop of \<open>boost_worker\<close>, with the lock held.\<close>

definition worker_loop :: "power \<Rightarrow> worker_pc" where
  "worker_loop s = (if \<not> boost_active s then B_Wait False else B_Timed (boost_deadline s) False)"

definition worker_timeout :: "power \<Rightarrow> power" where
  "worker_timeout s =
     (if boost_active s \<and> compare_timespec (clock s) (boost_deadline s) \<ge> 0
      then s\<lparr>boost_active := False, worker := B_Restore (set_interaction_boost False)\<rparr>
      else s\<lparr>worker := worker_loop s\<rparr>)"

section \<open>The interleaving\<close>

text \<open>
  The framework calls from one thread and the values it passes are \<open>int32_t\<close>. The monotonic clock
  advances between the steps, in a range that leaves room for the longest boost. A timed wait times
  out once the time it was given has passed.
\<close>

definition clock_ok :: "timespec \<Rightarrow> bool" where
  "clock_ok t \<longleftrightarrow> 0 \<le> tv_sec t \<and> tv_sec t < 2 ^ 63 - 4 \<and> 0 \<le> tv_nsec t \<and> tv_nsec t < 1000000000"

inductive power_step :: "power \<Rightarrow> power \<Rightarrow> bool" where
  step_tick: "clock_ok t \<Longrightarrow> compare_timespec (clock s) t \<le> 0 \<Longrightarrow> power_step s (s\<lparr>clock := t\<rparr>)"
| step_hint: "caller s = [] \<Longrightarrow> power_step s (s\<lparr>caller := power_hint hint arg s\<rparr>)"
| step_interactive: "caller s = [] \<Longrightarrow> power_step s (s\<lparr>caller := power_set_interactive on s\<rparr>)"
| step_caller: "caller s = a # as \<Longrightarrow> caller_act accepted a s = (t, nxt)
    \<Longrightarrow> power_step s (t\<lparr>caller := nxt @ as\<rparr>)"
| step_wake: "worker s = B_Wait sig \<Longrightarrow> power_step s (s\<lparr>worker := worker_loop s\<rparr>)"
| step_wake_timed: "worker s = B_Timed d sig \<Longrightarrow> power_step s (s\<lparr>worker := worker_loop s\<rparr>)"
| step_timeout: "worker s = B_Timed d sig \<Longrightarrow> compare_timespec (clock s) d \<ge> 0
    \<Longrightarrow> power_step s (worker_timeout s)"
| step_restore: "worker s = B_Restore ((path, v) # ws)
    \<Longrightarrow> power_step s ((write_value accepted path v s)\<lparr>worker := B_Restore ws\<rparr>)"
| step_restored: "worker s = B_Restore [] \<Longrightarrow> power_step s (s\<lparr>worker := worker_loop s\<rparr>)"

inductive_cases power_stepE: "power_step s t"

text \<open>
  The state \<open>power_init\<close> leaves, whether the worker could be started or not, with the frequencies the
  kernel starts with. Without a worker no hint does anything, and the worker of the model never leaves
  its wait.
\<close>

definition power_init :: "power \<Rightarrow> bool" where
  "power_init s \<longleftrightarrow> \<not> boost_active s \<and> \<not> low_power_mode s
     \<and> worker s = B_Wait False \<and> caller s = [] \<and> clock_ok (clock s)"

text \<open>The table of the module; it has no \<open>open\<close>.\<close>

record power_module =
  pm_name :: string
  pm_author :: string
  pm_open :: "unit option"
  pm_init :: "power \<Rightarrow> bool"
  pm_setInteractive :: "bool \<Rightarrow> power \<Rightarrow> power_act list"
  pm_powerHint :: "power_hint_t \<Rightarrow> int option \<Rightarrow> power \<Rightarrow> power_act list"

definition power_module_info :: power_module where
  "power_module_info =
     \<lparr>pm_name = ''HiSilicon hi3635 Power HAL'', pm_author = ''The LineageOS Project'', pm_open = None,
      pm_init = power_init, pm_setInteractive = power_set_interactive, pm_powerHint = power_hint\<rparr>"

section \<open>Deadlines\<close>

definition ns :: "timespec \<Rightarrow> int" where
  "ns t = tv_sec t * 1000000000 + tv_nsec t"

definition normal :: "timespec \<Rightarrow> bool" where
  "normal t \<longleftrightarrow> 0 \<le> tv_nsec t \<and> tv_nsec t < 1000000000"

lemma clock_ok_normal: "clock_ok t \<Longrightarrow> normal t"
  by (simp add: clock_ok_def normal_def)

lemma compare_timespec_ns:
  assumes "normal a" and "normal b"
  shows "compare_timespec a b = sgn (ns a - ns b)"
proof -
  have "tv_sec a < tv_sec b \<Longrightarrow> ns a < ns b" "tv_sec a > tv_sec b \<Longrightarrow> ns a > ns b"
    using assms by (simp_all add: ns_def normal_def)
  then show ?thesis by (auto simp: compare_timespec_def ns_def sgn_if)
qed

lemma clamp_duration_range: "1 \<le> clamp_duration d \<and> clamp_duration d \<le> 3000"
  by (simp add: clamp_duration_def DEFAULT_INTERACTION_MS_def MAX_BOOST_MS_def)

lemma deadline_after_ns:
  assumes "clock_ok t" and "1 \<le> d" and "d \<le> 3000"
  shows "normal (deadline_after d t)" and "ns (deadline_after d t) = ns t + d * 1000000"
proof -
  have div: "d sdiv 1000 = d div 1000" "d smod 1000 = d mod 1000"
    using assms(2) by (simp_all add: sdiv_nonneg smod_nonneg)
  have bounds: "0 \<le> d div 1000" "d div 1000 \<le> 3" "0 \<le> d mod 1000" "d mod 1000 < 1000"
    using assms(2,3) by (simp_all add: pos_imp_zdiv_nonneg_iff)
  have w1: "s64 (tv_sec t + d div 1000) = tv_sec t + d div 1000"
    "s64 (d mod 1000 * 1000000) = d mod 1000 * 1000000"
    "s64 (tv_nsec t + d mod 1000 * 1000000) = tv_nsec t + d mod 1000 * 1000000"
    "s64 (tv_sec t + d div 1000 + 1) = tv_sec t + d div 1000 + 1"
    using assms(1) bounds by (auto simp: clock_ok_def intro!: s64_id)
  have "d div 1000 * 1000000000 + d mod 1000 * 1000000 = (d div 1000 * 1000 + d mod 1000) * 1000000"
    by (simp only: distrib_right mult.assoc)
  then have whole: "d div 1000 * 1000000000 + d mod 1000 * 1000000 = d * 1000000"
    by (simp only: div_mult_mod_eq)
  show "normal (deadline_after d t)"
    using assms(1) bounds
    by (auto simp: deadline_after_def Let_def div w1 normal_def clock_ok_def)
  show "ns (deadline_after d t) = ns t + d * 1000000"
    by (simp add: deadline_after_def Let_def div w1 ns_def whole)
qed

section \<open>The invariant\<close>

fun low_ok :: "power_act list \<Rightarrow> bool" where
  "low_ok [] \<longleftrightarrow> True"
| "low_ok (Set_Low_Power enabled # as) \<longleftrightarrow> (enabled \<longrightarrow> Cancel \<in> set as) \<and> low_ok as"
| "low_ok (_ # as) \<longleftrightarrow> low_ok as"

text \<open>The invariant reads only the clock, the boost and its deadline, so it is stated of their values.\<close>

definition soon :: "timespec \<Rightarrow> timespec \<Rightarrow> bool" where
  "soon now d \<longleftrightarrow> normal d \<and> ns d \<le> ns now + 3000000000"

fun act_ok :: "timespec \<Rightarrow> power_act \<Rightarrow> bool" where
  "act_ok now (Boost d) \<longleftrightarrow> soon now d"
| "act_ok now (Read_Clock d) \<longleftrightarrow> 1 \<le> d \<and> d \<le> 3000"
| "act_ok now _ \<longleftrightarrow> True"

fun worker_inv :: "bool \<Rightarrow> timespec \<Rightarrow> worker_pc \<Rightarrow> bool" where
  "worker_inv boosted deadline (B_Wait sig) \<longleftrightarrow> sig \<or> \<not> boosted"
| "worker_inv boosted deadline (B_Timed d sig) \<longleftrightarrow> normal d \<and> (sig \<or> boosted \<and> ns d \<le> ns deadline)"
| "worker_inv boosted deadline (B_Restore ws) \<longleftrightarrow> True"

definition power_inv :: "power \<Rightarrow> bool" where
  "power_inv s \<longleftrightarrow> clock_ok (clock s) \<and> (boost_active s \<longrightarrow> soon (clock s) (boost_deadline s))
     \<and> (\<forall>a \<in> set (caller s). act_ok (clock s) a) \<and> low_ok (caller s)
     \<and> worker_inv (boost_active s) (boost_deadline s) (worker s)
     \<and> (low_power_mode s \<and> boost_active s \<longrightarrow> Cancel \<in> set (caller s))"

lemma power_invD:
  assumes "power_inv s"
  shows "clock_ok (clock s)" "boost_active s \<Longrightarrow> soon (clock s) (boost_deadline s)"
    "\<forall>a \<in> set (caller s). act_ok (clock s) a" "low_ok (caller s)"
    "worker_inv (boost_active s) (boost_deadline s) (worker s)"
    "low_power_mode s \<and> boost_active s \<longrightarrow> Cancel \<in> set (caller s)"
  using assms by (simp_all add: power_inv_def)

lemma boost_writes_ok [simp]:
  "low_ok (boost_writes b @ as) = low_ok as"
  "Cancel \<notin> set (boost_writes b)" "(\<forall>a \<in> set (boost_writes b). act_ok now a)"
  by (simp_all add: set_interaction_boost_def)

lemma act_ok_later: "act_ok t a \<Longrightarrow> ns t \<le> ns u \<Longrightarrow> act_ok u a"
  by (cases a) (auto simp: soon_def)

lemma worker_inv_loop:
  "power_inv s \<Longrightarrow> worker_inv (boost_active s) (boost_deadline s) (worker_loop s)"
  using power_invD(2) by (auto simp: worker_loop_def soon_def)

lemma worker_inv_signal: "worker_inv b d w \<Longrightarrow> worker_inv b' d' (signal_worker w)"
  by (cases w) auto

lemma power_inv_worker:
  "power_inv s \<Longrightarrow> worker_inv (boost_active s) (boost_deadline s) w \<Longrightarrow> power_inv (s\<lparr>worker := w\<rparr>)"
  by (simp add: power_inv_def)

lemma power_inv_nodes: "power_inv s \<Longrightarrow> power_inv (write_value b path v s)"
  by (simp add: power_inv_def write_value_def)

lemma power_inv_caller:
  assumes "power_inv s" and "\<forall>a \<in> set as. act_ok (clock s) a" and "low_ok as"
    and "low_power_mode s \<and> boost_active s \<longrightarrow> Cancel \<in> set as"
  shows "power_inv (s\<lparr>caller := as\<rparr>)"
  using assms by (simp add: power_inv_def)

lemma clock_order:
  assumes "clock_ok t" and "normal d"
  shows "compare_timespec t d \<le> 0 \<longleftrightarrow> ns t \<le> ns d" and "0 \<le> compare_timespec t d \<longleftrightarrow> ns d \<le> ns t"
  using compare_timespec_ns [OF clock_ok_normal [OF assms(1)] assms(2)] by (simp_all add: sgn_if)

lemma power_inv_tick:
  assumes "power_inv s" and "clock_ok t" and "compare_timespec (clock s) t \<le> 0"
  shows "power_inv (s\<lparr>clock := t\<rparr>)"
proof -
  have "ns (clock s) \<le> ns t"
    using assms(3) clock_order(1) [OF power_invD(1) [OF assms(1)] clock_ok_normal [OF assms(2)]] by simp
  then show ?thesis
    using assms(1,2) by (auto simp: power_inv_def soon_def intro: act_ok_later)
qed

lemma power_hint_ok:
  "\<forall>a \<in> set (power_hint hint arg s). act_ok now a" "low_ok (power_hint hint arg s)"
  using clamp_duration_range
  by (auto simp: power_hint_def request_boost_def cancel_boost_def Let_def split: power_hint_t.splits option.splits)

lemma boost_inv:
  assumes inv: "power_inv s" and head: "caller s = Boost d # as"
    and run: "caller_act acc (Boost d) s = (t, nxt)"
  shows "power_inv (t\<lparr>caller := nxt @ as\<rparr>)"
proof (cases "low_power_mode s")
  case True
  with inv head run show ?thesis by (auto simp: power_inv_def)
next
  case False
  let ?dl = "if \<not> boost_active s \<or> compare_timespec d (boost_deadline s) > 0 then d else boost_deadline s"
  have t: "t = s\<lparr>boost_deadline := ?dl, boost_active := True, worker := signal_worker (worker s)\<rparr>"
    "nxt = boost_writes True"
    using run False by simp_all
  have "soon (clock s) ?dl" using inv head by (simp add: power_inv_def)
  then show ?thesis
    using inv head False boost_writes_ok(3) [of True "clock s"]
    by (auto simp: power_inv_def t intro: worker_inv_signal)
qed

lemma caller_act_inv:
  assumes inv: "power_inv s" and head: "caller s = a # as" and run: "caller_act acc a s = (t, nxt)"
  shows "power_inv (t\<lparr>caller := nxt @ as\<rparr>)"
proof (cases a)
  case (Write_Value path v)
  with assms show ?thesis by (cases acc) (auto simp: power_inv_def write_value_def)
next
  case (Read_Clock d)
  have d: "1 \<le> d" "d \<le> 3000" using power_invD(3) [OF inv] head Read_Clock by simp_all
  have "act_ok (clock s) (Boost (deadline_after d (clock s)))"
    using deadline_after_ns [OF power_invD(1) [OF inv] d] d by (simp add: soon_def)
  with assms Read_Clock show ?thesis by (auto simp: power_inv_def)
next
  case (Boost d)
  with boost_inv [OF inv] head run show ?thesis by simp
next
  case (Set_Low_Power enabled)
  with assms show ?thesis by (auto simp: power_inv_def)
next
  case Cancel
  have t: "t = s\<lparr>boost_active := False, worker := signal_worker (worker s)\<rparr>"
    "nxt = (if boost_active s then boost_writes False else [])"
    using run Cancel by simp_all
  show ?thesis
    using inv head Cancel boost_writes_ok(3) [of False "clock s"]
    by (auto simp: power_inv_def t intro: worker_inv_signal)
qed

lemma worker_timeout_inv:
  assumes "power_inv s"
  shows "power_inv (worker_timeout s)"
proof (cases "boost_active s \<and> compare_timespec (clock s) (boost_deadline s) \<ge> 0")
  case True
  with assms show ?thesis by (simp add: power_inv_def worker_timeout_def)
next
  case False
  show ?thesis
    unfolding worker_timeout_def if_not_P [OF False]
    by (rule power_inv_worker [OF assms worker_inv_loop [OF assms]])
qed

lemma power_inv_step: "power_inv s \<Longrightarrow> power_step s t \<Longrightarrow> power_inv t"
proof -
  assume inv: "power_inv s" and "power_step s t"
  from this(2) show ?thesis
  proof cases
    case (step_tick t')
    with power_inv_tick [OF inv] show ?thesis by simp
  next
    case (step_hint hint arg)
    have "\<not> (low_power_mode s \<and> boost_active s)" using power_invD(6) [OF inv] step_hint by simp
    with step_hint power_hint_ok show ?thesis by (auto intro!: power_inv_caller [OF inv])
  next
    case (step_interactive on)
    have "\<not> (low_power_mode s \<and> boost_active s)" using power_invD(6) [OF inv] step_interactive by simp
    with step_interactive show ?thesis
      by (simp add: power_inv_caller [OF inv] power_set_interactive_def cancel_boost_def)
  next
    case (step_caller a as accepted t' nxt)
    with caller_act_inv [OF inv] show ?thesis by simp
  next
    case (step_wake sig)
    with power_inv_worker [OF inv worker_inv_loop [OF inv]] show ?thesis by simp
  next
    case (step_wake_timed d sig)
    with power_inv_worker [OF inv worker_inv_loop [OF inv]] show ?thesis by simp
  next
    case (step_timeout d sig)
    with worker_timeout_inv [OF inv] show ?thesis by simp
  next
    case (step_restore path v ws accepted)
    with power_inv_worker [OF power_inv_nodes [OF inv]] show ?thesis by simp
  next
    case step_restored
    with power_inv_worker [OF inv worker_inv_loop [OF inv]] show ?thesis by simp
  qed
qed

interpretation power_threads: inductive_invariant power_init power_step power_inv
proof (unfold_locales, goal_cases)
  case (1 s)
  then show ?case by (simp add: power_init_def power_inv_def)
next
  case (2 s t)
  then show ?case by (rule power_inv_step)
qed

section \<open>Runs\<close>

definition apply_writes :: "(string \<times> string) list \<Rightarrow> (string \<rightharpoonup> string) \<Rightarrow> (string \<rightharpoonup> string)" where
  "apply_writes ws m = foldl (\<lambda>m (path, v). m(path \<mapsto> v)) m ws"

abbreviation power_reachable :: "power \<Rightarrow> bool" where
  "power_reachable \<equiv> reachable power_init power_step"

lemma apply_writes_simps:
  "apply_writes [] m = m"
  "apply_writes ((path, v) # ws) m = apply_writes ws (m(path \<mapsto> v))"
  by (simp_all add: apply_writes_def)

lemma reach_writes:
  "power_reachable s \<Longrightarrow> caller s = map (\<lambda>(path, v). Write_Value path v) ws @ as
    \<Longrightarrow> power_reachable (s\<lparr>nodes := apply_writes ws (nodes s), caller := as\<rparr>)"
proof (induction ws arbitrary: s)
  case Nil
  then have "s\<lparr>nodes := apply_writes [] (nodes s), caller := as\<rparr> = s"
    by (simp add: apply_writes_simps)
  with Nil show ?case by simp
next
  case (Cons w ws)
  obtain path v where w: "w = (path, v)" by fastforce
  define m where "m = (nodes s)(path \<mapsto> v)"
  let ?t = "s\<lparr>nodes := m, caller := map (\<lambda>(path, v). Write_Value path v) ws @ as\<rparr>"
  have "power_step s ?t"
    using step_caller [of s "Write_Value path v" "map (\<lambda>(path, v). Write_Value path v) ws @ as" True
        "s\<lparr>nodes := m\<rparr>" "[]"] Cons.prems(2)
    by (simp add: w write_value_def m_def)
  then have "power_reachable ?t" using Cons.prems(1) by (blast intro: reachable_step)
  from Cons.IH [OF this] show ?case by (simp add: w apply_writes_simps m_def [symmetric])
qed

text \<open>A step of the worker alone: no call is under way and no time passes.\<close>

definition worker_step :: "power \<Rightarrow> power \<Rightarrow> bool" where
  "worker_step s t \<longleftrightarrow> power_step s t \<and> caller s = [] \<and> caller t = [] \<and> clock t = clock s"

lemma worker_restores:
  "worker s = B_Restore ws \<Longrightarrow> caller s = []
    \<Longrightarrow> worker_step\<^sup>*\<^sup>* s (s\<lparr>nodes := apply_writes ws (nodes s), worker := worker_loop s\<rparr>)"
proof (induction ws arbitrary: s)
  case Nil
  then have "worker_step s (s\<lparr>worker := worker_loop s\<rparr>)" by (simp add: worker_step_def step_restored)
  then show ?case by (simp add: apply_writes_simps r_into_rtranclp)
next
  case (Cons w ws)
  obtain path v where w: "w = (path, v)" by fastforce
  define m where "m = (nodes s)(path \<mapsto> v)"
  let ?t = "s\<lparr>nodes := m, worker := B_Restore ws\<rparr>"
  have "worker_step s ?t"
    using step_restore [of s path v ws True] Cons.prems by (simp add: w write_value_def m_def worker_step_def)
  moreover have "worker_step\<^sup>*\<^sup>* ?t (?t\<lparr>nodes := apply_writes ws (nodes ?t), worker := worker_loop ?t\<rparr>)"
    by (rule Cons.IH) (simp_all add: Cons.prems(2))
  ultimately have "worker_step\<^sup>*\<^sup>* s (?t\<lparr>nodes := apply_writes ws (nodes ?t), worker := worker_loop ?t\<rparr>)"
    by (rule converse_rtranclp_into_rtranclp)
  then show ?case by (simp add: w apply_writes_simps m_def [symmetric] worker_loop_def split: if_splits)
qed

lemma reach_launch:
  assumes "power_reachable s" and "caller s = []" and "boost_thread_started s"
    and "\<not> low_power_mode s" and "\<not> boost_active s"
  shows "power_reachable (s\<lparr>boost_deadline := deadline_after 1500 (clock s), boost_active := True,
    worker := signal_worker (worker s), nodes := apply_writes (set_interaction_boost True) (nodes s)\<rparr>)"
proof -
  let ?d = "deadline_after 1500 (clock s)"
  have "power_hint POWER_HINT_LAUNCH (Some 1) s = [Read_Clock 1500]"
    using assms(3) by (simp add: power_hint_def request_boost_def clamp_duration_def LAUNCH_BOOST_MS_def
        MAX_BOOST_MS_def)
  then have 1: "power_reachable (s\<lparr>caller := [Read_Clock 1500]\<rparr>)"
    using assms(1,2) step_hint [of s POWER_HINT_LAUNCH "Some 1"] by (metis reachable_step)
  let ?s1 = "s\<lparr>caller := [Read_Clock 1500]\<rparr>"
  let ?s2 = "s\<lparr>caller := [Boost ?d]\<rparr>"
  have "power_step ?s1 ?s2"
    using step_caller [of ?s1 "Read_Clock 1500" "[]" True ?s1 "[Boost ?d]"] by simp
  with 1 have 2: "power_reachable ?s2" by (rule reachable_step)
  let ?t = "s\<lparr>boost_deadline := ?d, boost_active := True, worker := signal_worker (worker s)\<rparr>"
  have "power_step ?s2 (?t\<lparr>caller := boost_writes True\<rparr>)"
    using step_caller [of ?s2 "Boost ?d" "[]" True "?t\<lparr>caller := [Boost ?d]\<rparr>" "boost_writes True"] assms
    by simp
  with 2 have "power_reachable (?t\<lparr>caller := boost_writes True\<rparr>)" by (rule reachable_step)
  from reach_writes [OF this, of "set_interaction_boost True" "[]"]
  have "power_reachable (s\<lparr>boost_deadline := ?d, boost_active := True,
      worker := signal_worker (worker s), nodes := apply_writes (set_interaction_boost True) (nodes s),
      caller := []\<rparr>)"
    by (simp only: append_Nil2) simp
  moreover have "s\<lparr>caller := []\<rparr> = s" using assms(2) by simp
  ultimately show ?thesis by (cases s) simp
qed

text \<open>A state at time zero to start from.\<close>

definition power_zero :: power where
  "power_zero = \<lparr>boost_active = False, boost_deadline = \<lparr>tv_sec = 0, tv_nsec = 0\<rparr>,
     boost_thread_started = True, low_power_mode = False, nodes = Map.empty,
     clock = \<lparr>tv_sec = 0, tv_nsec = 0\<rparr>, worker = B_Wait False, caller = []\<rparr>"

lemma power_zero_reachable: "power_reachable power_zero"
  by (rule reachable_init) (simp add: power_init_def power_zero_def clock_ok_def)

section \<open>Properties\<close>

text \<open>
  C26: the deadline of a boost. Any requested duration is served by one between 1 and 3000
  milliseconds, a duration in that range by itself; the deadline is exactly so much after the time
  of the request, in the normal form \<open>pthread_cond_timedwait\<close> needs, without overflow; and
  comparing normalised times is comparing their nanoseconds.
\<close>

theorem deadline_exact:
  assumes "clock_ok now" and "normal t"
  shows "normal (deadline_after (clamp_duration duration_ms) now)
    \<and> ns (deadline_after (clamp_duration duration_ms) now) = ns now + clamp_duration duration_ms * 1000000
    \<and> 1 \<le> clamp_duration duration_ms \<and> clamp_duration duration_ms \<le> 3000
    \<and> (1 \<le> duration_ms \<and> duration_ms \<le> 3000 \<longrightarrow> clamp_duration duration_ms = duration_ms)
    \<and> compare_timespec now t = sgn (ns now - ns t)"
proof -
  note range = clamp_duration_range [of duration_ms]
  note exact = deadline_after_ns [OF assms(1), of "clamp_duration duration_ms"]
  have "1 \<le> duration_ms \<and> duration_ms \<le> 3000 \<longrightarrow> clamp_duration duration_ms = duration_ms"
    by (simp add: clamp_duration_def MAX_BOOST_MS_def)
  with range exact compare_timespec_ns [OF clock_ok_normal [OF assms(1)] assms(2)] show ?thesis by blast
qed

theorem deadline_exact_witness:
  "ns (deadline_after (clamp_duration 4000) \<lparr>tv_sec = 7, tv_nsec = 999999999\<rparr>) = 10999999999"
proof -
  have "clock_ok \<lparr>tv_sec = 7, tv_nsec = 999999999\<rparr>" "normal \<lparr>tv_sec = 0, tv_nsec = 0\<rparr>"
    by (simp_all add: clock_ok_def normal_def)
  from deadline_exact [OF this, of 4000] show ?thesis
    by (simp add: ns_def clamp_duration_def MAX_BOOST_MS_def)
qed

text \<open>
  C24: no boost is left on. In every reachable state with an active boost, its deadline is at most
  three seconds away, the worker is not waiting for a boost without a signal, a timed wait that got no
  signal ends no later than the deadline, and if it ends at or after the deadline the worker ends the
  boost and goes on to restore every node.
\<close>

theorem boost_ends:
  assumes "reachable power_init power_step s" and "boost_active s"
  shows "ns (boost_deadline s) \<le> ns (clock s) + 3000000000
    \<and> worker s \<noteq> B_Wait False
    \<and> (worker s = B_Timed d False \<longrightarrow> ns d \<le> ns (boost_deadline s)
        \<and> (ns (boost_deadline s) \<le> ns (clock s) \<longrightarrow> power_step s (worker_timeout s)
             \<and> \<not> boost_active (worker_timeout s)
             \<and> worker (worker_timeout s) = B_Restore (set_interaction_boost False)))"
proof -
  note inv = power_invD [OF power_threads.reachable_inv [OF assms(1)]]
  have soon: "soon (clock s) (boost_deadline s)" using inv(2) assms(2) by simp
  have timed: "normal d" "ns d \<le> ns (boost_deadline s)" if "worker s = B_Timed d False"
    using inv(5) that assms(2) by simp_all
  have "0 \<le> compare_timespec (clock s) (boost_deadline s)" "0 \<le> compare_timespec (clock s) d"
    if "worker s = B_Timed d False" "ns (boost_deadline s) \<le> ns (clock s)"
    using that timed soon clock_ok_normal [OF inv(1)] by (simp_all add: compare_timespec_ns soon_def sgn_if)
  then show ?thesis
    using timed soon inv(5) assms(2) step_timeout [of s d False]
    by (auto simp: soon_def worker_timeout_def)
qed

theorem boost_ends_witness:
  "\<exists>s. reachable power_init power_step s \<and> boost_active s
     \<and> ns (boost_deadline s) \<le> ns (clock s) + 3000000000"
proof -
  have "power_reachable (power_zero\<lparr>boost_deadline := deadline_after 1500 (clock power_zero), boost_active := True,
    worker := signal_worker (worker power_zero), nodes := apply_writes (set_interaction_boost True) (nodes power_zero)\<rparr>)"
    (is "power_reachable ?s")
    by (rule reach_launch [OF power_zero_reachable]) (simp_all add: power_zero_def)
  with boost_ends [OF this, of "boost_deadline ?s"] show ?thesis by (intro exI [of _ ?s]) simp
qed

text \<open>
  C25: low-power mode. Whenever no call is in progress and low-power mode is on, no boost is active: the
  hint that turns the mode on has cancelled the boost, and no request has started one since.
\<close>

theorem low_power_no_boost:
  assumes "reachable power_init power_step s" and "caller s = []" and "low_power_mode s"
  shows "\<not> boost_active s"
  using power_invD(6) [OF power_threads.reachable_inv [OF assms(1)]] assms(2,3) by simp

theorem low_power_no_boost_witness:
  "\<exists>s. reachable power_init power_step s \<and> low_power_mode s \<and> \<not> boost_active s"
proof -
  let ?s1 = "power_zero\<lparr>caller := [Set_Low_Power True, Cancel]\<rparr>"
  let ?s2 = "power_zero\<lparr>low_power_mode := True, caller := [Cancel]\<rparr>"
  let ?s3 = "power_zero\<lparr>low_power_mode := True, worker := B_Wait True\<rparr>"
  have "power_step power_zero ?s1"
    using step_hint [of power_zero POWER_HINT_LOW_POWER "Some 1"]
    by (simp add: power_zero_def power_hint_def cancel_boost_def)
  moreover have "power_step ?s1 ?s2"
    using step_caller [of ?s1 "Set_Low_Power True" "[Cancel]" True "?s1\<lparr>low_power_mode := True\<rparr>" "[]"] by simp
  moreover have "power_step ?s2 ?s3"
    using step_caller [of ?s2 Cancel "[]" True "?s2\<lparr>worker := B_Wait True\<rparr>" "[]"]
    by (simp add: power_zero_def)
  ultimately have "power_reachable ?s3" using power_zero_reachable by (blast intro: reachable_step)
  with low_power_no_boost [OF this] show ?thesis by (intro exI [of _ ?s3]) (simp add: power_zero_def)
qed

text \<open>
  C27: the worker restores the nodes after it released the lock, so a request in between is lost. A state
  is reachable in which every call has returned, a boost is active whose deadline is still to come, and
  all nodes hold the values of the boost, as requested; and from there the worker alone, while no
  call is made and no time passes, comes to wait for the very deadline of this boost with every node
  at its value without boost.
\<close>

theorem restore_race:
  "\<exists>s t. reachable power_init power_step s \<and> caller s = [] \<and> boost_active s \<and> ns (clock s) < ns (boost_deadline s)
     \<and> nodes s cpu0_min = Some ''1516800'' \<and> nodes s cpu4_min = Some ''2016000''
     \<and> nodes s gpu_min = Some ''600000000'' \<and> nodes s ddr_min = Some ''667000000''
     \<and> nodes s hmp_up = Some ''300'' \<and> nodes s hmp_down = Some ''150''
     \<and> worker_step\<^sup>*\<^sup>* s t \<and> clock t = clock s \<and> boost_active t \<and> boost_deadline t = boost_deadline s
     \<and> worker t = B_Timed (boost_deadline s) False
     \<and> nodes t cpu0_min = Some ''403200'' \<and> nodes t cpu4_min = Some ''1017600''
     \<and> nodes t gpu_min = Some ''288000000'' \<and> nodes t ddr_min = Some ''120000000''
     \<and> nodes t hmp_up = Some ''978'' \<and> nodes t hmp_down = Some ''672''"
proof -
  let ?d1 = "\<lparr>tv_sec = 1, tv_nsec = 500000000\<rparr> :: timespec"
  let ?d2 = "\<lparr>tv_sec = 3, tv_nsec = 0\<rparr> :: timespec"
  have d: "deadline_after 1500 \<lparr>tv_sec = 0, tv_nsec = 0\<rparr> = ?d1" "deadline_after 1500 ?d1 = ?d2"
    by (simp_all add: deadline_after_def power_zero_def s64_def sdiv_nonneg smod_nonneg)
  define s1 where "s1 = power_zero\<lparr>boost_deadline := ?d1, boost_active := True,
    worker := B_Wait True, nodes := apply_writes (set_interaction_boost True) (nodes power_zero)\<rparr>"
  have r1: "power_reachable s1"
    using reach_launch [OF power_zero_reachable] by (simp add: power_zero_def s1_def d)
  have "power_step s1 (s1\<lparr>worker := B_Timed ?d1 False\<rparr>)"
    using step_wake [of s1 True] by (simp add: s1_def worker_loop_def)
  with r1 have r2: "power_reachable (s1\<lparr>worker := B_Timed ?d1 False\<rparr>)" by (rule reachable_step)
  have "power_step (s1\<lparr>worker := B_Timed ?d1 False\<rparr>) (s1\<lparr>worker := B_Timed ?d1 False, clock := ?d1\<rparr>)"
    using step_tick [of ?d1 "s1\<lparr>worker := B_Timed ?d1 False\<rparr>"]
    by (simp add: s1_def power_zero_def clock_ok_def compare_timespec_def)
  with r2 have r3: "power_reachable (s1\<lparr>worker := B_Timed ?d1 False, clock := ?d1\<rparr>)" by (rule reachable_step)
  let ?s4 = "s1\<lparr>worker := B_Restore (set_interaction_boost False), clock := ?d1, boost_active := False\<rparr>"
  have "power_step (s1\<lparr>worker := B_Timed ?d1 False, clock := ?d1\<rparr>) ?s4"
    using step_timeout [of "s1\<lparr>worker := B_Timed ?d1 False, clock := ?d1\<rparr>" ?d1 False]
    by (simp add: s1_def power_zero_def worker_timeout_def compare_timespec_def)
  with r3 have r4: "power_reachable ?s4" by (rule reachable_step)
  define s5 where "s5 = ?s4\<lparr>boost_deadline := ?d2, boost_active := True,
    nodes := apply_writes (set_interaction_boost True) (nodes ?s4)\<rparr>"
  have r5: "power_reachable s5"
    using reach_launch [OF r4] by (simp add: s1_def s5_def power_zero_def d)
  have s5: "caller s5 = []" "boost_active s5" "boost_deadline s5 = ?d2" "clock s5 = ?d1"
    "worker s5 = B_Restore (set_interaction_boost False)"
    by (simp_all add: s5_def s1_def power_zero_def)
  note paths = cpu0_min_def cpu4_min_def gpu_min_def ddr_min_def hmp_up_def hmp_down_def
  have boosted: "nodes s5 cpu0_min = Some ''1516800''" "nodes s5 cpu4_min = Some ''2016000''"
    "nodes s5 gpu_min = Some ''600000000''" "nodes s5 ddr_min = Some ''667000000''"
    "nodes s5 hmp_up = Some ''300''" "nodes s5 hmp_down = Some ''150''"
    by (simp_all add: s5_def set_interaction_boost_def apply_writes_simps paths)
  define t where "t = s5\<lparr>nodes := apply_writes (set_interaction_boost False) (nodes s5), worker := worker_loop s5\<rparr>"
  have path: "worker_step\<^sup>*\<^sup>* s5 t" unfolding t_def by (rule worker_restores [OF s5(5,1)])
  have t: "clock t = clock s5" "boost_active t" "boost_deadline t = boost_deadline s5"
    "worker t = B_Timed (boost_deadline s5) False"
    by (simp_all add: t_def s5 worker_loop_def)
  have normal: "nodes t cpu0_min = Some ''403200''" "nodes t cpu4_min = Some ''1017600''"
    "nodes t gpu_min = Some ''288000000''" "nodes t ddr_min = Some ''120000000''"
    "nodes t hmp_up = Some ''978''" "nodes t hmp_down = Some ''672''"
    by (simp_all add: t_def set_interaction_boost_def apply_writes_simps paths)
  have "ns (clock s5) < ns (boost_deadline s5)" by (simp add: s5 ns_def)
  with r5 s5(1,2) boosted path t normal show ?thesis by blast
qed

end
