(* ===== verification/Power_Liveness.thy ===== *)
theory Power_Liveness
  imports Power_Hal Fair_Runs
begin

text \<open>
  What the worker of \<open>power/power.c\<close> achieves when it is scheduled: once the framework
  makes no more calls and time passes the deadline, the boost is taken back and the worker comes to rest
  in its wait for the next one.
\<close>

section \<open>The steps the worker can be relied on to take\<close>

text \<open>
  A wait ends when it was signalled or when its time has passed; spurious wake-ups are possible but
  nothing relies on them. Restoring the nodes never blocks.
\<close>

inductive worker_progress :: "power \<Rightarrow> power \<Rightarrow> bool" where
  progress_wake: "worker s = B_Wait True \<Longrightarrow> worker_progress s (s\<lparr>worker := worker_loop s\<rparr>)"
| progress_signal: "worker s = B_Timed d True \<Longrightarrow> worker_progress s (s\<lparr>worker := worker_loop s\<rparr>)"
| progress_timeout: "worker s = B_Timed d sig \<Longrightarrow> compare_timespec (clock s) d \<ge> 0
    \<Longrightarrow> worker_progress s (worker_timeout s)"
| progress_restore: "worker s = B_Restore ((path, v) # ws)
    \<Longrightarrow> worker_progress s ((write_value accepted path v s)\<lparr>worker := B_Restore ws\<rparr>)"
| progress_restored: "worker s = B_Restore [] \<Longrightarrow> worker_progress s (s\<lparr>worker := worker_loop s\<rparr>)"

lemma worker_progress_step: "worker_progress s t \<Longrightarrow> power_step s t"
  by (induction rule: worker_progress.induct) (auto intro: power_step.intros)

section \<open>Progress\<close>

text \<open>No call is in progress and the deadline of the boost, if there is one, has passed.\<close>

definition overdue :: "power \<Rightarrow> bool" where
  "overdue s \<longleftrightarrow> caller s = [] \<and> (boost_active s \<longrightarrow> ns (boost_deadline s) \<le> ns (clock s))"

definition at_rest :: "power \<Rightarrow> bool" where
  "at_rest s \<longleftrightarrow> \<not> boost_active s \<and> worker s = B_Wait False"

fun worker_rank :: "bool \<Rightarrow> worker_pc \<Rightarrow> nat" where
  "worker_rank True (B_Restore ws) = 20 + length ws"
| "worker_rank True (B_Wait sig) = 20"
| "worker_rank True (B_Timed d sig) = (if sig then 19 else 18)"
| "worker_rank False (B_Restore ws) = 1 + length ws"
| "worker_rank False pc = 1"

abbreviation power_rank :: "power \<Rightarrow> nat" where
  "power_rank s \<equiv> worker_rank (boost_active s) (worker s)"

text \<open>The top of the loop and a time-out, from an overdue state.\<close>

lemma loop_progress:
  assumes "overdue s"
  shows "at_rest (s\<lparr>worker := worker_loop s\<rparr>)
    \<or> boost_active s \<and> overdue (s\<lparr>worker := worker_loop s\<rparr>) \<and> power_rank (s\<lparr>worker := worker_loop s\<rparr>) = 18"
  using assms by (simp add: worker_loop_def at_rest_def overdue_def)

lemma timeout_progress:
  assumes "power_inv s" and "overdue s" and "worker s = B_Timed d sig"
  shows "at_rest (worker_timeout s) \<or> overdue (worker_timeout s) \<and> power_rank (worker_timeout s) < power_rank s"
proof (cases "boost_active s")
  case True
  have "0 \<le> compare_timespec (clock s) (boost_deadline s)"
    using clock_order(2) [OF power_invD(1) [OF assms(1)]] power_invD(2) [OF assms(1) True] assms(2) True
    by (simp add: soon_def overdue_def)
  with True assms(2,3) show ?thesis
    by (simp add: worker_timeout_def overdue_def set_interaction_boost_def)
next
  case False
  then show ?thesis by (simp add: worker_timeout_def worker_loop_def at_rest_def)
qed

lemma overdue_persists:
  assumes "power_inv s" and "overdue s" and "power_step s t"
  shows "caller t \<noteq> [] \<or> at_rest t \<or> overdue t \<and> power_rank t \<le> power_rank s"
  using assms(3)
proof cases
  case (step_tick t')
  have "ns (clock s) \<le> ns t'"
    using clock_order(1) [OF power_invD(1) [OF assms(1)] clock_ok_normal] step_tick by blast
  with step_tick assms(2) show ?thesis by (auto simp: overdue_def)
next
  case (step_timeout d sig)
  with timeout_progress [OF assms(1,2)] show ?thesis by fastforce
next
  case (step_wake sig)
  with loop_progress [OF assms(2)] show ?thesis by auto
next
  case (step_wake_timed d sig)
  with loop_progress [OF assms(2)] show ?thesis by auto
next
  case step_restored
  with loop_progress [OF assms(2)] show ?thesis by auto
next
  case (step_restore path v ws accepted)
  with assms(2) show ?thesis
    by (cases "boost_active s") (auto simp: overdue_def write_value_def)
qed (use assms(2) in \<open>auto simp: overdue_def\<close>)

lemma overdue_achieves:
  assumes "power_inv s" and "overdue s" and "worker_progress s t"
  shows "at_rest t \<or> overdue t \<and> power_rank t < power_rank s"
  using assms(3)
proof cases
  case (progress_timeout d sig)
  with timeout_progress [OF assms(1,2)] show ?thesis by simp
next
  case progress_wake
  with loop_progress [OF assms(2)] show ?thesis by auto
next
  case (progress_signal d)
  with loop_progress [OF assms(2)] show ?thesis by auto
next
  case progress_restored
  with loop_progress [OF assms(2)] show ?thesis by auto
next
  case (progress_restore path v ws accepted)
  with assms(2) show ?thesis
    by (cases "boost_active s") (auto simp: overdue_def write_value_def)
qed

lemma overdue_ready:
  assumes "power_inv s" and "overdue s"
  shows "at_rest s \<or> (\<exists>t. worker_progress s t)"
proof (cases "worker s")
  case (B_Wait sig)
  with power_invD(5) [OF assms(1)] show ?thesis
    by (cases sig) (auto simp: at_rest_def intro: progress_wake)
next
  case (B_Timed d sig)
  show ?thesis
  proof (cases sig)
    case True
    with B_Timed have "worker s = B_Timed d True" by simp
    then show ?thesis by (blast intro: progress_signal)
  next
    case False
    then have d: "normal d" "boost_active s" "ns d \<le> ns (boost_deadline s)"
      using power_invD(5) [OF assms(1)] B_Timed by simp_all
    then have "0 \<le> compare_timespec (clock s) d"
      using clock_order(2) [OF power_invD(1) [OF assms(1)]] assms(2) by (simp add: overdue_def)
    with B_Timed show ?thesis by (blast intro: progress_timeout)
  qed
next
  case (B_Restore ws)
  then show ?thesis
    by (cases ws) (auto intro: progress_restored progress_restore)
qed

interpretation worker_fair: fair_progress power_init power_step power_inv
  worker_progress overdue "\<lambda>s. caller s \<noteq> [] \<or> at_rest s" power_rank
proof (unfold_locales, goal_cases)
  case (1 s t)
  then show ?case using overdue_persists by blast
next
  case (2 s t)
  then show ?case using overdue_achieves by blast
next
  case (3 s)
  then show ?case using overdue_ready by blast
qed

section \<open>A framework that makes no more calls\<close>

lemma quiet_deadline:
  assumes "run_of power_init power_step r" and "\<forall>n \<ge> m. caller (r n) = []"
  shows "m \<le> n \<Longrightarrow> boost_deadline (r n) = boost_deadline (r m)"
  by (rule run_of_keeps [OF assms(1), where C = "\<lambda>s _. caller s = []"])
    (use assms(2) in \<open>auto elim!: power_stepE simp: worker_timeout_def write_value_def\<close>)

lemma quiet_rest:
  assumes "run_of power_init power_step r" and "\<forall>k \<ge> n. caller (r k) = []" and "at_rest (r n)"
  shows "n \<le> k \<Longrightarrow> at_rest (r k)"
  by (rule run_of_keeps [OF assms(1), where C = "\<lambda>s _. caller s = []"])
    (use assms(2,3) in \<open>auto elim!: power_stepE simp: at_rest_def worker_loop_def\<close>)

section \<open>The nodes\<close>

text \<open>The normal values, and what has been written of them once a boost has ended.\<close>

definition normal_nodes :: "power \<Rightarrow> bool" where
  "normal_nodes s \<longleftrightarrow> (\<forall>(path, v) \<in> set (set_interaction_boost False). nodes s path = Some v)"

definition restoring :: "power \<Rightarrow> bool" where
  "restoring s \<longleftrightarrow> boost_active s \<or> (case worker s of
       B_Restore ws \<Rightarrow> (\<exists>gone. set_interaction_boost False = gone @ ws \<and> (\<forall>(path, v) \<in> set gone. nodes s path = Some v))
     | _ \<Rightarrow> normal_nodes s)"

text \<open>The kernel takes the value that the worker writes in this step, if it writes one.\<close>

definition write_taken :: "power \<Rightarrow> power \<Rightarrow> bool" where
  "write_taken s t \<longleftrightarrow> (\<forall>path v ws. worker s = B_Restore ((path, v) # ws) \<and> worker t = B_Restore ws \<longrightarrow> nodes t path = Some v)"

lemma normal_paths: "(path, v) \<in> set (set_interaction_boost False) \<Longrightarrow> (path, u) \<in> set (set_interaction_boost False) \<Longrightarrow> u = v"
  by (auto simp: set_interaction_boost_def cpu0_min_def cpu4_min_def gpu_min_def ddr_min_def hmp_up_def hmp_down_def)

lemma restoring_step:
  assumes "caller s = []" and "write_taken s t" and "power_step s t" and "restoring s"
  shows "restoring t"
  using assms(3)
proof cases
  case (step_restore path v ws accepted)
  show ?thesis
  proof (cases "boost_active s")
    case True
    with step_restore show ?thesis by (simp add: restoring_def write_value_def)
  next
    case False
    with assms(4) step_restore obtain ws0 where written: "set_interaction_boost False = ws0 @ (path, v) # ws"
      "\<forall>(path, v) \<in> set ws0. nodes s path = Some v" by (auto simp: restoring_def)
    have "nodes t path = Some v" using assms(2) step_restore by (simp add: write_taken_def)
    moreover have "nodes t q = nodes s q" if "q \<noteq> path" for q
      using that step_restore by (simp add: write_value_def)
    moreover have "u = v" if "(path, u) \<in> set ws0" for u
      using normal_paths [of path v u] that written(1) by simp
    ultimately have "\<forall>(path, v) \<in> set (ws0 @ [(path, v)]). nodes t path = Some v"
      using written(2) by (auto split: prod.splits) metis+
    moreover have "set_interaction_boost False = (ws0 @ [(path, v)]) @ ws" using written(1) by simp
    ultimately show ?thesis using step_restore unfolding restoring_def by auto
  qed
qed (use assms(1,4) in \<open>auto simp: restoring_def worker_loop_def worker_timeout_def normal_nodes_def split: worker_pc.splits\<close>)

lemma restoring_kept:
  assumes "run_of power_init power_step r" and "\<forall>n \<ge> m. caller (r n) = []"
    and "\<forall>n \<ge> m. write_taken (r n) (r (Suc n))" and "restoring (r m)"
  shows "m \<le> n \<Longrightarrow> restoring (r n)"
  by (rule run_of_keeps [OF assms(1), where C = "\<lambda>s t. caller s = [] \<and> write_taken s t" and m = m])
    (use assms(2-4) restoring_step in blast)+

text \<open>A worker that runs alone, for the witness.\<close>

definition worker_next :: "power \<Rightarrow> power" where
  "worker_next s = (case worker s of
       B_Wait sig \<Rightarrow> if sig then s\<lparr>worker := worker_loop s\<rparr> else s
     | B_Timed d sig \<Rightarrow>
         if compare_timespec (clock s) d \<ge> 0 then worker_timeout s
         else if sig then s\<lparr>worker := worker_loop s\<rparr> else s
     | B_Restore [] \<Rightarrow> s\<lparr>worker := worker_loop s\<rparr>
     | B_Restore ((path, v) # ws) \<Rightarrow> (write_value True path v s)\<lparr>worker := B_Restore ws\<rparr>)"

lemma worker_next_progress: "worker_progress s (worker_next s) \<or> worker_next s = s"
  by (auto simp: worker_next_def intro: worker_progress.intros
      split: worker_pc.split list.split)

lemma worker_next_writes: "write_taken s (worker_next s)"
  by (auto simp: write_taken_def worker_next_def write_value_def)

lemma worker_next_taken: "worker_progress s t \<Longrightarrow> worker_progress s (worker_next s)"
  by (induction rule: worker_progress.induct)
    (auto simp: worker_next_def intro: worker_progress.intros)

lemma worker_next_frame:
  "caller (worker_next s) = caller s" "clock (worker_next s) = clock s"
  "boost_deadline (worker_next s) = boost_deadline s"
  by (auto simp: worker_next_def worker_timeout_def write_value_def split: worker_pc.split list.split)

lemma worker_alone:
  assumes "power_reachable s" and "caller s = []" and "ns (boost_deadline s) \<le> ns (clock s)"
  defines "r \<equiv> scheduled worker_next s"
  shows "run_of power_init power_step r" "weakly_fair worker_progress r" "\<forall>n \<ge> 0. caller (r n) = []"
    "\<forall>n \<ge> 0. \<exists>k \<ge> n. ns (boost_deadline (r n)) \<le> ns (clock (r k))"
proof -
  show "run_of power_init power_step r"
    unfolding r_def
    using worker_next_progress worker_progress_step by (blast intro: scheduled_run [OF assms(1)])
  show "weakly_fair worker_progress r"
    unfolding r_def by (rule scheduled_fair) (rule worker_next_taken)
  have "caller (r n) = [] \<and> ns (boost_deadline (r n)) \<le> ns (clock (r n))" for n
    unfolding r_def by (induction n) (simp_all add: worker_next_frame assms(2,3))
  then show "\<forall>n \<ge> 0. caller (r n) = []"
    "\<forall>n \<ge> 0. \<exists>k \<ge> n. ns (boost_deadline (r n)) \<le> ns (clock (r k))"
    by blast+
qed

section \<open>Property\<close>

text \<open>
  C23: The boost is taken back. In a run in which the worker is scheduled weakly fairly, the framework
  makes no call after some moment and time passes the deadline then set, there is a moment from which on
  no boost is active and the worker waits for the next one, having left its loop over the nodes. If a
  boost was active and the kernel takes the values the worker writes, all six nodes hold their normal
  values from then on.
\<close>

theorem boost_taken_back:
  assumes "run_of power_init power_step r" and "weakly_fair worker_progress r"
    and "\<forall>n \<ge> m. caller (r n) = []"
    and "\<forall>n \<ge> m. \<exists>k \<ge> n. ns (boost_deadline (r n)) \<le> ns (clock (r k))"
  shows "\<exists>n \<ge> m. \<forall>k \<ge> n. \<not> boost_active (r k) \<and> worker (r k) = B_Wait False
    \<and> (boost_active (r m) \<and> (\<forall>j \<ge> m. write_taken (r j) (r (Suc j))) \<longrightarrow> normal_nodes (r k))"
proof -
  obtain k where k: "m \<le> k" "ns (boost_deadline (r m)) \<le> ns (clock (r k))" using assms(4) by blast
  then have "overdue (r k)"
    using assms(3) quiet_deadline [OF assms(1,3) k(1)] by (simp add: overdue_def)
  from worker_fair.leads_to [OF assms(1,2) this] obtain n where n: "k \<le> n" "at_rest (r n)"
    using assms(3) k(1) by auto
  have "\<forall>j \<ge> n. caller (r j) = []" using assms(3) k(1) n(1) by simp
  note rest = quiet_rest [OF assms(1) this n(2)]
  have "normal_nodes (r j)" if "boost_active (r m) \<and> (\<forall>j \<ge> m. write_taken (r j) (r (Suc j)))" "n \<le> j" for j
  proof -
    have "restoring (r m)" "m \<le> j" using that k(1) n(1) by (simp_all add: restoring_def)
    with that(1) have "restoring (r j)" by (blast intro: restoring_kept [OF assms(1,3)])
    with rest [OF that(2)] show ?thesis by (simp add: restoring_def at_rest_def)
  qed
  with rest k(1) n(1) show ?thesis
    unfolding at_rest_def by (intro exI [of _ n]) auto
qed

theorem boost_taken_back_witness:
  "\<exists>r :: nat \<Rightarrow> power. boost_active (r 0) \<and> nodes (r 0) cpu0_min = Some ''1516800''
    \<and> (\<exists>n. \<not> boost_active (r n) \<and> worker (r n) = B_Wait False \<and> nodes (r n) cpu0_min = Some ''403200'')"
proof -
  let ?d = "\<lparr>tv_sec = 1, tv_nsec = 500000000\<rparr> :: timespec"
  define s where "s = power_zero\<lparr>boost_deadline := ?d, boost_active := True,
    worker := B_Wait True, nodes := apply_writes (set_interaction_boost True) (nodes power_zero)\<rparr>"
  have d: "deadline_after 1500 (clock power_zero) = ?d"
    by (simp add: deadline_after_def power_zero_def s64_def sdiv_nonneg smod_nonneg)
  have "power_reachable s"
    using reach_launch [OF power_zero_reachable] by (simp add: power_zero_def s_def d [simplified power_zero_def, simplified])
  moreover have "power_step s (s\<lparr>clock := ?d\<rparr>)"
    using step_tick [of ?d s] by (simp add: s_def power_zero_def clock_ok_def compare_timespec_def)
  ultimately have "power_reachable (s\<lparr>clock := ?d\<rparr>)" by (rule reachable_step)
  note alone = worker_alone [OF this]
  let ?r = "scheduled worker_next (s\<lparr>clock := ?d\<rparr>)"
  have start: "caller (s\<lparr>clock := ?d\<rparr>) = []" "ns (boost_deadline (s\<lparr>clock := ?d\<rparr>)) \<le> ns (clock (s\<lparr>clock := ?d\<rparr>))"
    by (simp_all add: s_def power_zero_def)
  have "boost_active (?r 0)" "\<forall>j \<ge> 0. write_taken (?r j) (?r (Suc j))"
    by (simp_all add: s_def worker_next_writes)
  with boost_taken_back [OF alone [OF start]] obtain n where n: "\<not> boost_active (?r n)" "worker (?r n) = B_Wait False"
    "normal_nodes (?r n)" by blast
  then have "nodes (?r n) cpu0_min = Some ''403200''" by (simp add: normal_nodes_def set_interaction_boost_def)
  moreover have "nodes (?r 0) cpu0_min = Some ''1516800''"
    by (simp add: s_def apply_writes_def set_interaction_boost_def cpu0_min_def cpu4_min_def gpu_min_def ddr_min_def hmp_up_def hmp_down_def)
  ultimately show ?thesis using n \<open>boost_active (?r 0)\<close> by blast
qed

end
