(* ===== verification/Health_Board.thy ===== *)
theory Health_Board
  imports Mozart_Prelude
begin

text \<open>
  The board part of the health service, \<open>health/HealthService.cpp\<close>: the fuel gauge reports mA and mAh,
  the framework expects micro units. The theory shows that a value is scaled exactly when the result
  fits its type, and is otherwise passed on as it is.
\<close>

section \<open>Scaling\<close>

definition kMilliToMicro :: int where "kMilliToMicro = 1000"

definition kChargeNowPath :: string where
  "kChargeNowPath = ''/sys/class/power_supply/Battery/charge_now''"

definition INT_MAX :: int where "INT_MAX = 2 ^ 31 - 1"

definition INT_MIN :: int where "INT_MIN = - (2 ^ 31)"

definition INT64_MAX :: int where "INT64_MAX = 2 ^ 63 - 1"

definition INT64_MIN :: int where "INT64_MIN = - (2 ^ 63)"

text \<open>The two overloads, for \<open>int\<close> and for \<open>int64_t\<close>.\<close>

definition scaleToMicro :: "int \<Rightarrow> int" where
  "scaleToMicro v =
     (if v > INT_MAX sdiv kMilliToMicro \<or> v < INT_MIN sdiv kMilliToMicro then v
      else s32 (v * kMilliToMicro))"

definition scaleToMicro64 :: "int \<Rightarrow> int" where
  "scaleToMicro64 v =
     (if v > INT64_MAX sdiv kMilliToMicro \<or> v < INT64_MIN sdiv kMilliToMicro then v
      else s64 (v * kMilliToMicro))"

section \<open>The operations of the board\<close>

text \<open>The fields of \<open>BatteryProperties\<close> and of the configuration that the code touches, and the rest.\<close>

record 'x battery_props =
  batteryCurrent :: int
  batteryFullCharge :: int
  batteryChargeCounter :: int
  otherProps :: 'x

record 'x healthd_config =
  batteryChargeCounterPath :: string
  otherConfig :: 'x

text \<open>The property numbers of \<open>BatteryService.h\<close> are a parameter.\<close>

record battery_h =
  BATTERY_PROP_CHARGE_COUNTER :: int
  BATTERY_PROP_CURRENT_NOW :: int
  BATTERY_PROP_CURRENT_AVG :: int

definition healthd_board_init :: "'x healthd_config \<Rightarrow> 'x healthd_config" where
  "healthd_board_init config = config\<lparr>batteryChargeCounterPath := kChargeNowPath\<rparr>"

definition healthd_board_battery_update :: "'x battery_props \<Rightarrow> int \<times> 'x battery_props" where
  "healthd_board_battery_update props =
     (0, props\<lparr>batteryCurrent := scaleToMicro (batteryCurrent props),
           batteryFullCharge := scaleToMicro (batteryFullCharge props),
           batteryChargeCounter := scaleToMicro (batteryChargeCounter props)\<rparr>)"

definition healthd_board_battery_property_update :: "battery_h \<Rightarrow> int \<Rightarrow> int \<Rightarrow> int" where
  "healthd_board_battery_property_update B prop_id v =
     (if prop_id = BATTERY_PROP_CHARGE_COUNTER B \<or> prop_id = BATTERY_PROP_CURRENT_NOW B
         \<or> prop_id = BATTERY_PROP_CURRENT_AVG B
      then scaleToMicro64 v else v)"

lemma limits:
  "INT_MAX sdiv kMilliToMicro = 2147483" "INT_MIN sdiv kMilliToMicro = -2147483"
  "INT64_MAX sdiv kMilliToMicro = 9223372036854775" "INT64_MIN sdiv kMilliToMicro = -9223372036854775"
  by (simp_all add: INT_MAX_def INT_MIN_def INT64_MAX_def INT64_MIN_def kMilliToMicro_def
      signed_divide_int_def)

lemma scaleToMicro_eq: "scaleToMicro v = (if in_s32 (1000 * v) then 1000 * v else v)"
proof -
  have "s32 (1000 * v) = 1000 * v" if "-2147483 \<le> v" "v \<le> 2147483"
    by (rule s32_in_range) (use that in \<open>simp add: in_s32_def\<close>)
  then show ?thesis
    unfolding scaleToMicro_def limits by (auto simp: in_s32_def kMilliToMicro_def mult.commute)
qed

lemma scaleToMicro64_eq: "scaleToMicro64 v = (if in_s64 (1000 * v) then 1000 * v else v)"
proof -
  have "s64 (1000 * v) = 1000 * v" if "-9223372036854775 \<le> v" "v \<le> 9223372036854775"
    by (rule s64_in_range) (use that in \<open>simp add: in_s64_def\<close>)
  then show ?thesis
    unfolding scaleToMicro64_def limits by (auto simp: in_s64_def kMilliToMicro_def mult.commute)
qed

section \<open>Properties\<close>

text \<open>
  C32: units of the battery. Each of the three battery values is multiplied by 1000 exactly when the
  product is an \<open>int\<close>, and likewise the three 64-bit properties; no multiplication overflows, a value
  that cannot be scaled is passed on unchanged, and no other property is touched.
\<close>

theorem battery_units:
  "healthd_board_battery_update props = (0, props\<lparr>
     batteryCurrent := (if in_s32 (1000 * batteryCurrent props) then 1000 * batteryCurrent props
                        else batteryCurrent props),
     batteryFullCharge := (if in_s32 (1000 * batteryFullCharge props) then 1000 * batteryFullCharge props
                           else batteryFullCharge props),
     batteryChargeCounter := (if in_s32 (1000 * batteryChargeCounter props) then 1000 * batteryChargeCounter props
                              else batteryChargeCounter props)\<rparr>)
   \<and> healthd_board_battery_property_update B prop_id v =
      (if prop_id \<in> {BATTERY_PROP_CHARGE_COUNTER B, BATTERY_PROP_CURRENT_NOW B, BATTERY_PROP_CURRENT_AVG B}
          \<and> in_s64 (1000 * v)
       then 1000 * v else v)"
  by (simp add: healthd_board_battery_update_def healthd_board_battery_property_update_def
      scaleToMicro_eq scaleToMicro64_eq)

end
