(* ===== verification/Vendor_Init.thy ===== *)
theory Vendor_Init
  imports Mozart_Prelude
begin

text \<open>
  The vendor part of \<open>init\<close>, \<open>libinit/init_huawei_hi3635.cpp\<close>: it overrides the read-only product and
  build properties from the board name. The system property area is not part of the repository and
  is a parameter with its documented laws. The theory gives the final value of every property.
\<close>

section \<open>The property area\<close>

text \<open>
  Find, update, add, and what a reader of the area sees. Update and add report whether they succeeded:
  they fail when a value is too long or the area is full, and then change nothing.
\<close>

record 's prop_area =
  property_find :: "string \<Rightarrow> 's \<Rightarrow> bool"
  property_update :: "string \<Rightarrow> string \<Rightarrow> 's \<Rightarrow> bool \<times> 's"
  property_add :: "string \<Rightarrow> string \<Rightarrow> 's \<Rightarrow> bool \<times> 's"
  property_get :: "'s \<Rightarrow> string \<rightharpoonup> string"

definition stores :: "'s prop_area \<Rightarrow> string \<Rightarrow> string \<Rightarrow> 's \<Rightarrow> bool \<times> 's \<Rightarrow> bool" where
  "stores A n v s r \<longleftrightarrow>
     property_get A (snd r) = (if fst r then (property_get A s)(n \<mapsto> v) else property_get A s)"

definition prop_area_ok :: "'s prop_area \<Rightarrow> bool" where
  "prop_area_ok A \<longleftrightarrow>
     (\<forall>n s. property_find A n s \<longleftrightarrow> property_get A s n \<noteq> None)
     \<and> (\<forall>n v s. property_find A n s \<longrightarrow> stores A n v s (property_update A n v s))
     \<and> (\<forall>n v s. \<not> property_find A n s \<longrightarrow> stores A n v s (property_add A n v s))"

text \<open>An area that is a map and refuses values of 92 characters and more, for the witness.\<close>

definition map_area :: "(string \<rightharpoonup> string) prop_area" where
  "map_area = \<lparr>property_find = (\<lambda>n s. s n \<noteq> None),
     property_update = (\<lambda>n v s. if length v < 92 then (True, s(n \<mapsto> v)) else (False, s)),
     property_add = (\<lambda>n v s. if length v < 92 then (True, s(n \<mapsto> v)) else (False, s)), property_get = id\<rparr>"

lemma map_area_ok: "prop_area_ok map_area"
  by (simp add: prop_area_ok_def map_area_def stores_def)

section \<open>The operations\<close>

definition kStockBuildDescription :: string where
  "kStockBuildDescription = ''M2-user 6.0 HUAWEIM2-801W C233B217 release-keys''"

definition kStockBuildDisplayId :: string where
  "kStockBuildDisplayId = ''M2-801WV100R001C233B217''"

definition kStockBuildFingerprint :: string where
  "kStockBuildFingerprint = ''HUAWEI/M2/HWMozart:6.0/HUAWEIM2-801W/C233B217:user/release-keys''"

definition ro_props_default_source_order :: "string list" where
  "ro_props_default_source_order = ['''', ''odm.'', ''product.'', ''system.'', ''system_ext.'', ''vendor.'']"

text \<open>The results of the two calls are ignored.\<close>

definition property_override :: "'s prop_area \<Rightarrow> string \<Rightarrow> string \<Rightarrow> 's \<Rightarrow> 's" where
  "property_override A prop v s =
     (if property_find A prop s then snd (property_update A prop v s) else snd (property_add A prop v s))"

definition prop_name :: "bool \<Rightarrow> string \<Rightarrow> string \<Rightarrow> string" where
  "prop_name product source prop =
     (if product then ''ro.product.'' @ source @ prop else ''ro.'' @ source @ ''build.'' @ prop)"

definition set_ro_build_prop :: "'s prop_area \<Rightarrow> string \<Rightarrow> string \<Rightarrow> bool \<Rightarrow> 's \<Rightarrow> 's" where
  "set_ro_build_prop A prop v product s =
     foldl (\<lambda>s source. property_override A (prop_name product source prop) v s)
       s ro_props_default_source_order"

text \<open>\<open>std::string::find\<close>, of which only success matters.\<close>

fun contains :: "string \<Rightarrow> string \<Rightarrow> bool" where
  "contains [] pat = (pat = [])"
| "contains (c # cs) pat = (take (length pat) (c # cs) = pat \<or> contains cs pat)"

definition model_name :: "string \<Rightarrow> string" where
  "model_name model =
     (if contains model ''801W'' then ''HUAWEI M2-801W''
      else if contains model ''801L'' then ''HUAWEI M2-801L''
      else if contains model ''802L'' then ''HUAWEI M2-802L''
      else if contains model ''803L'' then ''HUAWEI M2-803L''
      else ''HUAWEI MediaPad M2 8.0'')"

text \<open>\<open>board\<close> is what reading the board name from the device tree gives.\<close>

definition vendor_load_properties :: "'s prop_area \<Rightarrow> string option \<Rightarrow> 's \<Rightarrow> 's" where
  "vendor_load_properties A board s =
     (let s = set_ro_build_prop A ''brand'' ''HUAWEI'' True s;
          s = set_ro_build_prop A ''device'' ''HWMozart'' True s;
          s = set_ro_build_prop A ''manufacturer'' ''HUAWEI'' True s;
          s = set_ro_build_prop A ''name'' ''M2'' True s;
          s = (case board of None \<Rightarrow> s
               | Some model \<Rightarrow> set_ro_build_prop A ''model'' (model_name model) True s);
          s = set_ro_build_prop A ''description'' kStockBuildDescription False s;
          s = set_ro_build_prop A ''fingerprint'' kStockBuildFingerprint False s;
          s = set_ro_build_prop A ''id'' ''HUAWEIM2-801W'' False s;
          s = set_ro_build_prop A ''version.incremental'' ''C233B217'' False s;
          s = property_override A ''ro.build.display.id'' kStockBuildDisplayId s;
          s = property_override A ''ro.bootimage.build.description'' kStockBuildDescription s;
          s = property_override A ''ro.bootimage.build.fingerprint'' kStockBuildFingerprint s;
          s = property_override A ''ro.bootimage.build.id'' ''HUAWEIM2-801W'' s
      in property_override A ''ro.bootimage.build.version.incremental'' ''C233B217'' s)"

section \<open>What a reader sees\<close>

definition accepts :: "'s prop_area \<Rightarrow> string \<Rightarrow> string \<Rightarrow> 's \<Rightarrow> bool" where
  "accepts A n v s \<longleftrightarrow> fst (if property_find A n s then property_update A n v s else property_add A n v s)"

lemma property_override_get:
  "prop_area_ok A \<Longrightarrow> property_get A (property_override A n v s)
    = (if accepts A n v s then (property_get A s)(n \<mapsto> v) else property_get A s)"
  by (simp add: property_override_def prop_area_ok_def accepts_def stores_def)

abbreviation override_all :: "'s prop_area \<Rightarrow> 's \<Rightarrow> (string \<times> string) list \<Rightarrow> 's" where
  "override_all A \<equiv> foldl (\<lambda>s (n, v). property_override A n v s)"

text \<open>When each name is always written with the same value, each write is kept or was refused.\<close>

lemma override_all_other:
  "prop_area_ok A \<Longrightarrow> p \<notin> fst ` set xs \<Longrightarrow> property_get A (override_all A s xs) p = property_get A s p"
  by (induction xs arbitrary: s) (auto simp: property_override_get)

text \<open>A write of the list that the area refuses in the state in which it is made.\<close>

definition refused :: "'s prop_area \<Rightarrow> 's \<Rightarrow> (string \<times> string) list \<Rightarrow> string \<Rightarrow> string \<Rightarrow> bool" where
  "refused A s xs n v \<longleftrightarrow> (\<exists>ys zs. xs = ys @ (n, v) # zs \<and> \<not> accepts A n v (override_all A s ys))"

lemma refused_first: "\<not> accepts A n v s \<Longrightarrow> refused A s ((n, v) # xs) n v"
  unfolding refused_def by (intro exI [of _ "[]"] exI [of _ xs]) simp

lemma refused_later: "refused A (property_override A m w s) xs n v \<Longrightarrow> refused A s ((m, w) # xs) n v"
proof -
  assume "refused A (property_override A m w s) xs n v"
  then obtain ys zs where "xs = ys @ (n, v) # zs" "\<not> accepts A n v (override_all A (property_override A m w s) ys)"
    unfolding refused_def by blast
  then show ?thesis unfolding refused_def by (intro exI [of _ "(m, w) # ys"] exI [of _ zs]) simp
qed

lemma override_all_get:
  assumes ok: "prop_area_ok A" and "\<forall>x \<in> set xs. snd x = val (fst x)" and "p \<in> fst ` set xs"
  shows "property_get A (override_all A s xs) p = Some (val p)
      \<or> refused A s xs p (val p) \<and> property_get A (override_all A s xs) p = property_get A s p"
  using assms(2,3)
proof (induction xs arbitrary: s)
  case (Cons x xs)
  obtain n where x: "x = (n, val n)" using Cons.prems(1) by (cases x) auto
  let ?s = "property_override A n (val n) s"
  have first: "property_get A ?s p = (if n = p \<and> accepts A p (val p) s then Some (val p) else property_get A s p)"
    by (simp add: property_override_get [OF ok])
  show ?case
  proof (cases "p \<in> fst ` set xs")
    case True
    from Cons.IH [OF _ True, of ?s] Cons.prems(1)
    have "property_get A (override_all A ?s xs) p = Some (val p)
        \<or> refused A ?s xs p (val p) \<and> property_get A (override_all A ?s xs) p = property_get A ?s p" by simp
    with first refused_later [of A n "val n" s xs p "val p"] show ?thesis by (auto simp: x split: if_splits)
  next
    case False
    with Cons.prems(2) override_all_other [OF ok False, of ?s] first refused_first [of A p "val p" s xs]
    show ?thesis by (auto simp: x)
  qed
qed simp

text \<open>All writes of \<open>vendor_load_properties\<close>, in their order.\<close>

definition all_sources :: "bool \<Rightarrow> string \<Rightarrow> string \<Rightarrow> (string \<times> string) list" where
  "all_sources product prop v = map (\<lambda>source. (prop_name product source prop, v)) ro_props_default_source_order"

definition vendor_settings :: "string option \<Rightarrow> (string \<times> string) list" where
  "vendor_settings board =
     all_sources True ''brand'' ''HUAWEI'' @ all_sources True ''device'' ''HWMozart''
     @ all_sources True ''manufacturer'' ''HUAWEI'' @ all_sources True ''name'' ''M2''
     @ (case board of None \<Rightarrow> [] | Some m \<Rightarrow> all_sources True ''model'' (model_name m))
     @ all_sources False ''description'' kStockBuildDescription @ all_sources False ''fingerprint'' kStockBuildFingerprint
     @ all_sources False ''id'' ''HUAWEIM2-801W'' @ all_sources False ''version.incremental'' ''C233B217''
     @ [(''ro.build.display.id'', kStockBuildDisplayId),
        (''ro.bootimage.build.description'', kStockBuildDescription),
        (''ro.bootimage.build.fingerprint'', kStockBuildFingerprint),
        (''ro.bootimage.build.id'', ''HUAWEIM2-801W''),
        (''ro.bootimage.build.version.incremental'', ''C233B217'')]"

lemma set_ro_build_prop_all: "set_ro_build_prop A prop v product s = override_all A s (all_sources product prop v)"
  by (simp add: set_ro_build_prop_def all_sources_def foldl_map)

lemma vendor_load_all: "vendor_load_properties A board s = override_all A s (vendor_settings board)"
  by (cases board) (simp_all add: vendor_load_properties_def vendor_settings_def set_ro_build_prop_all Let_def)

text \<open>
  The names of one property agree in what follows their last dot, and that determines the value, except
  for the display id.
\<close>

definition after_dot :: "string \<Rightarrow> string" where
  "after_dot p = rev (takeWhile (\<lambda>c. c \<noteq> CHR ''.'') (rev p))"

definition value_of :: "string option \<Rightarrow> string \<Rightarrow> string" where
  "value_of board p =
     (if p = ''ro.build.display.id'' then kStockBuildDisplayId
      else the (map_of [(''brand'', ''HUAWEI''), (''device'', ''HWMozart''), (''manufacturer'', ''HUAWEI''),
        (''name'', ''M2''), (''model'', case board of None \<Rightarrow> [] | Some m \<Rightarrow> model_name m),
        (''description'', kStockBuildDescription), (''fingerprint'', kStockBuildFingerprint),
        (''id'', ''HUAWEIM2-801W''), (''incremental'', ''C233B217'')] (after_dot p)))"

lemma all_sources_after_dot:
  "x \<in> set (all_sources True ''brand'' v) \<Longrightarrow> after_dot (fst x) = ''brand'' \<and> snd x = v"
  "x \<in> set (all_sources True ''device'' v) \<Longrightarrow> after_dot (fst x) = ''device'' \<and> snd x = v"
  "x \<in> set (all_sources True ''manufacturer'' v) \<Longrightarrow> after_dot (fst x) = ''manufacturer'' \<and> snd x = v"
  "x \<in> set (all_sources True ''name'' v) \<Longrightarrow> after_dot (fst x) = ''name'' \<and> snd x = v"
  "x \<in> set (all_sources True ''model'' v) \<Longrightarrow> after_dot (fst x) = ''model'' \<and> snd x = v"
  "x \<in> set (all_sources False ''description'' v) \<Longrightarrow> after_dot (fst x) = ''description'' \<and> snd x = v"
  "x \<in> set (all_sources False ''fingerprint'' v) \<Longrightarrow> after_dot (fst x) = ''fingerprint'' \<and> snd x = v"
  "x \<in> set (all_sources False ''id'' v) \<Longrightarrow> after_dot (fst x) = ''id'' \<and> snd x = v \<and> fst x \<noteq> ''ro.build.display.id''"
  "x \<in> set (all_sources False ''version.incremental'' v) \<Longrightarrow> after_dot (fst x) = ''incremental'' \<and> snd x = v"
  by (auto simp: all_sources_def ro_props_default_source_order_def prop_name_def after_dot_def)

lemma display_id_after_dot: "after_dot ''ro.build.display.id'' = ''id''"
  by (simp add: after_dot_def)

lemma value_of_after_dot:
  "after_dot p = d \<Longrightarrow> d \<noteq> ''id'' \<or> p \<noteq> ''ro.build.display.id'' \<Longrightarrow> value_of board p =
     the (map_of [(''brand'', ''HUAWEI''), (''device'', ''HWMozart''), (''manufacturer'', ''HUAWEI''),
        (''name'', ''M2''), (''model'', case board of None \<Rightarrow> [] | Some m \<Rightarrow> model_name m),
        (''description'', kStockBuildDescription), (''fingerprint'', kStockBuildFingerprint),
        (''id'', ''HUAWEIM2-801W''), (''incremental'', ''C233B217'')] d)"
  using display_id_after_dot by (auto simp: value_of_def)

lemma value_of_single:
  "value_of board ''ro.build.display.id'' = kStockBuildDisplayId"
  "value_of board ''ro.bootimage.build.description'' = kStockBuildDescription"
  "value_of board ''ro.bootimage.build.fingerprint'' = kStockBuildFingerprint"
  "value_of board ''ro.bootimage.build.id'' = ''HUAWEIM2-801W''"
  "value_of board ''ro.bootimage.build.version.incremental'' = ''C233B217''"
  by (simp_all add: value_of_def after_dot_def)

lemma all_sources_value:
  shows "x \<in> set (all_sources True ''brand'' ''HUAWEI'') \<Longrightarrow> snd x = value_of board (fst x)"
    and "x \<in> set (all_sources True ''device'' ''HWMozart'') \<Longrightarrow> snd x = value_of board (fst x)"
    and "x \<in> set (all_sources True ''manufacturer'' ''HUAWEI'') \<Longrightarrow> snd x = value_of board (fst x)"
    and "x \<in> set (all_sources True ''name'' ''M2'') \<Longrightarrow> snd x = value_of board (fst x)"
    and "x \<in> set (all_sources False ''description'' kStockBuildDescription) \<Longrightarrow> snd x = value_of board (fst x)"
    and "x \<in> set (all_sources False ''fingerprint'' kStockBuildFingerprint) \<Longrightarrow> snd x = value_of board (fst x)"
    and "x \<in> set (all_sources False ''id'' ''HUAWEIM2-801W'') \<Longrightarrow> snd x = value_of board (fst x)"
    and "x \<in> set (all_sources False ''version.incremental'' ''C233B217'') \<Longrightarrow> snd x = value_of board (fst x)"
    and "board = Some m \<Longrightarrow> x \<in> set (all_sources True ''model'' (model_name m)) \<Longrightarrow> snd x = value_of board (fst x)"
proof -
  show "snd x = value_of board (fst x)" if "x \<in> set (all_sources True ''brand'' ''HUAWEI'')"
  proof -
    from all_sources_after_dot(1) [OF that] have d: "after_dot (fst x) = ''brand''" "snd x = ''HUAWEI''"
      "''brand'' \<noteq> ''id'' \<or> fst x \<noteq> ''ro.build.display.id''" by (blast | simp)+
    show ?thesis unfolding d(2) value_of_after_dot [OF d(1,3)] by simp
  qed
  show "snd x = value_of board (fst x)" if "x \<in> set (all_sources True ''device'' ''HWMozart'')"
  proof -
    from all_sources_after_dot(2) [OF that] have d: "after_dot (fst x) = ''device''" "snd x = ''HWMozart''"
      "''device'' \<noteq> ''id'' \<or> fst x \<noteq> ''ro.build.display.id''" by (blast | simp)+
    show ?thesis unfolding d(2) value_of_after_dot [OF d(1,3)] by simp
  qed
  show "snd x = value_of board (fst x)" if "x \<in> set (all_sources True ''manufacturer'' ''HUAWEI'')"
  proof -
    from all_sources_after_dot(3) [OF that] have d: "after_dot (fst x) = ''manufacturer''" "snd x = ''HUAWEI''"
      "''manufacturer'' \<noteq> ''id'' \<or> fst x \<noteq> ''ro.build.display.id''" by (blast | simp)+
    show ?thesis unfolding d(2) value_of_after_dot [OF d(1,3)] by simp
  qed
  show "snd x = value_of board (fst x)" if "x \<in> set (all_sources True ''name'' ''M2'')"
  proof -
    from all_sources_after_dot(4) [OF that] have d: "after_dot (fst x) = ''name''" "snd x = ''M2''"
      "''name'' \<noteq> ''id'' \<or> fst x \<noteq> ''ro.build.display.id''" by (blast | simp)+
    show ?thesis unfolding d(2) value_of_after_dot [OF d(1,3)] by simp
  qed
  show "snd x = value_of board (fst x)" if "x \<in> set (all_sources False ''description'' kStockBuildDescription)"
  proof -
    from all_sources_after_dot(6) [OF that] have d: "after_dot (fst x) = ''description''" "snd x = kStockBuildDescription"
      "''description'' \<noteq> ''id'' \<or> fst x \<noteq> ''ro.build.display.id''" by (blast | simp)+
    show ?thesis unfolding d(2) value_of_after_dot [OF d(1,3)] by simp
  qed
  show "snd x = value_of board (fst x)" if "x \<in> set (all_sources False ''fingerprint'' kStockBuildFingerprint)"
  proof -
    from all_sources_after_dot(7) [OF that] have d: "after_dot (fst x) = ''fingerprint''" "snd x = kStockBuildFingerprint"
      "''fingerprint'' \<noteq> ''id'' \<or> fst x \<noteq> ''ro.build.display.id''" by (blast | simp)+
    show ?thesis unfolding d(2) value_of_after_dot [OF d(1,3)] by simp
  qed
  show "snd x = value_of board (fst x)" if "x \<in> set (all_sources False ''id'' ''HUAWEIM2-801W'')"
  proof -
    from all_sources_after_dot(8) [OF that] have d: "after_dot (fst x) = ''id''" "snd x = ''HUAWEIM2-801W''"
      "''id'' \<noteq> ''id'' \<or> fst x \<noteq> ''ro.build.display.id''" by (blast | simp)+
    show ?thesis unfolding d(2) value_of_after_dot [OF d(1,3)] by simp
  qed
  show "snd x = value_of board (fst x)" if "x \<in> set (all_sources False ''version.incremental'' ''C233B217'')"
  proof -
    from all_sources_after_dot(9) [OF that] have d: "after_dot (fst x) = ''incremental''" "snd x = ''C233B217''"
      "''incremental'' \<noteq> ''id'' \<or> fst x \<noteq> ''ro.build.display.id''" by (blast | simp)+
    show ?thesis unfolding d(2) value_of_after_dot [OF d(1,3)] by simp
  qed
  show "snd x = value_of board (fst x)" if "board = Some m" "x \<in> set (all_sources True ''model'' (model_name m))"
  proof -
    from all_sources_after_dot(5) [OF that(2)] have d: "after_dot (fst x) = ''model''" "snd x = model_name m"
      "''model'' \<noteq> ''id'' \<or> fst x \<noteq> ''ro.build.display.id''" by (blast | simp)+
    show ?thesis unfolding d(2) value_of_after_dot [OF d(1,3)] that(1) by simp
  qed
qed

lemma vendor_settings_value: "\<forall>x \<in> set (vendor_settings board). snd x = value_of board (fst x)"
proof -
  have model: "\<forall>x \<in> set (case board of None \<Rightarrow> [] | Some m \<Rightarrow> all_sources True ''model'' (model_name m)). snd x = value_of board (fst x)"
    using all_sources_value(9) by (cases board) (simp_all only: option.case list.set ball_empty, blast)
  show ?thesis
    unfolding vendor_settings_def set_append ball_Un list.set ball_simps fst_conv snd_conv value_of_single
    by (intro conjI ballI TrueI refl; ((rule bspec [OF model], assumption) | erule all_sources_value(1-8)))
qed

lemma contains_iff: "contains str pat \<longleftrightarrow> (\<exists>before after. str = before @ pat @ after)"
proof (induction str)
  case (Cons c cs)
  have "take (length pat) (c # cs) = pat \<longleftrightarrow> (\<exists>after. c # cs = pat @ after)"
    by (metis append_eq_conv_conj append_take_drop_id)
  with Cons show ?case by (auto simp: Cons_eq_append_conv)
qed auto

lemma vendor_setting:
  assumes "prop_area_ok A" and "(p, v) \<in> set (vendor_settings board)"
  shows "property_get A (vendor_load_properties A board s) p = Some v
    \<or> refused A s (vendor_settings board) p v \<and> property_get A (vendor_load_properties A board s) p = property_get A s p"
proof -
  have v: "v = value_of board p" using bspec [OF vendor_settings_value assms(2)] by (simp only: fst_conv snd_conv)
  have "p \<in> fst ` set (vendor_settings board)" by (rule image_eqI [OF _ assms(2)]) (simp only: fst_conv)
  from override_all_get [OF assms(1) vendor_settings_value this, of s] show ?thesis unfolding vendor_load_all v .
qed

lemma vendor_other:
  assumes "prop_area_ok A" and "p \<notin> fst ` set (vendor_settings board)"
  shows "property_get A (vendor_load_properties A board s) p = property_get A s p"
  unfolding vendor_load_all by (rule override_all_other [OF assms])

lemma sources: "set ro_props_default_source_order = {'''', ''odm.'', ''product.'', ''system.'', ''system_ext.'', ''vendor.''}"
  by (simp add: ro_props_default_source_order_def)

lemma all_sources_names:
  "p \<in> fst ` set (all_sources True nm v) \<longleftrightarrow> (\<exists>src \<in> set ro_props_default_source_order. p = ''ro.product.'' @ src @ nm)"
  "p \<in> fst ` set (all_sources False nm v) \<longleftrightarrow> (\<exists>src \<in> set ro_props_default_source_order. p = ''ro.'' @ src @ ''build.'' @ nm)"
  unfolding all_sources_def prop_name_def by (simp_all add: image_iff)

lemma vendor_names:
  "\<forall>p \<in> fst ` set (vendor_settings board). (\<exists>src \<in> {'''', ''odm.'', ''product.'', ''system.'', ''system_ext.'', ''vendor.''}.
          (\<exists>n \<in> {''brand'', ''device'', ''manufacturer'', ''name'', ''model''}. p = ''ro.product.'' @ src @ n)
          \<or> (\<exists>n \<in> {''description'', ''fingerprint'', ''id'', ''version.incremental''}. p = ''ro.'' @ src @ ''build.'' @ n))
        \<or> p \<in> {''ro.build.display.id'', ''ro.bootimage.build.description'', ''ro.bootimage.build.fingerprint'',
        ''ro.bootimage.build.id'', ''ro.bootimage.build.version.incremental''}"
  (is "\<forall>p \<in> _. ?Q p")
proof -
  have product: "\<forall>p \<in> fst ` set (all_sources True n v). ?Q p" if "n \<in> {''brand'', ''device'', ''manufacturer'', ''name'', ''model''}" for n v
  proof
    fix p
    assume "p \<in> fst ` set (all_sources True n v)"
    then show "?Q p" unfolding sources [symmetric] all_sources_names using that by blast
  qed
  have build: "\<forall>p \<in> fst ` set (all_sources False n v). ?Q p" if "n \<in> {''description'', ''fingerprint'', ''id'', ''version.incremental''}" for n v
  proof
    fix p
    assume "p \<in> fst ` set (all_sources False n v)"
    then show "?Q p" unfolding sources [symmetric] all_sources_names using that by blast
  qed
  have "\<forall>p \<in> fst ` set (all_sources True ''model'' v). ?Q p" for v
    by (rule product) (simp only: insert_iff simp_thms)
  then have model: "\<forall>p \<in> fst ` set (case board of None \<Rightarrow> [] | Some m \<Rightarrow> all_sources True ''model'' (model_name m)). ?Q p"
    by (cases board) (simp_all only: option.case list.set image_empty ball_empty)
  have single: "\<forall>p \<in> {''ro.build.display.id'', ''ro.bootimage.build.description'', ''ro.bootimage.build.fingerprint'',
        ''ro.bootimage.build.id'', ''ro.bootimage.build.version.incremental''}. ?Q p" by blast
  have "\<forall>p \<in> fst ` set [(''ro.build.display.id'', kStockBuildDisplayId), (''ro.bootimage.build.description'', kStockBuildDescription),
        (''ro.bootimage.build.fingerprint'', kStockBuildFingerprint), (''ro.bootimage.build.id'', ''HUAWEIM2-801W''),
        (''ro.bootimage.build.version.incremental'', ''C233B217'')]. ?Q p"
    unfolding list.set image_insert image_empty fst_conv by (rule single)
  note others = this model
  show ?thesis
    unfolding vendor_settings_def set_append image_Un ball_Un
    by (intro conjI; (rule others | (rule product, simp only: insert_iff simp_thms) | (rule build, simp only: insert_iff simp_thms)))
qed

lemma source_model_other:
  "src \<in> set ro_props_default_source_order \<Longrightarrow> ''ro.product.'' @ src @ ''model'' \<notin> fst ` set (vendor_settings None)"
proof
  let ?p = "''ro.product.'' @ src @ ''model''"
  assume "src \<in> set ro_props_default_source_order" and p: "?p \<in> fst ` set (vendor_settings None)"
  then have "?p \<in> fst ` set (all_sources True ''model'' [])" unfolding all_sources_names(1) by blast
  then obtain x where "?p = fst x" "x \<in> set (all_sources True ''model'' [])" by (rule imageE)
  then have model: "after_dot ?p = ''model''" using all_sources_after_dot(5) [of x "[]"] by (simp only:)
  have "\<forall>x \<in> set (vendor_settings None). after_dot (fst x) \<noteq> ''model''"
    unfolding vendor_settings_def set_append ball_Un option.case list.set ball_simps fst_conv
    by (intro conjI ballI TrueI; ((drule all_sources_after_dot, simp) | simp add: after_dot_def))
  moreover obtain y where "?p = fst y" "y \<in> set (vendor_settings None)" using p by (rule imageE)
  ultimately show False using model by (simp only:)
qed

lemma vendor_settings_mem:
  assumes src: "src \<in> set ro_props_default_source_order"
  shows "(''ro.product.'' @ src @ ''brand'', ''HUAWEI'') \<in> set (vendor_settings board)"
    and "(''ro.product.'' @ src @ ''device'', ''HWMozart'') \<in> set (vendor_settings board)"
    and "(''ro.product.'' @ src @ ''manufacturer'', ''HUAWEI'') \<in> set (vendor_settings board)"
    and "(''ro.product.'' @ src @ ''name'', ''M2'') \<in> set (vendor_settings board)"
    and "(''ro.'' @ src @ ''build.description'', kStockBuildDescription) \<in> set (vendor_settings board)"
    and "(''ro.'' @ src @ ''build.fingerprint'', kStockBuildFingerprint) \<in> set (vendor_settings board)"
    and "(''ro.'' @ src @ ''build.id'', ''HUAWEIM2-801W'') \<in> set (vendor_settings board)"
    and "(''ro.'' @ src @ ''build.version.incremental'', ''C233B217'') \<in> set (vendor_settings board)"
    and "(''ro.build.display.id'', kStockBuildDisplayId) \<in> set (vendor_settings board)"
    and "(''ro.bootimage.build.description'', kStockBuildDescription) \<in> set (vendor_settings board)"
    and "(''ro.bootimage.build.fingerprint'', kStockBuildFingerprint) \<in> set (vendor_settings board)"
    and "(''ro.bootimage.build.id'', ''HUAWEIM2-801W'') \<in> set (vendor_settings board)"
    and "(''ro.bootimage.build.version.incremental'', ''C233B217'') \<in> set (vendor_settings board)"
    and "board = Some m \<Longrightarrow> (''ro.product.'' @ src @ ''model'', model_name m) \<in> set (vendor_settings board)"
proof -
  have "(prop_name product src nm, v) \<in> set (all_sources product nm v)" for product nm v
    using src by (simp add: all_sources_def)
  from this [of True] this [of False]
  have ins: "(''ro.product.'' @ src @ nm, v) \<in> set (all_sources True nm v)"
    "(''ro.'' @ src @ ''build.'' @ nm, v) \<in> set (all_sources False nm v)" for nm v
    by (simp_all add: prop_name_def)
  have build: "(''ro.'' @ src @ ''build.description'', v) \<in> set (all_sources False ''description'' v)"
    "(''ro.'' @ src @ ''build.fingerprint'', v) \<in> set (all_sources False ''fingerprint'' v)"
    "(''ro.'' @ src @ ''build.id'', v) \<in> set (all_sources False ''id'' v)"
    "(''ro.'' @ src @ ''build.version.incremental'', v) \<in> set (all_sources False ''version.incremental'' v)" for v
    using ins(2) [of "''description''"] ins(2) [of "''fingerprint''"] ins(2) [of "''id''"]
      ins(2) [of "''version.incremental''"] by simp_all
  have mem: "xs \<in> set (vendor_settings board)" if "xs \<in> set (all_sources True ''brand'' ''HUAWEI'')
      \<union> set (all_sources True ''device'' ''HWMozart'') \<union> set (all_sources True ''manufacturer'' ''HUAWEI'')
      \<union> set (all_sources True ''name'' ''M2'') \<union> set (all_sources False ''description'' kStockBuildDescription)
      \<union> set (all_sources False ''fingerprint'' kStockBuildFingerprint) \<union> set (all_sources False ''id'' ''HUAWEIM2-801W'')
      \<union> set (all_sources False ''version.incremental'' ''C233B217'') \<union> set [(''ro.build.display.id'', kStockBuildDisplayId),
        (''ro.bootimage.build.description'', kStockBuildDescription),
        (''ro.bootimage.build.fingerprint'', kStockBuildFingerprint),
        (''ro.bootimage.build.id'', ''HUAWEIM2-801W''),
        (''ro.bootimage.build.version.incremental'', ''C233B217'')]" for xs
    using that unfolding vendor_settings_def set_append by blast
  show "(''ro.product.'' @ src @ ''brand'', ''HUAWEI'') \<in> set (vendor_settings board)"
    by (rule mem) (use ins(1) [of "''brand''" "''HUAWEI''"] in blast)
  show "(''ro.product.'' @ src @ ''device'', ''HWMozart'') \<in> set (vendor_settings board)"
    by (rule mem) (use ins(1) [of "''device''" "''HWMozart''"] in blast)
  show "(''ro.product.'' @ src @ ''manufacturer'', ''HUAWEI'') \<in> set (vendor_settings board)"
    by (rule mem) (use ins(1) [of "''manufacturer''" "''HUAWEI''"] in blast)
  show "(''ro.product.'' @ src @ ''name'', ''M2'') \<in> set (vendor_settings board)"
    by (rule mem) (use ins(1) [of "''name''" "''M2''"] in blast)
  show "(''ro.'' @ src @ ''build.description'', kStockBuildDescription) \<in> set (vendor_settings board)"
    by (rule mem) (use build(1) [of "kStockBuildDescription"] in blast)
  show "(''ro.'' @ src @ ''build.fingerprint'', kStockBuildFingerprint) \<in> set (vendor_settings board)"
    by (rule mem) (use build(2) [of "kStockBuildFingerprint"] in blast)
  show "(''ro.'' @ src @ ''build.id'', ''HUAWEIM2-801W'') \<in> set (vendor_settings board)"
    by (rule mem) (use build(3) [of "''HUAWEIM2-801W''"] in blast)
  show "(''ro.'' @ src @ ''build.version.incremental'', ''C233B217'') \<in> set (vendor_settings board)"
    by (rule mem) (use build(4) [of "''C233B217''"] in blast)
  show "(''ro.build.display.id'', kStockBuildDisplayId) \<in> set (vendor_settings board)"
    by (rule mem) (simp only: Un_iff list.set insert_iff simp_thms)
  show "(''ro.bootimage.build.description'', kStockBuildDescription) \<in> set (vendor_settings board)"
    by (rule mem) (simp only: Un_iff list.set insert_iff simp_thms)
  show "(''ro.bootimage.build.fingerprint'', kStockBuildFingerprint) \<in> set (vendor_settings board)"
    by (rule mem) (simp only: Un_iff list.set insert_iff simp_thms)
  show "(''ro.bootimage.build.id'', ''HUAWEIM2-801W'') \<in> set (vendor_settings board)"
    by (rule mem) (simp only: Un_iff list.set insert_iff simp_thms)
  show "(''ro.bootimage.build.version.incremental'', ''C233B217'') \<in> set (vendor_settings board)"
    by (rule mem) (simp only: Un_iff list.set insert_iff simp_thms)
  show "(''ro.product.'' @ src @ ''model'', model_name m) \<in> set (vendor_settings board)" if "board = Some m"
    unfolding vendor_settings_def that option.case set_append by (intro UnI2 UnI1 ins)
qed

lemma model_name_cases:
  "model_name m = (if \<exists>before after. m = before @ ''801W'' @ after then ''HUAWEI M2-801W''
     else if \<exists>before after. m = before @ ''801L'' @ after then ''HUAWEI M2-801L''
     else if \<exists>before after. m = before @ ''802L'' @ after then ''HUAWEI M2-802L''
     else if \<exists>before after. m = before @ ''803L'' @ after then ''HUAWEI M2-803L''
     else ''HUAWEI MediaPad M2 8.0'')"
  unfolding model_name_def contains_iff ..

section \<open>Properties\<close>

text \<open>
  C33: the properties after \<open>vendor_load_properties\<close>, for any property area. For every source the product
  and build properties have the values of this device, and so have the five single ones; the model follows
  the first of the four board numbers that the board name contains, in the order of the code, and
  stays as it was when the board name cannot be read. Only a property whose write the area refused, in the
  state in which the code made it, stays as it was, and the code does not notice. No other property changes.
\<close>

theorem vendor_properties:
  assumes "prop_area_ok A" and "src \<in> {'''', ''odm.'', ''product.'', ''system.'', ''system_ext.'', ''vendor.''}"
  shows "let get = property_get A (vendor_load_properties A board s);
      shows_value = (\<lambda>n v. get n = Some v \<or> refused A s (vendor_settings board) n v \<and> get n = property_get A s n) in
      shows_value (''ro.product.'' @ src @ ''brand'') ''HUAWEI''
    \<and> shows_value (''ro.product.'' @ src @ ''device'') ''HWMozart''
    \<and> shows_value (''ro.product.'' @ src @ ''manufacturer'') ''HUAWEI''
    \<and> shows_value (''ro.product.'' @ src @ ''name'') ''M2''
    \<and> (case board of None \<Rightarrow> get (''ro.product.'' @ src @ ''model'') = property_get A s (''ro.product.'' @ src @ ''model'')
       | Some m \<Rightarrow> shows_value (''ro.product.'' @ src @ ''model'')
          (if \<exists>before after. m = before @ ''801W'' @ after then ''HUAWEI M2-801W''
           else if \<exists>before after. m = before @ ''801L'' @ after then ''HUAWEI M2-801L''
           else if \<exists>before after. m = before @ ''802L'' @ after then ''HUAWEI M2-802L''
           else if \<exists>before after. m = before @ ''803L'' @ after then ''HUAWEI M2-803L''
           else ''HUAWEI MediaPad M2 8.0''))
    \<and> shows_value (''ro.'' @ src @ ''build.description'') ''M2-user 6.0 HUAWEIM2-801W C233B217 release-keys''
    \<and> shows_value (''ro.'' @ src @ ''build.fingerprint'') ''HUAWEI/M2/HWMozart:6.0/HUAWEIM2-801W/C233B217:user/release-keys''
    \<and> shows_value (''ro.'' @ src @ ''build.id'') ''HUAWEIM2-801W''
    \<and> shows_value (''ro.'' @ src @ ''build.version.incremental'') ''C233B217''
    \<and> shows_value ''ro.build.display.id'' ''M2-801WV100R001C233B217''
    \<and> shows_value ''ro.bootimage.build.description'' ''M2-user 6.0 HUAWEIM2-801W C233B217 release-keys''
    \<and> shows_value ''ro.bootimage.build.fingerprint'' ''HUAWEI/M2/HWMozart:6.0/HUAWEIM2-801W/C233B217:user/release-keys''
    \<and> shows_value ''ro.bootimage.build.id'' ''HUAWEIM2-801W''
    \<and> shows_value ''ro.bootimage.build.version.incremental'' ''C233B217''
    \<and> (get p \<noteq> property_get A s p \<longrightarrow> (\<exists>src \<in> {'''', ''odm.'', ''product.'', ''system.'', ''system_ext.'', ''vendor.''}.
          (\<exists>n \<in> {''brand'', ''device'', ''manufacturer'', ''name'', ''model''}. p = ''ro.product.'' @ src @ n)
          \<or> (\<exists>n \<in> {''description'', ''fingerprint'', ''id'', ''version.incremental''}. p = ''ro.'' @ src @ ''build.'' @ n))
        \<or> p \<in> {''ro.build.display.id'', ''ro.bootimage.build.description'', ''ro.bootimage.build.fingerprint'',
        ''ro.bootimage.build.id'', ''ro.bootimage.build.version.incremental''})"
proof -
  have src: "src \<in> set ro_props_default_source_order"
    using assms(2) by (simp add: ro_props_default_source_order_def)
  note setting = vendor_setting [OF assms(1), of _ _ board s]
  have model: "case board of None \<Rightarrow> property_get A (vendor_load_properties A board s) (''ro.product.'' @ src @ ''model'')
        = property_get A s (''ro.product.'' @ src @ ''model'')
      | Some m \<Rightarrow> property_get A (vendor_load_properties A board s) (''ro.product.'' @ src @ ''model'') = Some (model_name m)
        \<or> refused A s (vendor_settings board) (''ro.product.'' @ src @ ''model'') (model_name m)
          \<and> property_get A (vendor_load_properties A board s) (''ro.product.'' @ src @ ''model'')
            = property_get A s (''ro.product.'' @ src @ ''model'')"
  proof (cases board)
    case None
    with vendor_other [OF assms(1) source_model_other [OF src]] show ?thesis by simp
  next
    case (Some m)
    from setting [OF vendor_settings_mem(14) [OF src Some]] show ?thesis unfolding Some option.case .
  qed
  have other: "(\<exists>src \<in> {'''', ''odm.'', ''product.'', ''system.'', ''system_ext.'', ''vendor.''}.
          (\<exists>n \<in> {''brand'', ''device'', ''manufacturer'', ''name'', ''model''}. p = ''ro.product.'' @ src @ n)
          \<or> (\<exists>n \<in> {''description'', ''fingerprint'', ''id'', ''version.incremental''}. p = ''ro.'' @ src @ ''build.'' @ n))
        \<or> p \<in> {''ro.build.display.id'', ''ro.bootimage.build.description'', ''ro.bootimage.build.fingerprint'',
        ''ro.bootimage.build.id'', ''ro.bootimage.build.version.incremental''}"
    if "property_get A (vendor_load_properties A board s) p \<noteq> property_get A s p"
    by (rule bspec [OF vendor_names [of board]]) (use vendor_other [OF assms(1), of p board s] that in blast)
  note singles = vendor_settings_mem(1-13) [OF src, THEN setting]
  note facts = singles [unfolded kStockBuildDescription_def kStockBuildFingerprint_def kStockBuildDisplayId_def]
  show ?thesis
    unfolding Let_def model_name_cases [symmetric]
    by (intro conjI impI; (fact facts | fact model | erule other))
qed

theorem vendor_properties_witness:
  "vendor_load_properties map_area (Some ''Mozart_803L'') [''a'' \<mapsto> ''b''] ''ro.product.odm.model''
     = Some ''HUAWEI M2-803L''"
proof -
  have acc: "refused map_area t xs n v \<Longrightarrow> 92 \<le> length v" for n v t xs
    by (auto simp: refused_def accepts_def map_area_def split: if_splits)
  from acc [of _ _ "''ro.product.odm.model''" "''HUAWEI M2-803L''"]
  have taken: "\<not> refused map_area t xs ''ro.product.odm.model'' ''HUAWEI M2-803L''" for t xs by auto
  have get: "property_get map_area = id" by (simp add: map_area_def)
  have model: "model_name ''Mozart_803L'' = ''HUAWEI M2-803L''" by (simp add: model_name_def)
  have "''odm.'' \<in> {'''', ''odm.'', ''product.'', ''system.'', ''system_ext.'', ''vendor.''}" by simp
  from vendor_properties [OF map_area_ok this, of "Some ''Mozart_803L''" "[''a'' \<mapsto> ''b'']"]
  show ?thesis
    unfolding model_name_cases [symmetric] model Let_def option.case get by (simp add: taken)
qed

end
