(* ===== verification/Camera_Metadata.thy ===== *)
theory Camera_Metadata
  imports Mozart_Prelude
begin

text \<open>
  The legacy \<open>CameraMetadata\<close> object of the old camera HAL, \<open>libshims/gui/CameraMetadata.cpp\<close>: a pointer
  to a metadata buffer and a lock flag. The C library that manages the buffers is not part of the
  repository and is a parameter. The theory shows that the object never frees a buffer twice, uses a
  freed one or leaks one, that a locked object stays as it is, and that a resized buffer has room.
\<close>

section \<open>The library and the heap\<close>

text \<open>
  \<open>size_t\<close> has 32 bits on this target. Buffers are addressed by numbers, 0 is the null pointer; \<open>'m\<close>
  is the content of a buffer, \<open>'d\<close> the data of an entry.
\<close>

definition size_t :: "nat \<Rightarrow> nat" where
  "size_t n = n mod 2 ^ 32"

record ('m, 'd) camera_lib =
  new_address :: "(nat \<rightharpoonup> 'm) \<Rightarrow> nat \<Rightarrow> nat \<Rightarrow> nat option"
  empty_metadata :: "nat \<Rightarrow> nat \<Rightarrow> 'm"
  entry_count :: "'m \<Rightarrow> nat"
  entry_capacity :: "'m \<Rightarrow> nat"
  data_count :: "'m \<Rightarrow> nat"
  data_capacity :: "'m \<Rightarrow> nat"
  metadata_size :: "'m \<Rightarrow> nat"
  tag_type :: "nat \<Rightarrow> 'm option \<Rightarrow> int"
  entry_data_size :: "int \<Rightarrow> nat \<Rightarrow> nat"
  append_metadata :: "'m \<Rightarrow> 'm \<Rightarrow> int \<times> 'm"
  find_entry :: "'m \<Rightarrow> nat \<Rightarrow> int \<times> nat"
  add_entry :: "'m \<Rightarrow> nat \<Rightarrow> 'd \<Rightarrow> nat \<Rightarrow> int \<times> 'm"
  update_entry :: "'m \<Rightarrow> nat \<Rightarrow> 'd \<Rightarrow> nat \<Rightarrow> int \<times> 'm"

text \<open>The allocator gives an address that is neither null nor in use.\<close>

definition camera_lib_ok :: "('m, 'd) camera_lib \<Rightarrow> bool" where
  "camera_lib_ok L \<longleftrightarrow> (\<forall>h n k a. new_address L h n k = Some a \<longrightarrow> a \<noteq> 0 \<and> h a = None)"

text \<open>The status codes of \<open>utils/Errors.h\<close>.\<close>

definition cm_OK :: int where "cm_OK = 0"

definition NO_MEMORY :: int where "NO_MEMORY = -12"

definition INVALID_OPERATION :: int where "INVALID_OPERATION = -38"

definition BAD_VALUE :: int where "BAD_VALUE = -22"

definition NAME_NOT_FOUND :: int where "NAME_NOT_FOUND = -2"

record LegacyCameraMetadata =
  buffer :: nat
  locked :: bool

record 'm cam =
  heap :: "nat \<rightharpoonup> 'm"
  obj :: LegacyCameraMetadata

abbreviation set_buffer :: "nat \<Rightarrow> 'm cam \<Rightarrow> 'm cam" where
  "set_buffer a s \<equiv> s\<lparr>obj := (obj s)\<lparr>buffer := a\<rparr>\<rparr>"

definition free_camera_metadata :: "nat \<Rightarrow> 'm cam \<Rightarrow> 'm cam c_result" where
  "free_camera_metadata a s =
     (if heap s a = None then Inl BadAddress else Inr (s\<lparr>heap := (heap s)(a := None)\<rparr>))"

definition allocate_camera_metadata :: "('m, 'd) camera_lib \<Rightarrow> nat \<Rightarrow> nat \<Rightarrow> 'm cam \<Rightarrow> nat option \<times> 'm cam" where
  "allocate_camera_metadata L entries bytes s =
     (case new_address L (heap s) entries bytes of
        None \<Rightarrow> (None, s)
      | Some a \<Rightarrow> (Some a, s\<lparr>heap := (heap s)(a \<mapsto> empty_metadata L entries bytes)\<rparr>))"

section \<open>Operations\<close>

definition resizeIfNeeded :: "('m, 'd) camera_lib \<Rightarrow> nat \<Rightarrow> nat \<Rightarrow> 'm cam \<Rightarrow> (int \<times> 'm cam) c_result" where
  "resizeIfNeeded L extraEntries extraData s =
     (if buffer (obj s) = 0
      then (case allocate_camera_metadata L (size_t (extraEntries * 2)) (size_t (extraData * 2)) s of
              (None, s) \<Rightarrow> Inr (NO_MEMORY, s)
            | (Some a, s) \<Rightarrow> Inr (cm_OK, set_buffer a s))
      else case heap s (buffer (obj s)) of
             None \<Rightarrow> Inl BadAddress
           | Some m \<Rightarrow>
               (let newEntryCapacity =
                      (if size_t (entry_count L m + extraEntries) > entry_capacity L m
                       then size_t (size_t (entry_count L m + extraEntries) * 2) else entry_capacity L m);
                    newDataCapacity =
                      (if size_t (data_count L m + extraData) > data_capacity L m
                       then size_t (size_t (data_count L m + extraData) * 2) else data_capacity L m)
                in if newEntryCapacity = entry_capacity L m \<and> newDataCapacity = data_capacity L m
                   then Inr (cm_OK, s)
                   else case allocate_camera_metadata L newEntryCapacity newDataCapacity s of
                          (None, s) \<Rightarrow> Inr (NO_MEMORY, s)
                        | (Some replacement, s) \<Rightarrow>
                            (case append_metadata L (the (heap s replacement)) m of
                               (result, m') \<Rightarrow>
                                 (let s = s\<lparr>heap := (heap s)(replacement \<mapsto> m')\<rparr>
                                  in if result \<noteq> cm_OK
                                     then (case free_camera_metadata replacement s of
                                             Inl f \<Rightarrow> Inl f | Inr s \<Rightarrow> Inr (result, s))
                                     else (case free_camera_metadata (buffer (obj s)) s of
                                             Inl f \<Rightarrow> Inl f
                                           | Inr s \<Rightarrow> Inr (cm_OK, set_buffer replacement s))))))"

text \<open>
  \<open>updateImpl\<close>, with the address and the content of the data.
\<close>

definition updateImpl :: "('m, 'd) camera_lib \<Rightarrow> nat \<Rightarrow> nat \<Rightarrow> 'd \<Rightarrow> nat \<Rightarrow> 'm cam
    \<Rightarrow> (int \<times> 'm cam) c_result" where
  "updateImpl L tag dataAddress d dataCount s =
     (if locked (obj s) then Inr (INVALID_OPERATION, s)
      else if buffer (obj s) \<noteq> 0 \<and> heap s (buffer (obj s)) = None then Inl BadAddress
      else let m = (if buffer (obj s) = 0 then None else heap s (buffer (obj s)));
               ty = tag_type L tag m
           in if ty < 0 then Inr (BAD_VALUE, s)
              else if buffer (obj s) \<noteq> 0 \<and> dataAddress > buffer (obj s)
                   \<and> dataAddress < size_t (buffer (obj s) + metadata_size L (the m))
              then Inr (INVALID_OPERATION, s)
              else case resizeIfNeeded L 1 (entry_data_size L ty dataCount) s of
                     Inl f \<Rightarrow> Inl f
                   | Inr (result, s) \<Rightarrow>
                       (if result \<noteq> cm_OK then Inr (result, s)
                        else case heap s (buffer (obj s)) of
                               None \<Rightarrow> Inl BadAddress
                             | Some m \<Rightarrow>
                                 (case find_entry L m tag of
                                    (result, index) \<Rightarrow>
                                      (if result = NAME_NOT_FOUND
                                       then let (r, m') = add_entry L m tag d dataCount
                                            in Inr (r, s\<lparr>heap := (heap s)(buffer (obj s) \<mapsto> m')\<rparr>)
                                       else if result = cm_OK
                                       then let (r, m') = update_entry L m index d dataCount
                                            in Inr (r, s\<lparr>heap := (heap s)(buffer (obj s) \<mapsto> m')\<rparr>)
                                       else Inr (result, s)))))"

text \<open>
  The four instances of \<open>DEFINE_LEGACY_UPDATE\<close> differ in the type of the elements, of which the cast to
  \<open>const void*\<close> leaves the bytes. A \<open>float\<close> is its 32 bits.
\<close>

definition le_bytes :: "nat \<Rightarrow> 'a::len word \<Rightarrow> 8 word list" where
  "le_bytes n x = map (\<lambda>i. ucast (drop_bit (8 * i) x)) [0..<n]"

definition camera_metadata_update_u8 :: "('m, 8 word list) camera_lib \<Rightarrow> nat \<Rightarrow> nat \<Rightarrow> 8 word list \<Rightarrow> nat \<Rightarrow> 'm cam
    \<Rightarrow> (int \<times> 'm cam) c_result" where
  "camera_metadata_update_u8 L tag addr d count s = updateImpl L tag addr (concat (map (le_bytes 1) d)) count s"

definition camera_metadata_update_i32 :: "('m, 8 word list) camera_lib \<Rightarrow> nat \<Rightarrow> nat \<Rightarrow> 32 word list \<Rightarrow> nat \<Rightarrow> 'm cam
    \<Rightarrow> (int \<times> 'm cam) c_result" where
  "camera_metadata_update_i32 L tag addr d count s = updateImpl L tag addr (concat (map (le_bytes 4) d)) count s"

definition camera_metadata_update_float :: "('m, 8 word list) camera_lib \<Rightarrow> nat \<Rightarrow> nat \<Rightarrow> 32 word list \<Rightarrow> nat \<Rightarrow> 'm cam
    \<Rightarrow> (int \<times> 'm cam) c_result" where
  "camera_metadata_update_float L tag addr d count s = updateImpl L tag addr (concat (map (le_bytes 4) d)) count s"

definition camera_metadata_update_i64 :: "('m, 8 word list) camera_lib \<Rightarrow> nat \<Rightarrow> nat \<Rightarrow> 64 word list \<Rightarrow> nat \<Rightarrow> 'm cam
    \<Rightarrow> (int \<times> 'm cam) c_result" where
  "camera_metadata_update_i64 L tag addr d count s = updateImpl L tag addr (concat (map (le_bytes 8) d)) count s"

definition camera_metadata_ctor :: LegacyCameraMetadata where
  "camera_metadata_ctor = \<lparr>buffer = 0, locked = False\<rparr>"

definition camera_metadata_clear :: "'m cam \<Rightarrow> 'm cam c_result" where
  "camera_metadata_clear s =
     (if \<not> locked (obj s) \<and> buffer (obj s) \<noteq> 0
      then case free_camera_metadata (buffer (obj s)) s of
             Inl f \<Rightarrow> Inl f
           | Inr s \<Rightarrow> Inr (set_buffer 0 s)
      else Inr s)"

definition camera_metadata_dtor :: "'m cam \<Rightarrow> 'm cam c_result" where
  "camera_metadata_dtor s = camera_metadata_clear (s\<lparr>obj := (obj s)\<lparr>locked := False\<rparr>\<rparr>)"

definition camera_metadata_release :: "'m cam \<Rightarrow> nat \<times> 'm cam" where
  "camera_metadata_release s =
     (if locked (obj s) then (0, s) else (buffer (obj s), set_buffer 0 s))"

definition camera_metadata_acquire :: "nat \<Rightarrow> 'm cam \<Rightarrow> 'm cam c_result" where
  "camera_metadata_acquire a s =
     (if locked (obj s) then Inr s
      else case camera_metadata_clear s of Inl f \<Rightarrow> Inl f | Inr s \<Rightarrow> Inr (set_buffer a s))"

definition camera_metadata_get_and_lock :: "'m cam \<Rightarrow> nat \<times> 'm cam" where
  "camera_metadata_get_and_lock s =
     (let s = s\<lparr>obj := (obj s)\<lparr>locked := True\<rparr>\<rparr> in (buffer (obj s), s))"

definition camera_metadata_unlock :: "nat \<Rightarrow> 'm cam \<Rightarrow> int \<times> 'm cam" where
  "camera_metadata_unlock a s =
     (if \<not> locked (obj s) then (INVALID_OPERATION, s)
      else if a \<noteq> buffer (obj s) then (BAD_VALUE, s)
      else (cm_OK, s\<lparr>obj := (obj s)\<lparr>locked := False\<rparr>\<rparr>))"

text \<open>The entry found, or an empty entry.\<close>

definition camera_metadata_find :: "('m, 'd) camera_lib \<Rightarrow> nat \<Rightarrow> 'm cam \<Rightarrow> nat option c_result" where
  "camera_metadata_find L tag s =
     (if \<not> locked (obj s) \<and> buffer (obj s) \<noteq> 0
      then case heap s (buffer (obj s)) of
             None \<Rightarrow> Inl BadAddress
           | Some m \<Rightarrow> Inr (if fst (find_entry L m tag) = cm_OK then Some (snd (find_entry L m tag)) else None)
      else Inr None)"

section \<open>Clients\<close>

text \<open>
  A client calls the operations in any order and owns the buffers that \<open>release\<close> gave it or that it
  allocated itself; it may only pass on to \<open>acquire\<close> a buffer it owns, or null.
\<close>

datatype 'd cam_op =
    Op_Clear
  | Op_Release
  | Op_Acquire nat
  | Op_Update nat nat 'd nat
  | Op_Lock
  | Op_Unlock nat
  | Op_Find nat

type_synonym 'm cam_client = "'m cam \<times> nat set"

fun cam_step :: "('m, 'd) camera_lib \<Rightarrow> 'd cam_op \<Rightarrow> 'm cam_client \<Rightarrow> 'm cam_client c_result" where
  "cam_step L Op_Clear (s, owned) =
     (case camera_metadata_clear s of Inl f \<Rightarrow> Inl f | Inr s' \<Rightarrow> Inr (s', owned))"
| "cam_step L Op_Release (s, owned) =
     (case camera_metadata_release s of (a, s') \<Rightarrow> Inr (s', if a = 0 then owned else insert a owned))"
| "cam_step L (Op_Acquire a) (s, owned) =
     (case camera_metadata_acquire a s of Inl f \<Rightarrow> Inl f
      | Inr s' \<Rightarrow> Inr (s', if locked (obj s) then owned else owned - {a}))"
| "cam_step L (Op_Update tag addr d count) (s, owned) =
     (case updateImpl L tag addr d count s of Inl f \<Rightarrow> Inl f | Inr (r, s') \<Rightarrow> Inr (s', owned))"
| "cam_step L Op_Lock (s, owned) = Inr (snd (camera_metadata_get_and_lock s), owned)"
| "cam_step L (Op_Unlock a) (s, owned) = Inr (snd (camera_metadata_unlock a s), owned)"
| "cam_step L (Op_Find tag) (s, owned) =
     (case camera_metadata_find L tag s of Inl f \<Rightarrow> Inl f | Inr e \<Rightarrow> Inr (s, owned))"

fun cam_allowed :: "'d cam_op \<Rightarrow> 'm cam_client \<Rightarrow> bool" where
  "cam_allowed (Op_Acquire a) (s, owned) \<longleftrightarrow> a = 0 \<or> a \<in> owned"
| "cam_allowed op w \<longleftrightarrow> True"

fun cam_run :: "('m, 'd) camera_lib \<Rightarrow> 'd cam_op list \<Rightarrow> 'm cam_client \<Rightarrow> 'm cam_client c_result" where
  "cam_run L [] w = Inr w"
| "cam_run L (op # ops) w = (case cam_step L op w of Inl f \<Rightarrow> Inl f | Inr w' \<Rightarrow> cam_run L ops w')"

fun client_ok :: "('m, 'd) camera_lib \<Rightarrow> 'd cam_op list \<Rightarrow> 'm cam_client \<Rightarrow> bool" where
  "client_ok L [] w \<longleftrightarrow> True"
| "client_ok L (op # ops) w \<longleftrightarrow> cam_allowed op w
     \<and> (case cam_step L op w of Inl f \<Rightarrow> True | Inr w' \<Rightarrow> client_ok L ops w')"

text \<open>Every allocated buffer has exactly one owner: the object or the client.\<close>

definition cam_inv :: "'m cam_client \<Rightarrow> bool" where
  "cam_inv w = (case w of (s, owned) \<Rightarrow>
     dom (heap s) = (if buffer (obj s) = 0 then owned else insert (buffer (obj s)) owned)
     \<and> buffer (obj s) \<notin> owned \<and> 0 \<notin> owned)"

lemma cam_inv_live: "cam_inv (s, owned) \<Longrightarrow> buffer (obj s) \<noteq> 0 \<Longrightarrow> \<exists>m. heap s (buffer (obj s)) = Some m"
  by (auto simp: cam_inv_def)

lemma clear_inv:
  assumes "cam_inv (s, owned)"
  shows "\<exists>s'. camera_metadata_clear s = Inr s' \<and> cam_inv (s', owned)
    \<and> (\<not> locked (obj s) \<longrightarrow> buffer (obj s') = 0 \<and> locked (obj s') = locked (obj s))
    \<and> (locked (obj s) \<longrightarrow> s' = s)"
proof (cases "\<not> locked (obj s) \<and> buffer (obj s) \<noteq> 0")
  case True
  then obtain m where m: "heap s (buffer (obj s)) = Some m" using cam_inv_live [OF assms] by blast
  have "dom ((heap s)(buffer (obj s) := None)) = owned"
    using assms True by (auto simp: cam_inv_def)
  moreover have "camera_metadata_clear s
      = Inr (set_buffer 0 (s\<lparr>heap := (heap s)(buffer (obj s) := None)\<rparr>))"
    using True m by (simp add: camera_metadata_clear_def free_camera_metadata_def)
  moreover have "0 \<notin> owned" using assms by (simp add: cam_inv_def)
  ultimately show ?thesis
    using True by (simp add: cam_inv_def)
next
  case False
  with assms show ?thesis by (auto simp: camera_metadata_clear_def)
qed

lemma allocate_cases:
  assumes "camera_lib_ok L" and "allocate_camera_metadata L n k s = (r, s')"
  obtains "r = None" "s' = s"
  | a where "r = Some a" "a \<noteq> 0" "heap s a = None" "s' = s\<lparr>heap := (heap s)(a \<mapsto> empty_metadata L n k)\<rparr>"
proof (cases "new_address L (heap s) n k")
  case None
  with assms(2) show ?thesis by (intro that(1)) (simp_all add: allocate_camera_metadata_def)
next
  case (Some a)
  moreover have "a \<noteq> 0" "heap s a = None"
    using assms(1) Some unfolding camera_lib_ok_def by blast+
  ultimately show ?thesis
    using assms(2) by (intro that(2) [of a]) (simp_all add: allocate_camera_metadata_def)
qed

definition grown :: "nat \<Rightarrow> nat \<Rightarrow> nat \<Rightarrow> nat" where
  "grown used extra cap = (if size_t (used + extra) > cap then size_t (size_t (used + extra) * 2) else cap)"

lemma resize_live:
  assumes "buffer (obj s) \<noteq> 0" and "heap s (buffer (obj s)) = Some m"
    and "ne = grown (entry_count L m) n (entry_capacity L m)"
    and "nd = grown (data_count L m) k (data_capacity L m)"
  shows "resizeIfNeeded L n k s =
      (if ne = entry_capacity L m \<and> nd = data_capacity L m then Inr (cm_OK, s)
       else case allocate_camera_metadata L ne nd s of (None, s) \<Rightarrow> Inr (NO_MEMORY, s)
        | (Some replacement, s) \<Rightarrow>
            (case append_metadata L (the (heap s replacement)) m of
               (result, m') \<Rightarrow>
                 (let s = s\<lparr>heap := (heap s)(replacement \<mapsto> m')\<rparr>
                  in if result \<noteq> cm_OK
                     then (case free_camera_metadata replacement s of Inl f \<Rightarrow> Inl f | Inr s \<Rightarrow> Inr (result, s))
                     else (case free_camera_metadata (buffer (obj s)) s of
                             Inl f \<Rightarrow> Inl f | Inr s \<Rightarrow> Inr (cm_OK, set_buffer replacement s)))))"
  using assms(1,2) unfolding assms(3,4) grown_def by (simp add: resizeIfNeeded_def Let_def)

lemma resize_inv:
  assumes lib: "camera_lib_ok L" and inv: "cam_inv (s, owned)"
  shows "\<exists>r s'. resizeIfNeeded L n k s = Inr (r, s') \<and> cam_inv (s', owned)
    \<and> locked (obj s') = locked (obj s) \<and> (r = cm_OK \<longrightarrow> buffer (obj s') \<noteq> 0)"
proof (cases "buffer (obj s) = 0")
  case True
  obtain r s' where alloc: "allocate_camera_metadata L (size_t (n * 2)) (size_t (k * 2)) s = (r, s')"
    by fastforce
  show ?thesis
    by (rule allocate_cases [OF lib alloc])
      (use True alloc inv in \<open>auto simp: resizeIfNeeded_def cam_inv_def NO_MEMORY_def cm_OK_def\<close>)
next
  case False
  then obtain m where m: "heap s (buffer (obj s)) = Some m"
    using inv by (auto simp: cam_inv_def)
  define ne where "ne = grown (entry_count L m) n (entry_capacity L m)"
  define nd where "nd = grown (data_count L m) k (data_capacity L m)"
  obtain r s1 where alloc: "allocate_camera_metadata L ne nd s = (r, s1)" by fastforce
  note run = resize_live [OF False m ne_def nd_def, unfolded alloc]
  show ?thesis
  proof (rule allocate_cases [OF lib alloc])
    assume "r = None" "s1 = s"
    with run inv False show ?thesis by (auto simp: NO_MEMORY_def cm_OK_def)
  next
    fix a
    assume a: "r = Some a" "a \<noteq> 0" "heap s a = None" "s1 = s\<lparr>heap := (heap s)(a \<mapsto> empty_metadata L ne nd)\<rparr>"
    obtain result m' where app: "append_metadata L (empty_metadata L ne nd) m = (result, m')" by fastforce
    have other: "a \<noteq> buffer (obj s)" "a \<notin> owned"
      using a(3) m inv by (auto simp: cam_inv_def split: if_splits)
    have undo: "(heap s)(a := None) = heap s" using a(3) by (simp add: fun_upd_idem)
    have moved: "dom ((heap s)(a \<mapsto> m', buffer (obj s) := None)) = insert a owned"
      using inv False other by (auto simp: cam_inv_def split: if_splits)
    show ?thesis
      unfolding run using a(1,2,4) app False inv other m
      by (auto simp: free_camera_metadata_def Let_def cm_OK_def cam_inv_def undo moved)
  qed
qed

text \<open>
  What \<open>updateImpl\<close> rejects before it touches the buffer, and what it does after the buffer was made
  large enough.
\<close>

definition the_metadata :: "'m cam \<Rightarrow> 'm option" where
  "the_metadata s = (if buffer (obj s) = 0 then None else heap s (buffer (obj s)))"

definition update_rejected :: "('m, 'd) camera_lib \<Rightarrow> nat \<Rightarrow> nat \<Rightarrow> 'm cam \<Rightarrow> bool" where
  "update_rejected L tag addr s \<longleftrightarrow> locked (obj s) \<or> tag_type L tag (the_metadata s) < 0
     \<or> (buffer (obj s) \<noteq> 0 \<and> addr > buffer (obj s)
          \<and> addr < size_t (buffer (obj s) + metadata_size L (the (the_metadata s))))"

definition store_entry :: "('m, 'd) camera_lib \<Rightarrow> nat \<Rightarrow> 'd \<Rightarrow> nat \<Rightarrow> 'm \<Rightarrow> int \<times> 'm" where
  "store_entry L tag d count m =
     (case find_entry L m tag of (result, index) \<Rightarrow>
        if result = NAME_NOT_FOUND then add_entry L m tag d count
        else if result = cm_OK then update_entry L m index d count else (result, m))"

lemma update_run:
  assumes inv: "cam_inv (s, owned)" and ok: "\<not> update_rejected L tag addr s"
    and resize: "resizeIfNeeded L 1 (entry_data_size L (tag_type L tag (the_metadata s)) count) s = Inr (r, s1)"
  shows "updateImpl L tag addr d count s =
    (if r \<noteq> cm_OK then Inr (r, s1)
     else case heap s1 (buffer (obj s1)) of
            None \<Rightarrow> Inl BadAddress
          | Some m \<Rightarrow> Inr (fst (store_entry L tag d count m),
              s1\<lparr>heap := (heap s1)(buffer (obj s1) \<mapsto> snd (store_entry L tag d count m))\<rparr>))"
proof -
  have live: "buffer (obj s) \<noteq> 0 \<Longrightarrow> heap s (buffer (obj s)) \<noteq> None"
    using inv by (auto simp: cam_inv_def)
  have keep: "s1\<lparr>heap := (heap s1)(buffer (obj s1) \<mapsto> m)\<rparr> = s1" if "heap s1 (buffer (obj s1)) = Some m" for m
    using that by (simp add: map_upd_triv)
  show ?thesis
    using ok live resize
    by (auto simp: updateImpl_def update_rejected_def the_metadata_def store_entry_def Let_def keep
        split: prod.split option.split)
qed

lemma update_rejects:
  assumes "cam_inv (s, owned)" and "update_rejected L tag addr s"
  shows "\<exists>r. updateImpl L tag addr d count s = Inr (r, s) \<and> r \<noteq> cm_OK"
  using assms cam_inv_live [OF assms(1)]
  by (auto simp: updateImpl_def update_rejected_def the_metadata_def Let_def INVALID_OPERATION_def BAD_VALUE_def cm_OK_def)

lemma update_inv:
  assumes lib: "camera_lib_ok L" and inv: "cam_inv (s, owned)"
  shows "\<exists>r s'. updateImpl L tag addr d count s = Inr (r, s') \<and> cam_inv (s', owned)
    \<and> locked (obj s') = locked (obj s) \<and> (locked (obj s) \<longrightarrow> s' = s)"
proof (cases "update_rejected L tag addr s")
  case True
  from update_rejects [OF inv this] inv show ?thesis by blast
next
  case False
  let ?k = "entry_data_size L (tag_type L tag (the_metadata s)) count"
  obtain r s1 where resize: "resizeIfNeeded L 1 ?k s = Inr (r, s1)" "cam_inv (s1, owned)"
    "locked (obj s1) = locked (obj s)" "r = cm_OK \<longrightarrow> buffer (obj s1) \<noteq> 0"
    using resize_inv [OF lib inv, of 1 ?k] by blast
  note run = update_run [OF inv False resize(1)]
  have unlocked: "\<not> locked (obj s)" using False by (simp add: update_rejected_def)
  show ?thesis
  proof (cases "r = cm_OK")
    case True
    then obtain m where m: "heap s1 (buffer (obj s1)) = Some m" using cam_inv_live [OF resize(2)] resize(4) by blast
    then have "cam_inv (s1\<lparr>heap := (heap s1)(buffer (obj s1) \<mapsto> m')\<rparr>, owned)" for m'
      using resize(2) by (auto simp: cam_inv_def)
    with True m resize(3) unlocked show ?thesis by (simp add: run)
  next
    case False
    with resize(2,3) unlocked show ?thesis by (simp add: run)
  qed
qed

lemma cam_step_inv:
  assumes "camera_lib_ok L" and "cam_inv w" and "cam_allowed op w"
  shows "\<exists>w'. cam_step L op w = Inr w' \<and> cam_inv w'"
proof -
  obtain s owned where w: "w = (s, owned)" by fastforce
  note inv = assms(2) [unfolded w]
  show ?thesis
  proof (cases op)
    case Op_Clear
    with clear_inv [OF inv] w show ?thesis by auto
  next
    case Op_Release
    with inv w show ?thesis by (auto simp: camera_metadata_release_def cam_inv_def split: if_splits)
  next
    case (Op_Acquire a)
    obtain s' where s': "camera_metadata_clear s = Inr s'" "cam_inv (s', owned)"
      "\<not> locked (obj s) \<longrightarrow> buffer (obj s') = 0"
      using clear_inv [OF inv] by blast
    with Op_Acquire w assms(3) inv show ?thesis
      by (auto simp: camera_metadata_acquire_def cam_inv_def)
  next
    case (Op_Update tag addr d count)
    with update_inv [OF assms(1) inv, of tag addr d count] w show ?thesis by auto
  next
    case Op_Lock
    with inv w show ?thesis by (simp add: camera_metadata_get_and_lock_def cam_inv_def Let_def)
  next
    case (Op_Unlock a)
    with inv w show ?thesis by (simp add: camera_metadata_unlock_def cam_inv_def)
  next
    case (Op_Find tag)
    have "\<exists>e. camera_metadata_find L tag s = Inr e"
      using cam_inv_live [OF inv] by (auto simp: camera_metadata_find_def)
    with Op_Find inv w show ?thesis by auto
  qed
qed

lemma cam_run_inv:
  "camera_lib_ok L \<Longrightarrow> cam_inv w \<Longrightarrow> client_ok L ops w \<Longrightarrow> \<exists>w'. cam_run L ops w = Inr w' \<and> cam_inv w'"
proof (induction ops arbitrary: w)
  case Nil
  then show ?case by simp
next
  case (Cons op ops)
  then obtain w1 where "cam_step L op w = Inr w1" "cam_inv w1"
    using cam_step_inv by fastforce
  with Cons show ?case by simp
qed

section \<open>Room for new entries\<close>

text \<open>
  The documented laws on sizes: a new buffer is empty and has the capacities asked for, and appending
  what fits succeeds, adds the counts and keeps the capacities.
\<close>

definition camera_sizes_ok :: "('m, 'd) camera_lib \<Rightarrow> bool" where
  "camera_sizes_ok L \<longleftrightarrow>
     (\<forall>n k. entry_count L (empty_metadata L n k) = 0 \<and> data_count L (empty_metadata L n k) = 0
        \<and> entry_capacity L (empty_metadata L n k) = n \<and> data_capacity L (empty_metadata L n k) = k)
     \<and> (\<forall>dst src. entry_count L dst + entry_count L src \<le> entry_capacity L dst
          \<and> data_count L dst + data_count L src \<le> data_capacity L dst \<longrightarrow>
          fst (append_metadata L dst src) = cm_OK
          \<and> entry_count L (snd (append_metadata L dst src)) = entry_count L dst + entry_count L src
          \<and> data_count L (snd (append_metadata L dst src)) = data_count L dst + data_count L src
          \<and> entry_capacity L (snd (append_metadata L dst src)) = entry_capacity L dst
          \<and> data_capacity L (snd (append_metadata L dst src)) = data_capacity L dst)"

definition has_room :: "('m, 'd) camera_lib \<Rightarrow> 'm \<Rightarrow> nat \<Rightarrow> nat \<Rightarrow> bool" where
  "has_room L m n k \<longleftrightarrow> entry_count L m + n \<le> entry_capacity L m \<and> data_count L m + k \<le> data_capacity L m"

definition within_capacity :: "('m, 'd) camera_lib \<Rightarrow> 'm \<Rightarrow> nat \<Rightarrow> nat \<Rightarrow> bool" where
  "within_capacity L m n k \<longleftrightarrow> entry_count L m \<le> entry_capacity L m \<and> data_count L m \<le> data_capacity L m
     \<and> (entry_count L m + n) * 2 < 2 ^ 32 \<and> (data_count L m + k) * 2 < 2 ^ 32"

lemma size_t_id: "n < 2 ^ 32 \<Longrightarrow> size_t n = n"
  by (simp add: size_t_def)

lemma resize_room_live:
  assumes "camera_lib_ok L" and "camera_sizes_ok L" and "cam_inv (s, owned)"
    and m: "buffer (obj s) \<noteq> 0" "heap s (buffer (obj s)) = Some m" and "within_capacity L m n k"
    and run: "resizeIfNeeded L n k s = Inr (cm_OK, s')"
  shows "\<exists>m'. heap s' (buffer (obj s')) = Some m' \<and> has_room L m' n k
    \<and> entry_count L m' = entry_count L m \<and> data_count L m' = data_count L m"
proof -
  define ne where "ne = grown (entry_count L m) n (entry_capacity L m)"
  define nd where "nd = grown (data_count L m) k (data_capacity L m)"
  have cap: "entry_count L m \<le> entry_capacity L m" "data_count L m \<le> data_capacity L m"
    and big: "entry_count L m + n \<le> ne" "data_count L m + k \<le> nd"
    using assms(6) by (auto simp: within_capacity_def size_t_id ne_def nd_def grown_def)
  obtain r s1 where alloc: "allocate_camera_metadata L ne nd s = (r, s1)" by fastforce
  note run = run [unfolded resize_live [OF m ne_def nd_def] alloc]
  show ?thesis
  proof (cases "ne = entry_capacity L m \<and> nd = data_capacity L m")
    case True
    then have "s' = s"
      using run by simp
    with m True big show ?thesis by (simp add: has_room_def)
  next
    case False
    show ?thesis
    proof (rule allocate_cases [OF assms(1) alloc])
      assume "r = None" "s1 = s"
      with run False show ?thesis by (simp add: NO_MEMORY_def cm_OK_def)
    next
      fix a
      assume a: "r = Some a" "a \<noteq> 0" "heap s a = None" "s1 = s\<lparr>heap := (heap s)(a \<mapsto> empty_metadata L ne nd)\<rparr>"
      obtain m' where app: "append_metadata L (empty_metadata L ne nd) m = (cm_OK, m')"
        "entry_count L m' = entry_count L m" "data_count L m' = data_count L m"
        "entry_capacity L m' = ne" "data_capacity L m' = nd"
        using assms(2) big unfolding camera_sizes_ok_def
        by (metis (no_types, lifting) add.left_neutral add_leD1 prod.collapse)
      have other: "a \<noteq> buffer (obj s)" using a(3) m by auto
      have "s' = set_buffer a (s\<lparr>heap := (heap s)(a \<mapsto> m', buffer (obj s) := None)\<rparr>)"
        using run False a(1,4) app(1) other m by (simp add: free_camera_metadata_def Let_def)
      with other app(2-5) big show ?thesis by (simp add: has_room_def)
    qed
  qed
qed

section \<open>The object is a map from tags to entries\<close>

text \<open>
  The documented laws on contents, with \<open>content\<close> giving the entries of a buffer by their tags and
  \<open>tsize\<close> the size in bytes of an element of a type: a new buffer has no entries and knows the
  tags that are known without a buffer, appending to a new buffer copies all entries and the tags known, and an
  entry is found, added or replaced under its tag, or else nothing is changed. What is stored is what the
  library copies: as many bytes of the data as the count takes up in the type of the tag, whatever type
  the caller had in mind; the law holds when the data has so many.
\<close>

definition camera_content_ok :: "('m, 'b list) camera_lib \<Rightarrow> (int \<Rightarrow> nat) \<Rightarrow> ('m \<Rightarrow> nat \<rightharpoonup> 'b list \<times> nat) \<Rightarrow> bool" where
  "camera_content_ok L tsize content \<longleftrightarrow>
     (\<forall>n k. content (empty_metadata L n k) = Map.empty
        \<and> (\<forall>tag. tag_type L tag (Some (empty_metadata L n k)) = tag_type L tag None))
     \<and> (\<forall>n k m. fst (append_metadata L (empty_metadata L n k) m) = cm_OK
          \<longrightarrow> content (snd (append_metadata L (empty_metadata L n k) m)) = content m
            \<and> (\<forall>tag. tag_type L tag (Some (snd (append_metadata L (empty_metadata L n k) m))) = tag_type L tag (Some m)))
     \<and> (\<forall>m tag. fst (find_entry L m tag) = (if content m tag = None then NAME_NOT_FOUND else cm_OK))
     \<and> (\<forall>m tag d c. content m tag = None \<and> tsize (tag_type L tag (Some m)) * c \<le> length d \<longrightarrow>
          content (snd (add_entry L m tag d c))
          = (if fst (add_entry L m tag d c) = cm_OK
             then (content m)(tag \<mapsto> (take (tsize (tag_type L tag (Some m)) * c) d, c)) else content m))
     \<and> (\<forall>m tag d c. content m tag \<noteq> None \<and> tsize (tag_type L tag (Some m)) * c \<le> length d \<longrightarrow>
          (let r = update_entry L m (snd (find_entry L m tag)) d c
           in content (snd r) = (if fst r = cm_OK
             then (content m)(tag \<mapsto> (take (tsize (tag_type L tag (Some m)) * c) d, c)) else content m)))"

definition entries_of :: "('m \<Rightarrow> nat \<rightharpoonup> 'd \<times> nat) \<Rightarrow> 'm cam \<Rightarrow> nat \<rightharpoonup> 'd \<times> nat" where
  "entries_of content s = (case the_metadata s of None \<Rightarrow> Map.empty | Some m \<Rightarrow> content m)"

lemma camera_contentD:
  assumes "camera_content_ok L tsize content"
  shows "content (empty_metadata L n k) = Map.empty"
    and "fst (append_metadata L (empty_metadata L n k) m) = cm_OK
      \<Longrightarrow> content (snd (append_metadata L (empty_metadata L n k) m)) = content m"
    and "fst (find_entry L m tag) = (if content m tag = None then NAME_NOT_FOUND else cm_OK)"
    and "content m tag = None \<Longrightarrow> tsize (tag_type L tag (Some m)) * c \<le> length d \<Longrightarrow>
      content (snd (add_entry L m tag d c)) = (if fst (add_entry L m tag d c) = cm_OK
        then (content m)(tag \<mapsto> (take (tsize (tag_type L tag (Some m)) * c) d, c)) else content m)"
    and "content m tag \<noteq> None \<Longrightarrow> tsize (tag_type L tag (Some m)) * c \<le> length d \<Longrightarrow>
      content (snd (update_entry L m (snd (find_entry L m tag)) d c))
      = (if fst (update_entry L m (snd (find_entry L m tag)) d c) = cm_OK
         then (content m)(tag \<mapsto> (take (tsize (tag_type L tag (Some m)) * c) d, c)) else content m)"
    and "tag_type L tag (Some (empty_metadata L n k)) = tag_type L tag None"
    and "fst (append_metadata L (empty_metadata L n k) m) = cm_OK
      \<Longrightarrow> tag_type L tag (Some (snd (append_metadata L (empty_metadata L n k) m))) = tag_type L tag (Some m)"
  using assms unfolding camera_content_ok_def Let_def by blast+

lemma store_entry_content:
  assumes "camera_content_ok L tsize content" and "tsize (tag_type L tag (Some m)) * count \<le> length d"
  shows "content (snd (store_entry L tag d count m)) = (if fst (store_entry L tag d count m) = cm_OK
    then (content m)(tag \<mapsto> (take (tsize (tag_type L tag (Some m)) * count) d, count)) else content m)"
proof (cases "content m tag = None")
  case True
  then have "store_entry L tag d count m = add_entry L m tag d count"
    using camera_contentD(3) [OF assms(1), of m tag] by (simp add: store_entry_def case_prod_beta)
  with camera_contentD(4) [OF assms(1) True assms(2)] show ?thesis by simp
next
  case False
  have "fst (find_entry L m tag) = cm_OK"
    unfolding camera_contentD(3) [OF assms(1)] by (rule if_not_P [OF False])
  then have "store_entry L tag d count m = update_entry L m (snd (find_entry L m tag)) d count"
    by (simp add: store_entry_def case_prod_beta cm_OK_def NAME_NOT_FOUND_def)
  with camera_contentD(5) [OF assms(1) False assms(2)] show ?thesis by simp
qed

text \<open>Making room neither changes the entries nor touches a buffer of the client.\<close>

lemma resize_entries:
  assumes lib: "camera_lib_ok L" "camera_content_ok L tsize content" and inv: "cam_inv (s, owned)"
    and run: "resizeIfNeeded L n k s = Inr (r, s')"
  shows "entries_of content s' = entries_of content s \<and> (\<forall>a \<in> owned. heap s' a = heap s a)
    \<and> tag_type L tag (the_metadata s') = tag_type L tag (the_metadata s)"
proof (cases "buffer (obj s) = 0")
  case True
  obtain p s1 where alloc: "allocate_camera_metadata L (size_t (n * 2)) (size_t (k * 2)) s = (p, s1)" by fastforce
  show ?thesis
  proof (rule allocate_cases [OF lib(1) alloc])
    assume "p = None" "s1 = s"
    with run True alloc show ?thesis by (simp add: resizeIfNeeded_def)
  next
    fix a
    assume a: "p = Some a" "a \<noteq> 0" "heap s a = None"
      "s1 = s\<lparr>heap := (heap s)(a \<mapsto> empty_metadata L (size_t (n * 2)) (size_t (k * 2)))\<rparr>"
    then have "s' = set_buffer a s1" using run True alloc by (simp add: resizeIfNeeded_def)
    moreover have "a \<notin> owned" using inv True a(3) by (auto simp: cam_inv_def)
    ultimately show ?thesis
      using a(2,4) True camera_contentD(1,6) [OF lib(2)] by (auto simp: entries_of_def the_metadata_def)
  qed
next
  case False
  then obtain m where m: "heap s (buffer (obj s)) = Some m" using inv by (auto simp: cam_inv_def)
  define ne where "ne = grown (entry_count L m) n (entry_capacity L m)"
  define nd where "nd = grown (data_count L m) k (data_capacity L m)"
  obtain p s1 where alloc: "allocate_camera_metadata L ne nd s = (p, s1)" by fastforce
  note run = run [unfolded resize_live [OF False m ne_def nd_def] alloc]
  show ?thesis
  proof (cases "ne = entry_capacity L m \<and> nd = data_capacity L m")
    case True
    with run show ?thesis by simp
  next
    case grow: False
    show ?thesis
    proof (rule allocate_cases [OF lib(1) alloc])
      assume "p = None" "s1 = s"
      with run grow show ?thesis by simp
    next
      fix a
      assume a: "p = Some a" "a \<noteq> 0" "heap s a = None" "s1 = s\<lparr>heap := (heap s)(a \<mapsto> empty_metadata L ne nd)\<rparr>"
      obtain result m' where app: "append_metadata L (empty_metadata L ne nd) m = (result, m')" by fastforce
      have other: "a \<noteq> buffer (obj s)" "a \<notin> owned" "buffer (obj s) \<notin> owned"
        using a(3) m inv by (auto simp: cam_inv_def split: if_splits)
      have "result = cm_OK \<Longrightarrow> content m' = content m \<and> tag_type L tag (Some m') = tag_type L tag (Some m)"
        using camera_contentD(2,7) [OF lib(2), of ne nd m] app by simp
      then show ?thesis
        using run grow a app other False m
        by (auto simp: entries_of_def the_metadata_def free_camera_metadata_def Let_def split: if_splits)
    qed
  qed
qed

lemma find_dom:
  assumes "camera_content_ok L tsize content" and "cam_inv (s, owned)" and "\<not> locked (obj s)"
  shows "(\<exists>i. camera_metadata_find L tag s = Inr (Some i)) \<longleftrightarrow> tag \<in> dom (entries_of content s)"
proof (cases "buffer (obj s) = 0")
  case True
  then show ?thesis by (simp add: camera_metadata_find_def entries_of_def the_metadata_def)
next
  case False
  then obtain m where m: "heap s (buffer (obj s)) = Some m" using cam_inv_live [OF assms(2)] by blast
  with camera_contentD(3) [OF assms(1), of m tag] False assms(3) show ?thesis
    by (auto simp: camera_metadata_find_def entries_of_def the_metadata_def NAME_NOT_FOUND_def cm_OK_def)
qed

lemma update_entries:
  assumes lib: "camera_lib_ok L" "camera_content_ok L tsize content" and inv: "cam_inv (s, owned)"
    and bytes: "bytes = tsize (tag_type L tag (the_metadata s)) * count" "bytes \<le> length d"
    and run: "updateImpl L tag addr d count s = Inr (r, s')"
  shows "entries_of content s' = (if r = cm_OK then (entries_of content s)(tag \<mapsto> (take bytes d, count)) else entries_of content s)
    \<and> (\<forall>a \<in> owned. heap s' a = heap s a)"
proof (cases "update_rejected L tag addr s")
  case True
  from update_rejects [OF inv this, of d count] run show ?thesis by auto
next
  case False
  let ?k = "entry_data_size L (tag_type L tag (the_metadata s)) count"
  obtain r1 s1 where resize: "resizeIfNeeded L 1 ?k s = Inr (r1, s1)" "cam_inv (s1, owned)"
    "r1 = cm_OK \<longrightarrow> buffer (obj s1) \<noteq> 0"
    using resize_inv [OF lib(1) inv, of 1 ?k] by blast
  note same = resize_entries [OF lib inv resize(1)] and run = run [unfolded update_run [OF inv False resize(1)]]
  show ?thesis
  proof (cases "r1 = cm_OK")
    case True
    then obtain m where m: "heap s1 (buffer (obj s1)) = Some m" using cam_inv_live [OF resize(2)] resize(3) by blast
    then have s': "r = fst (store_entry L tag d count m)"
      "s' = s1\<lparr>heap := (heap s1)(buffer (obj s1) \<mapsto> snd (store_entry L tag d count m))\<rparr>"
      using run True by simp_all
    have "buffer (obj s1) \<notin> owned" using resize(2) by (simp add: cam_inv_def)
    moreover have "entries_of content s1 = content m" "entries_of content s' = content (snd (store_entry L tag d count m))"
      using m True resize(3) by (simp_all add: s' entries_of_def the_metadata_def)
    moreover have "the_metadata s1 = Some m" using m True resize(3) by (simp add: the_metadata_def)
    then have "bytes = tsize (tag_type L tag (Some m)) * count" using same [of tag] bytes(1) by simp
    ultimately show ?thesis
      using same [of tag] store_entry_content [OF lib(2), of tag m count d] bytes(2) by (auto simp: s')
  next
    case False
    with run same show ?thesis by auto
  qed
qed

text \<open>A library of counters for the witnesses.\<close>

record counters =
  c_entries :: nat
  c_entry_room :: nat
  c_data :: nat
  c_data_room :: nat

definition counter_lib :: "(counters, unit) camera_lib" where
  "counter_lib = \<lparr>new_address = (\<lambda>h n k. if h 100 = None then Some 100 else if h 200 = None then Some 200 else None),
     empty_metadata = (\<lambda>n k. \<lparr>c_entries = 0, c_entry_room = n, c_data = 0, c_data_room = k\<rparr>),
     entry_count = c_entries, entry_capacity = c_entry_room, data_count = c_data, data_capacity = c_data_room,
     metadata_size = (\<lambda>_. 50), tag_type = (\<lambda>_ _. 0), entry_data_size = (\<lambda>_ count. count),
     append_metadata = (\<lambda>d s. (0, d\<lparr>c_entries := c_entries d + c_entries s, c_data := c_data d + c_data s\<rparr>)),
     find_entry = (\<lambda>_ _. (-2, 0)),
     add_entry = (\<lambda>m _ _ count. (0, m\<lparr>c_entries := c_entries m + 1, c_data := c_data m + count\<rparr>)),
     update_entry = (\<lambda>m _ _ _. (0, m))\<rparr>"

lemma counter_lib_ok: "camera_lib_ok counter_lib" "camera_sizes_ok counter_lib"
  by (auto simp: camera_lib_ok_def camera_sizes_ok_def counter_lib_def cm_OK_def split: if_splits)

text \<open>A library whose buffers are the maps themselves and whose tags all have elements of four bytes.\<close>

definition map_lib :: "(nat \<rightharpoonup> 8 word list \<times> nat, 8 word list) camera_lib" where
  "map_lib = \<lparr>new_address = (\<lambda>h n k. if h 100 = None then Some 100 else if h 200 = None then Some 200 else None),
     empty_metadata = (\<lambda>n k. Map.empty), entry_count = (\<lambda>m. 0), entry_capacity = (\<lambda>m. 10),
     data_count = (\<lambda>m. 0), data_capacity = (\<lambda>m. 100), metadata_size = (\<lambda>_. 50),
     tag_type = (\<lambda>_ _. 1), entry_data_size = (\<lambda>_ count. 4 * count), append_metadata = (\<lambda>d s. (0, s)),
     find_entry = (\<lambda>m tag. (if m tag = None then -2 else 0, tag)),
     add_entry = (\<lambda>m tag d count. (0, m(tag \<mapsto> (take (4 * count) d, count)))),
     update_entry = (\<lambda>m i d count. (0, m(i \<mapsto> (take (4 * count) d, count))))\<rparr>"

lemma map_lib_ok: "camera_lib_ok map_lib" "camera_content_ok map_lib (\<lambda>_. 4) id"
  by (auto simp: camera_lib_ok_def camera_content_ok_def map_lib_def cm_OK_def NAME_NOT_FOUND_def Let_def split: if_splits)

definition new_client :: "counters cam_client" where
  "new_client = (\<lparr>heap = Map.empty, obj = camera_metadata_ctor\<rparr>, {})"

lemma new_client_inv: "cam_inv new_client"
  by (simp add: new_client_def cam_inv_def camera_metadata_ctor_def)

section \<open>Properties\<close>

text \<open>
  C28: no buffer is lost or freed twice. However a client calls the object, as long as it only hands over
  buffers it owns, no operation uses or frees memory that is not allocated; at every moment each
  buffer has exactly one owner, and after the destructor only the client's buffers are left.
\<close>

theorem camera_ownership:
  assumes "camera_lib_ok L" and "cam_inv w" and "client_ok L ops w"
  shows "\<exists>s owned s'. cam_run L ops w = Inr (s, owned) \<and> cam_inv (s, owned)
    \<and> camera_metadata_dtor s = Inr s' \<and> dom (heap s') = owned \<and> buffer (obj s') = 0"
proof -
  obtain s owned where run: "cam_run L ops w = Inr (s, owned)" "cam_inv (s, owned)"
    using cam_run_inv [OF assms] by auto
  have "cam_inv (s\<lparr>obj := (obj s)\<lparr>locked := False\<rparr>\<rparr>, owned)" using run(2) by (simp add: cam_inv_def)
  from clear_inv [OF this] obtain s' where "camera_metadata_dtor s = Inr s'" "cam_inv (s', owned)"
    "buffer (obj s') = 0"
    by (auto simp: camera_metadata_dtor_def)
  with run show ?thesis by (auto simp: cam_inv_def)
qed

theorem camera_ownership_witness:
  "\<exists>s owned s'. cam_run counter_lib [Op_Update 1 0 () 3, Op_Lock, Op_Clear, Op_Unlock 100, Op_Release, Op_Acquire 100]
       new_client = Inr (s, owned)
     \<and> camera_metadata_dtor s = Inr s' \<and> dom (heap s') = owned"
proof -
  have "client_ok counter_lib [Op_Update 1 0 () 3, Op_Lock, Op_Clear, Op_Unlock 100, Op_Release, Op_Acquire 100] new_client"
    by (simp add: new_client_def camera_metadata_ctor_def updateImpl_def resizeIfNeeded_def counter_lib_def
        allocate_camera_metadata_def camera_metadata_get_and_lock_def camera_metadata_clear_def
        camera_metadata_unlock_def camera_metadata_release_def camera_metadata_acquire_def cm_OK_def
        NAME_NOT_FOUND_def Let_def)
  from camera_ownership [OF counter_lib_ok(1) new_client_inv this] show ?thesis by blast
qed

text \<open>
  C30: the lock. While the object is locked, no operation changes the object or any buffer, except
  \<open>unlock\<close> with the very buffer that was handed out, which only takes the lock away.
\<close>

theorem locked_object_stable:
  assumes "cam_inv (s, owned)" and "locked (obj s)" and "cam_step L op (s, owned) = Inr (t, owned')"
  shows "owned' = owned \<and> (t = s \<or> op = Op_Unlock (buffer (obj s)) \<and> t = s\<lparr>obj := (obj s)\<lparr>locked := False\<rparr>\<rparr>)"
proof (cases op)
  case Op_Lock
  have "(obj s)\<lparr>locked := True\<rparr> = obj s" using assms(2) by simp
  with Op_Lock assms(3) show ?thesis by (simp add: camera_metadata_get_and_lock_def Let_def)
next
  case (Op_Unlock a)
  with assms(2,3) show ?thesis by (auto simp: camera_metadata_unlock_def split: if_splits)
qed (use assms in \<open>simp_all add: camera_metadata_clear_def camera_metadata_release_def
      camera_metadata_acquire_def updateImpl_def camera_metadata_find_def\<close>)

theorem locked_object_stable_witness:
  "cam_step counter_lib Op_Release (\<lparr>heap = Map.empty, obj = \<lparr>buffer = 0, locked = True\<rparr>\<rparr>, {})
     = Inr (\<lparr>heap = Map.empty, obj = \<lparr>buffer = 0, locked = True\<rparr>\<rparr>, {})"
proof -
  let ?s = "\<lparr>heap = Map.empty, obj = \<lparr>buffer = 0, locked = True\<rparr>\<rparr> :: counters cam"
  obtain t owned' where step: "cam_step counter_lib Op_Release (?s, {}) = Inr (t, owned')"
    by (simp add: camera_metadata_release_def)
  have "cam_inv (?s, {})" by (simp add: cam_inv_def)
  from locked_object_stable [OF this _ step] step show ?thesis by simp
qed

text \<open>
  When \<open>resizeIfNeeded\<close> reports success on a buffer that is not over-full, and the sizes stay in
  the range of \<open>size_t\<close>, the buffer of the object has room for the extra entries and bytes and still
  holds as many entries and bytes as before.
\<close>

theorem resize_gives_room:
  assumes "camera_lib_ok L" and "camera_sizes_ok L" and "cam_inv (s, owned)"
    and "buffer (obj s) \<noteq> 0" and "heap s (buffer (obj s)) = Some m" and "within_capacity L m n k"
    and "resizeIfNeeded L n k s = Inr (cm_OK, s')"
  shows "\<exists>m'. heap s' (buffer (obj s')) = Some m' \<and> has_room L m' n k
    \<and> entry_count L m' = entry_count L m \<and> data_count L m' = data_count L m"
  by (rule resize_room_live [OF assms])

theorem resize_gives_room_witness:
  "\<exists>s' m'. resizeIfNeeded counter_lib 1 8 \<lparr>heap = [100 \<mapsto> \<lparr>c_entries = 2, c_entry_room = 2, c_data = 5, c_data_room = 9\<rparr>],
      obj = \<lparr>buffer = 100, locked = False\<rparr>\<rparr> = Inr (cm_OK, s')
    \<and> heap s' (buffer (obj s')) = Some m' \<and> has_room counter_lib m' 1 8"
proof -
  let ?m = "\<lparr>c_entries = 2, c_entry_room = 2, c_data = 5, c_data_room = 9\<rparr> :: counters"
  let ?s = "\<lparr>heap = [100 \<mapsto> ?m], obj = \<lparr>buffer = 100, locked = False\<rparr>\<rparr> :: counters cam"
  obtain s' where run: "resizeIfNeeded counter_lib 1 8 ?s = Inr (cm_OK, s')"
    by (simp add: resizeIfNeeded_def counter_lib_def size_t_def allocate_camera_metadata_def
        free_camera_metadata_def cm_OK_def Let_def)
  have pre: "cam_inv (?s, {})" "buffer (obj ?s) \<noteq> 0" "heap ?s (buffer (obj ?s)) = Some ?m"
    "within_capacity counter_lib ?m 1 8"
    by (simp_all add: cam_inv_def within_capacity_def counter_lib_def)
  from resize_gives_room [OF counter_lib_ok pre run] run show ?thesis by blast
qed

text \<open>
  C29: The object is a map from tags to entries. The bytes that an update stores are those that the count
  takes up in the type which the tag has, and the data is assumed to have so many; the types of the
  legacy functions have no part in it. An update that reports success stores exactly these bytes and
  the count under its tag, adding or replacing; one that reports an error changes no
  entry, whatever failed on the way; both keep all other entries, also when the buffer had to be
  replaced by a larger one, and no buffer of the client is touched. The entries found are those of the map.
\<close>

theorem update_refines_map:
  assumes "camera_lib_ok L" and "camera_content_ok L tsize content" and "cam_inv (s, owned)"
    and "bytes = tsize (tag_type L tag (the_metadata s)) * count" and "bytes \<le> length d"
    and "updateImpl L tag addr d count s = Inr (r, s')"
  shows "entries_of content s' = (if r = cm_OK then (entries_of content s)(tag \<mapsto> (take bytes d, count)) else entries_of content s)
    \<and> (\<forall>a \<in> owned. heap s' a = heap s a)
    \<and> (\<not> locked (obj s') \<longrightarrow>
        (\<forall>t. (\<exists>i. camera_metadata_find L t s' = Inr (Some i)) \<longleftrightarrow> t \<in> dom (entries_of content s')))"
proof -
  have "cam_inv (s', owned)"
    using update_inv [OF assms(1,3), of tag addr d count] assms(6) by auto
  with update_entries [OF assms] find_dom [OF assms(2)] show ?thesis by blast
qed

theorem update_refines_map_witness:
  "\<exists>s'. camera_metadata_update_i32 map_lib 7 0 [0x01020304, 5] 1 \<lparr>heap = Map.empty, obj = camera_metadata_ctor\<rparr> = Inr (cm_OK, s')
     \<and> entries_of id s' = [7 \<mapsto> ([4, 3, 2, 1], 1)]"
proof -
  let ?s = "\<lparr>heap = Map.empty, obj = camera_metadata_ctor\<rparr> :: (nat \<rightharpoonup> 8 word list \<times> nat) cam"
  have bytes: "concat (map (le_bytes 4) [0x01020304 :: 32 word, 5]) = [4, 3, 2, 1, 5, 0, 0, 0]"
    by code_simp
  obtain s' where run: "updateImpl map_lib 7 0 [4, 3, 2, 1, 5, 0, 0, 0] 1 ?s = Inr (cm_OK, s')"
    by (simp add: updateImpl_def camera_metadata_ctor_def resizeIfNeeded_def map_lib_def
        allocate_camera_metadata_def cm_OK_def NAME_NOT_FOUND_def Let_def)
  have "cam_inv (?s, {})" by (simp add: cam_inv_def camera_metadata_ctor_def)
  from update_refines_map [OF map_lib_ok this refl _ run]
  have "entries_of id s' = [7 \<mapsto> ([4, 3, 2, 1], 1)]"
    by (simp add: entries_of_def the_metadata_def camera_metadata_ctor_def)
  with run show ?thesis by (simp only: camera_metadata_update_i32_def bytes) blast
qed

end
