(* ===== verification/Sensor_Server.thy ===== *)
theory Sensor_Server
  imports Mozart_Prelude
begin

text \<open>
  The binder interface of the sensor service, \<open>libshims/gui/ISensorServer.cpp\<close>: the stub of the client
  writes a request into a parcel, the skeleton of the server reads it, calls the service and writes
  the reply. Parcels are not part of the repository and are a parameter with their documented laws.
  The theory shows that a call through stub and skeleton is a call of the service.
\<close>

section \<open>Parcels\<close>

text \<open>What can be written into a parcel; \<open>'s\<close> are sensors and \<open>'c\<close> binder references.\<close>

datatype ('s, 'c) item =
    Token string
  | S16 string
  | S8 string
  | I32 int
  | U32 nat
  | Flat 's
  | Strong 'c

text \<open>
  The operations of \<open>Parcel\<close> the code uses. \<open>unread\<close> is what has been written and not been read yet;
  every reader returns a value and the parcel after it. A reader that does not find its item returns
  a default value, as \<open>Parcel\<close> does.
\<close>

record ('p, 's, 'c) parcel_api =
  empty_parcel :: 'p
  put :: "('s, 'c) item \<Rightarrow> 'p \<Rightarrow> 'p"
  unread :: "'p \<Rightarrow> ('s, 'c) item list"
  check_interface :: "string \<Rightarrow> 'p \<Rightarrow> bool \<times> 'p"
  readString16 :: "'p \<Rightarrow> string \<times> 'p"
  readString8 :: "'p \<Rightarrow> string \<times> 'p"
  readInt32 :: "'p \<Rightarrow> int \<times> 'p"
  readUint32 :: "'p \<Rightarrow> nat \<times> 'p"
  readSensor :: "'s \<Rightarrow> 'p \<Rightarrow> 's \<times> 'p"
  readStrongBinder :: "'p \<Rightarrow> 'c \<times> 'p"
  blank_sensor :: 's

text \<open>Parcels are first in, first out, and a number that cannot be read is 0.\<close>

definition parcel_ok :: "('p, 's, 'c) parcel_api \<Rightarrow> bool" where
  "parcel_ok P \<longleftrightarrow> unread P (empty_parcel P) = []
     \<and> (\<forall>x p. unread P (put P x p) = unread P p @ [x])
     \<and> (\<forall>d p xs. unread P p = Token d # xs \<longrightarrow>
          fst (check_interface P d p) \<and> unread P (snd (check_interface P d p)) = xs)
     \<and> (\<forall>v p xs. unread P p = S16 v # xs \<longrightarrow> fst (readString16 P p) = v \<and> unread P (snd (readString16 P p)) = xs)
     \<and> (\<forall>v p xs. unread P p = S8 v # xs \<longrightarrow> fst (readString8 P p) = v \<and> unread P (snd (readString8 P p)) = xs)
     \<and> (\<forall>v p xs. unread P p = I32 v # xs \<longrightarrow> fst (readInt32 P p) = v \<and> unread P (snd (readInt32 P p)) = xs)
     \<and> (\<forall>v p xs. unread P p = U32 v # xs \<longrightarrow> fst (readUint32 P p) = v \<and> unread P (snd (readUint32 P p)) = xs)
     \<and> (\<forall>v b p xs. unread P p = Flat v # xs \<longrightarrow> fst (readSensor P b p) = v \<and> unread P (snd (readSensor P b p)) = xs)
     \<and> (\<forall>v p xs. unread P p = Strong v # xs \<longrightarrow>
          fst (readStrongBinder P p) = v \<and> unread P (snd (readStrongBinder P p)) = xs)
     \<and> (\<forall>p. unread P p = [] \<longrightarrow> fst (readUint32 P p) = 0 \<and> fst (readInt32 P p) = 0)"

section \<open>The service behind the interface\<close>

record ('w, 's, 'c) sensor_service =
  srv_list :: "string \<Rightarrow> 'w \<Rightarrow> 's list \<times> 'w"
  srv_dynamic :: "string \<Rightarrow> 'w \<Rightarrow> 's list \<times> 'w"
  srv_connect :: "string \<Rightarrow> int \<Rightarrow> string \<Rightarrow> 'w \<Rightarrow> 'c \<times> 'w"
  srv_injection :: "'w \<Rightarrow> int \<times> 'w"

definition descriptor :: string where
  "descriptor = ''android.gui.SensorServer''"

definition GET_SENSOR_LIST :: nat where "GET_SENSOR_LIST = 1"

definition CREATE_SENSOR_EVENT_CONNECTION :: nat where "CREATE_SENSOR_EVENT_CONNECTION = 2"

definition ENABLE_DATA_INJECTION :: nat where "ENABLE_DATA_INJECTION = 3"

definition GET_DYNAMIC_SENSOR_LIST :: nat where "GET_DYNAMIC_SENSOR_LIST = 4"

lemmas codes = GET_SENSOR_LIST_def CREATE_SENSOR_EVENT_CONNECTION_def ENABLE_DATA_INJECTION_def
  GET_DYNAMIC_SENSOR_LIST_def

section \<open>The skeleton\<close>

definition NO_ERROR :: int where "NO_ERROR = 0"

definition PERMISSION_DENIED :: int where "PERMISSION_DENIED = -1"

fun write_sensors :: "('p, 's, 'c) parcel_api \<Rightarrow> 's list \<Rightarrow> 'p \<Rightarrow> 'p" where
  "write_sensors P [] reply = reply"
| "write_sensors P (s # v) reply = write_sensors P v (put P (Flat s) reply)"

definition reply_list :: "('p, 's, 'c) parcel_api \<Rightarrow> 's list \<Rightarrow> 'p \<Rightarrow> 'p" where
  "reply_list P v reply = write_sensors P v (put P (U32 (length v mod 2 ^ 32)) reply)"

text \<open>\<open>other\<close> is \<open>BBinder::onTransact\<close>. The result is the status, the reply and the service afterwards.\<close>

definition onTransact :: "('p, 's, 'c) parcel_api \<Rightarrow> ('w, 's, 'c) sensor_service
    \<Rightarrow> (nat \<Rightarrow> 'p \<Rightarrow> 'p \<Rightarrow> 'w \<Rightarrow> int \<times> 'p \<times> 'w) \<Rightarrow> nat \<Rightarrow> 'p \<Rightarrow> 'p \<Rightarrow> 'w \<Rightarrow> int \<times> 'p \<times> 'w" where
  "onTransact P S other code request reply w =
     (if code = GET_SENSOR_LIST then
        (let (ok, request) = check_interface P descriptor request
         in if \<not> ok then (PERMISSION_DENIED, reply, w)
            else let (opPackageName, request) = readString16 P request;
                     (v, w) = srv_list S opPackageName w
                 in (NO_ERROR, reply_list P v reply, w))
      else if code = CREATE_SENSOR_EVENT_CONNECTION then
        (let (ok, request) = check_interface P descriptor request
         in if \<not> ok then (PERMISSION_DENIED, reply, w)
            else let (packageName, request) = readString8 P request;
                     (mode, request) = readInt32 P request;
                     (opPackageName, request) = readString16 P request;
                     (connection, w) = srv_connect S packageName mode opPackageName w
                 in (NO_ERROR, put P (Strong connection) reply, w))
      else if code = ENABLE_DATA_INJECTION then
        (let (ok, request) = check_interface P descriptor request
         in if \<not> ok then (PERMISSION_DENIED, reply, w)
            else let (ret, w) = srv_injection S w
                 in (NO_ERROR, put P (I32 ret) reply, w))
      else if code = GET_DYNAMIC_SENSOR_LIST then
        (let (ok, request) = check_interface P descriptor request
         in if \<not> ok then (PERMISSION_DENIED, reply, w)
            else let (opPackageName, request) = readString16 P request;
                     (v, w) = srv_dynamic S opPackageName w
                 in (NO_ERROR, reply_list P v reply, w))
      else other code request reply w)"

section \<open>The stub\<close>

text \<open>
  \<open>transact\<close> is \<open>remote()->transact\<close>: it takes the code and the request and gives the reply; its status
  is ignored by the code.
\<close>

fun read_sensors :: "('p, 's, 'c) parcel_api \<Rightarrow> nat \<Rightarrow> 's \<Rightarrow> 'p \<Rightarrow> 's list" where
  "read_sensors P 0 s reply = []"
| "read_sensors P (Suc n) s reply =
     (let (s, reply) = readSensor P s reply in s # read_sensors P n s reply)"

definition bp_list :: "('p, 's, 'c) parcel_api \<Rightarrow> (nat \<Rightarrow> 'p \<Rightarrow> 'w \<Rightarrow> 'p \<times> 'w) \<Rightarrow> nat \<Rightarrow> string \<Rightarrow> 'w \<Rightarrow> 's list \<times> 'w" where
  "bp_list P transact code opPackageName w =
     (let request = put P (S16 opPackageName) (put P (Token descriptor) (empty_parcel P));
          (reply, w) = transact code request w;
          (n, reply) = readUint32 P reply
      in (read_sensors P n (blank_sensor P) reply, w))"

definition bp_getSensorList :: "('p, 's, 'c) parcel_api \<Rightarrow> (nat \<Rightarrow> 'p \<Rightarrow> 'w \<Rightarrow> 'p \<times> 'w) \<Rightarrow> string \<Rightarrow> 'w \<Rightarrow> 's list \<times> 'w" where
  "bp_getSensorList P transact = bp_list P transact GET_SENSOR_LIST"

definition bp_getDynamicSensorList :: "('p, 's, 'c) parcel_api \<Rightarrow> (nat \<Rightarrow> 'p \<Rightarrow> 'w \<Rightarrow> 'p \<times> 'w) \<Rightarrow> string \<Rightarrow> 'w \<Rightarrow> 's list \<times> 'w" where
  "bp_getDynamicSensorList P transact = bp_list P transact GET_DYNAMIC_SENSOR_LIST"

definition bp_createSensorEventConnection :: "('p, 's, 'c) parcel_api \<Rightarrow> (nat \<Rightarrow> 'p \<Rightarrow> 'w \<Rightarrow> 'p \<times> 'w)
    \<Rightarrow> string \<Rightarrow> int \<Rightarrow> string \<Rightarrow> 'w \<Rightarrow> 'c \<times> 'w" where
  "bp_createSensorEventConnection P transact packageName mode opPackageName w =
     (let request = put P (S16 opPackageName) (put P (I32 mode) (put P (S8 packageName)
            (put P (Token descriptor) (empty_parcel P))));
          (reply, w) = transact CREATE_SENSOR_EVENT_CONNECTION request w
      in (fst (readStrongBinder P reply), w))"

definition bp_isDataInjectionEnabled :: "('p, 's, 'c) parcel_api \<Rightarrow> (nat \<Rightarrow> 'p \<Rightarrow> 'w \<Rightarrow> 'p \<times> 'w) \<Rightarrow> 'w \<Rightarrow> int \<times> 'w" where
  "bp_isDataInjectionEnabled P transact w =
     (let request = put P (Token descriptor) (empty_parcel P);
          (reply, w) = transact ENABLE_DATA_INJECTION request w
      in (fst (readInt32 P reply), w))"

text \<open>A transport that delivers the request and the reply, and one that loses the request.\<close>

definition direct :: "('p, 's, 'c) parcel_api \<Rightarrow> ('w, 's, 'c) sensor_service
    \<Rightarrow> (nat \<Rightarrow> 'p \<Rightarrow> 'p \<Rightarrow> 'w \<Rightarrow> int \<times> 'p \<times> 'w) \<Rightarrow> nat \<Rightarrow> 'p \<Rightarrow> 'w \<Rightarrow> 'p \<times> 'w" where
  "direct P S other code request w = snd (onTransact P S other code request (empty_parcel P) w)"

definition lost :: "('p, 's, 'c) parcel_api \<Rightarrow> nat \<Rightarrow> 'p \<Rightarrow> 'w \<Rightarrow> 'p \<times> 'w" where
  "lost P code request w = (empty_parcel P, w)"

section \<open>Round trips\<close>

lemma parcel_okD:
  assumes "parcel_ok P"
  shows "unread P (empty_parcel P) = []"
    "unread P (put P x p) = unread P p @ [x]"
    "unread P p = Token d # xs \<Longrightarrow> fst (check_interface P d p) \<and> unread P (snd (check_interface P d p)) = xs"
    "unread P p = S16 v # xs \<Longrightarrow> fst (readString16 P p) = v \<and> unread P (snd (readString16 P p)) = xs"
    "unread P p = S8 v # xs \<Longrightarrow> fst (readString8 P p) = v \<and> unread P (snd (readString8 P p)) = xs"
    "unread P p = I32 n # xs \<Longrightarrow> fst (readInt32 P p) = n \<and> unread P (snd (readInt32 P p)) = xs"
    "unread P p = U32 k # xs \<Longrightarrow> fst (readUint32 P p) = k \<and> unread P (snd (readUint32 P p)) = xs"
    "unread P p = Flat s # xs \<Longrightarrow> fst (readSensor P b p) = s \<and> unread P (snd (readSensor P b p)) = xs"
    "unread P p = Strong c # xs \<Longrightarrow> fst (readStrongBinder P p) = c \<and> unread P (snd (readStrongBinder P p)) = xs"
    "unread P p = [] \<Longrightarrow> fst (readUint32 P p) = 0 \<and> fst (readInt32 P p) = 0"
  using assms by (simp_all add: parcel_ok_def)

lemma unread_write_sensors:
  "parcel_ok P \<Longrightarrow> unread P (write_sensors P v p) = unread P p @ map Flat v"
  by (induction v arbitrary: p) (simp_all add: parcel_okD(2))

lemma read_written_sensors:
  "parcel_ok P \<Longrightarrow> unread P p = map Flat v \<Longrightarrow> read_sensors P (length v) s p = v"
proof (induction v arbitrary: p s)
  case Nil
  then show ?case by simp
next
  case (Cons x v)
  from parcel_okD(8) [OF Cons.prems(1), of p x "map Flat v" s] Cons.prems(2)
  have "fst (readSensor P s p) = x" "unread P (snd (readSensor P s p)) = map Flat v" by simp_all
  with Cons.IH [OF Cons.prems(1) this(2)] show ?case by (simp add: case_prod_beta)
qed

lemma read_reply_list:
  assumes "parcel_ok P" and "length v < 2 ^ 32"
  shows "(let (n, reply) = readUint32 P (reply_list P v (empty_parcel P)) in read_sensors P n s reply) = v"
proof -
  let ?p = "reply_list P v (empty_parcel P)"
  have "unread P ?p = U32 (length v) # map Flat v"
    using assms by (simp add: reply_list_def unread_write_sensors parcel_okD(1,2))
  from parcel_okD(7) [OF assms(1) this] read_written_sensors [OF assms(1)] show ?thesis
    by (simp add: case_prod_beta)
qed

text \<open>What the skeleton reads from the request of each stub.\<close>

lemma request_token:
  assumes "parcel_ok P"
  shows "unread P (put P (Token descriptor) (empty_parcel P)) = [Token descriptor]"
  by (simp add: parcel_okD(1,2) [OF assms])

lemma direct_list:
  assumes "parcel_ok P"
  shows "direct P S other GET_SENSOR_LIST (put P (S16 name) (put P (Token descriptor) (empty_parcel P))) w
      = (reply_list P (fst (srv_list S name w)) (empty_parcel P), snd (srv_list S name w))"
    and "direct P S other GET_DYNAMIC_SENSOR_LIST (put P (S16 name) (put P (Token descriptor) (empty_parcel P))) w
      = (reply_list P (fst (srv_dynamic S name w)) (empty_parcel P), snd (srv_dynamic S name w))"
proof -
  let ?q = "put P (S16 name) (put P (Token descriptor) (empty_parcel P))"
  have "unread P ?q = Token descriptor # [S16 name]" by (simp add: parcel_okD(1,2) [OF assms])
  from parcel_okD(3) [OF assms this] have ok: "fst (check_interface P descriptor ?q)"
    "unread P (snd (check_interface P descriptor ?q)) = S16 name # []" by simp_all
  note name = parcel_okD(4) [OF assms ok(2)]
  show "direct P S other GET_SENSOR_LIST ?q w
      = (reply_list P (fst (srv_list S name w)) (empty_parcel P), snd (srv_list S name w))"
    and "direct P S other GET_DYNAMIC_SENSOR_LIST ?q w
      = (reply_list P (fst (srv_dynamic S name w)) (empty_parcel P), snd (srv_dynamic S name w))"
    using ok(1) name by (simp_all add: direct_def onTransact_def codes case_prod_beta Let_def)
qed

lemma direct_connect:
  assumes "parcel_ok P"
  shows "direct P S other CREATE_SENSOR_EVENT_CONNECTION (put P (S16 op_name) (put P (I32 mode) (put P (S8 name)
            (put P (Token descriptor) (empty_parcel P))))) w
      = (put P (Strong (fst (srv_connect S name mode op_name w))) (empty_parcel P),
         snd (srv_connect S name mode op_name w))"
proof -
  let ?q = "put P (S16 op_name) (put P (I32 mode) (put P (S8 name) (put P (Token descriptor) (empty_parcel P))))"
  have "unread P ?q = Token descriptor # [S8 name, I32 mode, S16 op_name]"
    by (simp add: parcel_okD(1,2) [OF assms])
  from parcel_okD(3) [OF assms this] have 1: "fst (check_interface P descriptor ?q)"
    "unread P (snd (check_interface P descriptor ?q)) = S8 name # [I32 mode, S16 op_name]" by simp_all
  from parcel_okD(5) [OF assms 1(2)]
  have 2: "fst (readString8 P (snd (check_interface P descriptor ?q))) = name"
    "unread P (snd (readString8 P (snd (check_interface P descriptor ?q)))) = I32 mode # [S16 op_name]" by simp_all
  note 3 = parcel_okD(6) [OF assms 2(2)]
  note 4 = parcel_okD(4) [OF assms conjunct2 [OF 3]]
  show ?thesis
    using 1(1) 2(1) 3 4 by (simp add: direct_def onTransact_def codes case_prod_beta Let_def)
qed

text \<open>The stub as a service of its own: what a client of the proxy sees.\<close>

definition bp_service :: "('p, 's, 'c) parcel_api \<Rightarrow> (nat \<Rightarrow> 'p \<Rightarrow> 'w \<Rightarrow> 'p \<times> 'w) \<Rightarrow> ('w, 's, 'c) sensor_service" where
  "bp_service P transact = \<lparr>srv_list = bp_getSensorList P transact, srv_dynamic = bp_getDynamicSensorList P transact,
     srv_connect = bp_createSensorEventConnection P transact, srv_injection = bp_isDataInjectionEnabled P transact\<rparr>"

definition lists_fit :: "('w, 's, 'c) sensor_service \<Rightarrow> bool" where
  "lists_fit S \<longleftrightarrow> (\<forall>name w. length (fst (srv_list S name w)) < 2 ^ 32
     \<and> length (fst (srv_dynamic S name w)) < 2 ^ 32)"

lemma bp_lists_direct:
  assumes "parcel_ok P" and "lists_fit S"
  shows "bp_getSensorList P (direct P S other) name w = srv_list S name w"
    and "bp_getDynamicSensorList P (direct P S other) name w = srv_dynamic S name w"
  using read_reply_list [OF assms(1), of "fst (srv_list S name w)" "blank_sensor P"]
    read_reply_list [OF assms(1), of "fst (srv_dynamic S name w)" "blank_sensor P"] assms(2)
  by (simp_all add: lists_fit_def bp_getSensorList_def bp_getDynamicSensorList_def bp_list_def
      direct_list [OF assms(1)] case_prod_beta Let_def)

lemma bp_connect_direct:
  assumes "parcel_ok P"
  shows "bp_createSensorEventConnection P (direct P S other) name mode op_name w = srv_connect S name mode op_name w"
proof -
  have "unread P (put P (Strong c) (empty_parcel P)) = Strong c # []" for c
    by (simp add: parcel_okD(1,2) [OF assms])
  note reply = parcel_okD(9) [OF assms this]
  show ?thesis using reply by (simp add: bp_createSensorEventConnection_def direct_connect [OF assms])
qed

lemma bp_injection_direct:
  assumes "parcel_ok P"
  shows "bp_isDataInjectionEnabled P (direct P S other) w = srv_injection S w"
proof -
  have "unread P (put P (I32 n) (empty_parcel P)) = I32 n # []"
    "unread P (put P (Token descriptor) (empty_parcel P)) = Token descriptor # []" for n
    by (simp_all add: parcel_okD(1,2) [OF assms])
  note replies = parcel_okD(6) [OF assms this(1)] parcel_okD(3) [OF assms this(2)]
  show ?thesis using replies
    by (simp add: bp_isDataInjectionEnabled_def direct_def onTransact_def codes case_prod_beta Let_def)
qed

lemma bp_service_direct:
  assumes "parcel_ok P" and "lists_fit S"
  shows "bp_service P (direct P S other) = S"
  by (simp add: bp_service_def fun_eq_iff bp_lists_direct [OF assms] bp_connect_direct [OF assms(1)]
      bp_injection_direct [OF assms(1)])

section \<open>Properties\<close>

text \<open>
  C31: the interface is transparent. Over a transport that delivers, each of the four calls of the stub
  returns what the same call of the service returns and has the same effect on it, for lists of up
  to 2^32 - 1 sensors; over a transport that loses the request, the lists are empty, injection is
  reported as disabled, and the service is not touched.
\<close>

theorem binder_transparent:
  assumes "parcel_ok P" and "\<forall>name w. length (fst (srv_list S name w)) < 2 ^ 32
    \<and> length (fst (srv_dynamic S name w)) < 2 ^ 32"
  shows "bp_getSensorList P (direct P S other) name w = srv_list S name w
    \<and> bp_getDynamicSensorList P (direct P S other) name w = srv_dynamic S name w
    \<and> bp_createSensorEventConnection P (direct P S other) name mode op_name w = srv_connect S name mode op_name w
    \<and> bp_isDataInjectionEnabled P (direct P S other) w = srv_injection S w
    \<and> bp_getSensorList P (lost P) name w = ([], w)
    \<and> bp_isDataInjectionEnabled P (lost P) w = (0, w)"
proof -
  have fit: "lists_fit S" using assms(2) by (simp add: lists_fit_def)
  have lost: "bp_getSensorList P (lost P) name w = ([], w)" "bp_isDataInjectionEnabled P (lost P) w = (0, w)"
    using parcel_okD(10) [OF assms(1) parcel_okD(1) [OF assms(1)]]
    by (simp_all add: bp_getSensorList_def bp_list_def bp_isDataInjectionEnabled_def lost_def case_prod_beta)
  show ?thesis
    by (intro conjI lost bp_lists_direct [OF assms(1) fit] bp_connect_direct [OF assms(1)]
        bp_injection_direct [OF assms(1)])
qed

text \<open>Parcels as lists of items, and a service that counts its connections, for the witness.\<close>

definition list_parcel :: "((nat, nat) item list, nat, nat) parcel_api" where
  "list_parcel = \<lparr>empty_parcel = [], put = (\<lambda>x p. p @ [x]), unread = id,
     check_interface = (\<lambda>d p. case p of Token t # xs \<Rightarrow> (t = d, xs) | _ \<Rightarrow> (False, p)),
     readString16 = (\<lambda>p. case p of S16 v # xs \<Rightarrow> (v, xs) | _ \<Rightarrow> ([], p)),
     readString8 = (\<lambda>p. case p of S8 v # xs \<Rightarrow> (v, xs) | _ \<Rightarrow> ([], p)),
     readInt32 = (\<lambda>p. case p of I32 v # xs \<Rightarrow> (v, xs) | _ \<Rightarrow> (0, p)),
     readUint32 = (\<lambda>p. case p of U32 v # xs \<Rightarrow> (v, xs) | _ \<Rightarrow> (0, p)),
     readSensor = (\<lambda>b p. case p of Flat v # xs \<Rightarrow> (v, xs) | _ \<Rightarrow> (b, p)),
     readStrongBinder = (\<lambda>p. case p of Strong v # xs \<Rightarrow> (v, xs) | _ \<Rightarrow> (0, p)), blank_sensor = 0\<rparr>"

lemma list_parcel_ok: "parcel_ok list_parcel"
  by (simp add: parcel_ok_def list_parcel_def)

theorem binder_transparent_witness:
  "bp_getSensorList list_parcel (direct list_parcel
     \<lparr>srv_list = (\<lambda>_ w. ([5, 6], w)), srv_dynamic = (\<lambda>_ w. ([], w)), srv_connect = (\<lambda>_ _ _ w. (w, w + 1)),
      srv_injection = (\<lambda>w. (1, w))\<rparr> (\<lambda>_ _ r w. (0, r, w))) ''app'' (7 :: nat) = ([5, 6], 7)"
proof -
  let ?S = "\<lparr>srv_list = (\<lambda>_ w. ([5, 6], w)), srv_dynamic = (\<lambda>_ w. ([], w)), srv_connect = (\<lambda>_ _ _ w. (w, w + 1)),
      srv_injection = (\<lambda>w. (1, w))\<rparr> :: (nat, nat, nat) sensor_service"
  have "\<forall>name w. length (fst (srv_list ?S name w)) < 2 ^ 32 \<and> length (fst (srv_dynamic ?S name w)) < 2 ^ 32"
    by simp
  from binder_transparent [OF list_parcel_ok this, of "\<lambda>_ _ r w. (0, r, w)" "''app''" 7 0 "''''"] show ?thesis
    by simp
qed

end
