(* ===== verification/Sensor_Manager.thy ===== *)
theory Sensor_Manager
  imports Sensor_Server
begin

text \<open>
  The sensor manager of the camera and sensor shims, \<open>libshims/gui/SensorManager.cpp\<close>: its connection
  to the sensor service, the cached list of sensors, the requests of its clients and the table of the
  managers of the packages. The service manager and the service are parameters; the storage of the
  list that clients get a pointer to is explicit.
\<close>

section \<open>The environment\<close>

text \<open>
  \<open>'v\<close> are references to a sensor service. In one call of the manager, \<open>ping\<close> is the status of
  \<open>pingBinder\<close>, \<open>get_service i\<close> the answer to the \<open>i\<close>-th attempt of \<open>getService\<close>, a status and the
  reference it stores, and \<open>malloc_ok\<close> tells whether \<open>malloc\<close> finds memory. \<open>service\<close> is the interface
  behind a reference, \<open>getType\<close> and \<open>isWakeUpSensor\<close> read a sensor.
\<close>

record ('v, 'w, 's, 'c) binder_env =
  ping :: "'v \<Rightarrow> int"
  get_service :: "nat \<Rightarrow> int \<times> 'v option"
  malloc_ok :: bool
  service :: "'v \<Rightarrow> ('w, 's, 'c) sensor_service"

record 's sensor_class =
  getType :: "'s \<Rightarrow> int"
  isWakeUpSensor :: "'s \<Rightarrow> bool"

text \<open>The types of \<open>hardware/sensors.h\<close> whose default sensor wakes the device up.\<close>

record wake_types =
  TYPE_PROXIMITY :: int
  TYPE_SIGNIFICANT_MOTION :: int
  TYPE_TILT_DETECTOR :: int
  TYPE_WAKE_GESTURE :: int
  TYPE_GLANCE_GESTURE :: int
  TYPE_PICK_UP_GESTURE :: int
  TYPE_WRIST_TILT_GESTURE :: int

definition NAME_NOT_FOUND :: int where
  "NAME_NOT_FOUND = -2"

text \<open>
  \<open>getService\<close> stores a reference exactly when it reports no error, and otherwise reports
  \<open>NAME_NOT_FOUND\<close>.
\<close>

definition binder_env_ok :: "('v, 'w, 's, 'c) binder_env \<Rightarrow> bool" where
  "binder_env_ok E \<longleftrightarrow> (\<forall>i. (fst (get_service E i) = NO_ERROR \<longleftrightarrow> snd (get_service E i) \<noteq> None)
     \<and> (fst (get_service E i) = NO_ERROR \<or> fst (get_service E i) = NAME_NOT_FOUND))"

section \<open>State\<close>

text \<open>
  A pointer to a sensor names the storage of the vector it points into and an index. \<open>arrays\<close> holds
  the allocated arrays of pointers by their addresses; \<open>mSensors\<close> is the storage of the vector and
  its elements. A null pointer or reference is \<open>None\<close>.
\<close>

type_synonym sensor_ptr = "nat \<times> nat"

record ('v, 's) sensor_manager =
  mSensorServer :: "'v option"
  mSensorList :: "nat option"
  mSensors :: "nat \<times> 's list"
  mDeathObserver :: "'v option"
  mOpPackageName :: string
  arrays :: "nat \<Rightarrow> sensor_ptr list option"
  next_address :: nat

definition blank_manager :: "string \<Rightarrow> ('v, 's) sensor_manager" where
  "blank_manager opPackageName = \<lparr>mSensorServer = None, mSensorList = None, mSensors = (0, []),
     mDeathObserver = None, mOpPackageName = opPackageName, arrays = (\<lambda>_. None), next_address = 1\<rparr>"

text \<open>\<open>free (mSensorList)\<close>.\<close>

definition free_list :: "('v, 's) sensor_manager \<Rightarrow> c_fault + ('v, 's) sensor_manager" where
  "free_list m = (case mSensorList m of
       None \<Rightarrow> Inr m
     | Some a \<Rightarrow> if arrays m a = None then Inl BadAddress
                 else Inr (m\<lparr>arrays := (arrays m)(a := None)\<rparr>))"

definition sensorManagerDied :: "('v, 's) sensor_manager \<Rightarrow> c_fault + ('v, 's) sensor_manager" where
  "sensorManagerDied m = (case free_list (m\<lparr>mSensorServer := None\<rparr>) of
       Inl e \<Rightarrow> Inl e
     | Inr m \<Rightarrow> Inr (m\<lparr>mSensorList := None, mSensors := (fst (mSensors m), [])\<rparr>))"

section \<open>Connecting\<close>

text \<open>
  The loop over \<open>getService\<close>: \<open>n\<close> attempts are left, \<open>i\<close> were made, each followed by a second of sleep.
  The result is the status of an early return, the stored reference and the seconds slept.
\<close>

fun find_service :: "(nat \<Rightarrow> int \<times> 'v option) \<Rightarrow> nat \<Rightarrow> nat \<Rightarrow> 'v option \<Rightarrow> int option \<times> 'v option \<times> nat" where
  "find_service g 0 i server = (None, server, i)"
| "find_service g (Suc n) i server =
     (let (err, server) = g i
      in if err = NAME_NOT_FOUND then find_service g n (Suc i) server
         else if err \<noteq> NO_ERROR then (Some err, server, i)
         else (None, server, i))"

text \<open>Storing the list: the vector gets new storage, and \<open>mSensorList\<close> a new array of pointers into it.\<close>

definition store_list :: "'s list \<Rightarrow> ('v, 's) sensor_manager \<Rightarrow> ('v, 's) sensor_manager" where
  "store_list sensors m =
     (let a = next_address m
      in m\<lparr>mSensors := (a, sensors), mSensorList := Some a,
           arrays := (arrays m)(a \<mapsto> map (\<lambda>i. (a, i)) [0..<length sensors]), next_address := Suc a\<rparr>)"

definition assertStateLocked :: "('v, 'w, 's, 'c) binder_env \<Rightarrow> ('v, 's) sensor_manager \<Rightarrow> 'w
    \<Rightarrow> c_fault + int \<times> ('v, 's) sensor_manager \<times> 'w" where
  "assertStateLocked E m w =
     (let initSensorManager = (case mSensorServer m of None \<Rightarrow> True | Some v \<Rightarrow> ping E v \<noteq> NO_ERROR)
      in if \<not> initSensorManager then Inr (NO_ERROR, m, w)
         else let (early, server, _) = find_service (get_service E) 60 0 (mSensorServer m);
                  m = m\<lparr>mSensorServer := server\<rparr>
              in case early of Some err \<Rightarrow> Inr (err, m, w)
                 | None \<Rightarrow> (case server of None \<Rightarrow> Inl Abort
                    | Some v \<Rightarrow>
                        let m = m\<lparr>mDeathObserver := Some v\<rparr>;
                            (sensors, w) = srv_list (service E v) (mOpPackageName m) w
                        in if \<not> malloc_ok E then Inl Abort
                           else Inr (NO_ERROR, store_list sensors m, w)))"

text \<open>The two constructors; the status of the connection is ignored.\<close>

definition new_manager :: "('v, 'w, 's, 'c) binder_env \<Rightarrow> string \<Rightarrow> 'w \<Rightarrow> c_fault + ('v, 's) sensor_manager \<times> 'w" where
  "new_manager E opPackageName w = (case assertStateLocked E (blank_manager opPackageName) w of
       Inl e \<Rightarrow> Inl e
     | Inr (_, m, w) \<Rightarrow> Inr (m, w))"

definition new_manager_compat :: "('v, 'w, 's, 'c) binder_env \<Rightarrow> 'w \<Rightarrow> c_fault + ('v, 's) sensor_manager \<times> 'w" where
  "new_manager_compat E w = new_manager E '''' w"

section \<open>Requests\<close>

text \<open>What a request gives its client. \<open>G_List n list\<close> is the returned number and the pointer stored through \<open>list\<close>.\<close>

datatype ('s, 'c) grant =
    G_List int "nat option"
  | G_Dynamic int "'s list"
  | G_Sensor "sensor_ptr option"
  | G_Queue "'c option"
  | G_Bool bool
  | G_Nothing

text \<open>On an error, \<open>*list\<close> keeps the value \<open>old\<close> it had.\<close>

definition manager_getSensorList :: "('v, 'w, 's, 'c) binder_env \<Rightarrow> nat option \<Rightarrow> ('v, 's) sensor_manager \<Rightarrow> 'w
    \<Rightarrow> c_fault + ('s, 'c) grant \<times> ('v, 's) sensor_manager \<times> 'w" where
  "manager_getSensorList E old m w = (case assertStateLocked E m w of
       Inl e \<Rightarrow> Inl e
     | Inr (err, m, w) \<Rightarrow>
         if err < 0 then Inr (G_List err old, m, w)
         else Inr (G_List (int (length (snd (mSensors m)))) (mSensorList m), m, w))"

text \<open>The mangled name of the constant variant, for Marshmallow blobs, goes to the one above.\<close>

definition getSensorList_const :: "('v, 'w, 's, 'c) binder_env \<Rightarrow> nat option \<Rightarrow> ('v, 's) sensor_manager \<Rightarrow> 'w
    \<Rightarrow> c_fault + ('s, 'c) grant \<times> ('v, 's) sensor_manager \<times> 'w" where
  "getSensorList_const E old m w = manager_getSensorList E old m w"

text \<open>Where the code calls through \<open>mSensorServer\<close>, a null reference is a fault.\<close>

definition call_server :: "('v, 's) sensor_manager \<Rightarrow> ('v \<Rightarrow> 'a) \<Rightarrow> c_fault + 'a" where
  "call_server m f = (case mSensorServer m of None \<Rightarrow> Inl NullDeref | Some v \<Rightarrow> Inr (f v))"

definition manager_getDynamicSensorList :: "('v, 'w, 's, 'c) binder_env \<Rightarrow> 's list \<Rightarrow> ('v, 's) sensor_manager \<Rightarrow> 'w
    \<Rightarrow> c_fault + ('s, 'c) grant \<times> ('v, 's) sensor_manager \<times> 'w" where
  "manager_getDynamicSensorList E old m w = (case assertStateLocked E m w of
       Inl e \<Rightarrow> Inl e
     | Inr (err, m, w) \<Rightarrow>
         if err < 0 then Inr (G_Dynamic err old, m, w)
         else (case call_server m (\<lambda>v. srv_dynamic (service E v) (mOpPackageName m) w) of
             Inl e \<Rightarrow> Inl e
           | Inr (sensors, w) \<Rightarrow> Inr (G_Dynamic (int (length sensors)) sensors, m, w)))"

definition wakes_up :: "wake_types \<Rightarrow> int \<Rightarrow> bool" where
  "wakes_up T t \<longleftrightarrow> t = TYPE_PROXIMITY T \<or> t = TYPE_SIGNIFICANT_MOTION T \<or> t = TYPE_TILT_DETECTOR T
     \<or> t = TYPE_WAKE_GESTURE T \<or> t = TYPE_GLANCE_GESTURE T \<or> t = TYPE_PICK_UP_GESTURE T
     \<or> t = TYPE_WRIST_TILT_GESTURE T"

text \<open>\<open>mSensorList[i]\<close> and the sensor behind a pointer.\<close>

definition list_at :: "('v, 's) sensor_manager \<Rightarrow> nat \<Rightarrow> c_fault + sensor_ptr" where
  "list_at m i = (case mSensorList m of None \<Rightarrow> Inl NullDeref
     | Some a \<Rightarrow> (case arrays m a of None \<Rightarrow> Inl BadAddress
         | Some ps \<Rightarrow> if i < length ps then Inr (ps ! i) else Inl OutOfBounds))"

definition sensor_at :: "('v, 's) sensor_manager \<Rightarrow> sensor_ptr \<Rightarrow> c_fault + 's" where
  "sensor_at m p = (if fst p = fst (mSensors m) \<and> snd p < length (snd (mSensors m))
     then Inr (snd (mSensors m) ! snd p) else Inl BadAddress)"

text \<open>The search from index \<open>i\<close>, with \<open>n\<close> sensors left.\<close>

fun find_default :: "'s sensor_class \<Rightarrow> ('v, 's) sensor_manager \<Rightarrow> int \<Rightarrow> bool \<Rightarrow> nat \<Rightarrow> nat \<Rightarrow> c_fault + sensor_ptr option" where
  "find_default C m t wake i 0 = Inr None"
| "find_default C m t wake i (Suc n) = (case list_at m i of Inl e \<Rightarrow> Inl e
     | Inr p \<Rightarrow> (case sensor_at m p of Inl e \<Rightarrow> Inl e
         | Inr s \<Rightarrow> if getType C s = t \<and> isWakeUpSensor C s = wake then Inr (Some p)
                    else find_default C m t wake (Suc i) n))"

definition getDefaultSensor :: "'s sensor_class \<Rightarrow> wake_types \<Rightarrow> ('v, 'w, 's, 'c) binder_env \<Rightarrow> int
    \<Rightarrow> ('v, 's) sensor_manager \<Rightarrow> 'w \<Rightarrow> c_fault + ('s, 'c) grant \<times> ('v, 's) sensor_manager \<times> 'w" where
  "getDefaultSensor C T E t m w = (case assertStateLocked E m w of
       Inl e \<Rightarrow> Inl e
     | Inr (err, m, w) \<Rightarrow>
         if err = NO_ERROR
         then (case find_default C m t (wakes_up T t) 0 (length (snd (mSensors m))) of
             Inl e \<Rightarrow> Inl e
           | Inr p \<Rightarrow> Inr (G_Sensor p, m, w))
         else Inr (G_Sensor None, m, w))"

text \<open>
  The loop of \<open>createEventQueue\<close> ends in its first round. \<open>is_null\<close> tells a null connection; the queue
  of the result is built around the connection.
\<close>

definition createEventQueue :: "('c \<Rightarrow> bool) \<Rightarrow> ('v, 'w, 's, 'c) binder_env \<Rightarrow> string \<Rightarrow> int
    \<Rightarrow> ('v, 's) sensor_manager \<Rightarrow> 'w \<Rightarrow> c_fault + ('s, 'c) grant \<times> ('v, 's) sensor_manager \<times> 'w" where
  "createEventQueue is_null E packageName mode m w = (case assertStateLocked E m w of
       Inl e \<Rightarrow> Inl e
     | Inr (err, m, w) \<Rightarrow>
         if err = NO_ERROR
         then (case call_server m (\<lambda>v. srv_connect (service E v) packageName mode (mOpPackageName m) w) of
             Inl e \<Rightarrow> Inl e
           | Inr (connection, w) \<Rightarrow>
               if is_null connection then Inr (G_Queue None, m, w)
               else Inr (G_Queue (Some connection), m, w))
         else Inr (G_Queue None, m, w))"

definition createEventQueue_compat :: "('c \<Rightarrow> bool) \<Rightarrow> ('v, 'w, 's, 'c) binder_env
    \<Rightarrow> ('v, 's) sensor_manager \<Rightarrow> 'w \<Rightarrow> c_fault + ('s, 'c) grant \<times> ('v, 's) sensor_manager \<times> 'w" where
  "createEventQueue_compat is_null E m w = createEventQueue is_null E '''' 0 m w"

definition isDataInjectionEnabled :: "('v, 'w, 's, 'c) binder_env \<Rightarrow> ('v, 's) sensor_manager \<Rightarrow> 'w
    \<Rightarrow> c_fault + ('s, 'c) grant \<times> ('v, 's) sensor_manager \<times> 'w" where
  "isDataInjectionEnabled E m w = (case assertStateLocked E m w of
       Inl e \<Rightarrow> Inl e
     | Inr (err, m, w) \<Rightarrow>
         if err = NO_ERROR
         then (case call_server m (\<lambda>v. srv_injection (service E v) w) of
             Inl e \<Rightarrow> Inl e
           | Inr (b, w) \<Rightarrow> Inr (G_Bool (b \<noteq> 0), m, w))
         else Inr (G_Bool False, m, w))"

text \<open>
  The requests as data; \<open>M_Died\<close> is the call of the death observer. Each holds \<open>mLock\<close> from beginning
  to end, so a run is a sequence of whole requests, each with its own environment.
\<close>

datatype 's client_request =
    M_List "nat option"
  | M_Dynamic "'s list"
  | M_Default int
  | M_Queue string int
  | M_Injection
  | M_Died

fun manager_request :: "'s sensor_class \<Rightarrow> wake_types \<Rightarrow> ('c \<Rightarrow> bool) \<Rightarrow> ('v, 'w, 's, 'c) binder_env \<Rightarrow> 's client_request
    \<Rightarrow> ('v, 's) sensor_manager \<Rightarrow> 'w \<Rightarrow> c_fault + ('s, 'c) grant \<times> ('v, 's) sensor_manager \<times> 'w" where
  "manager_request C T nul E (M_List old) m w = manager_getSensorList E old m w"
| "manager_request C T nul E (M_Dynamic old) m w = manager_getDynamicSensorList E old m w"
| "manager_request C T nul E (M_Default t) m w = getDefaultSensor C T E t m w"
| "manager_request C T nul E (M_Queue p mode) m w = createEventQueue nul E p mode m w"
| "manager_request C T nul E M_Injection m w = isDataInjectionEnabled E m w"
| "manager_request C T nul E M_Died m w =
     (case sensorManagerDied m of Inl e \<Rightarrow> Inl e | Inr m \<Rightarrow> Inr (G_Nothing, m, w))"

definition manager_run :: "'s sensor_class \<Rightarrow> wake_types \<Rightarrow> ('c \<Rightarrow> bool) \<Rightarrow> (('v, 'w, 's, 'c) binder_env \<times> 's client_request) list
    \<Rightarrow> ('v, 's) sensor_manager \<Rightarrow> 'w \<Rightarrow> c_fault + ('s, 'c) grant list \<times> ('v, 's) sensor_manager \<times> 'w" where
  "manager_run C T nul rs m w = serve_all (\<lambda>(E, r) (m, w). manager_request C T nul E r m w) rs (m, w)"

text \<open>The destructor.\<close>

definition delete_manager :: "('v, 's) sensor_manager \<Rightarrow> c_fault + ('v, 's) sensor_manager" where
  "delete_manager m = free_list m"

section \<open>The connection\<close>

text \<open>
  The invariant: without a list there are no sensors, and the list is the array of the pointers to
  all elements of the vector. Addresses are fresh.
\<close>

definition manager_inv :: "('v, 's) sensor_manager \<Rightarrow> bool" where
  "manager_inv m \<longleftrightarrow> (case mSensorList m of
       None \<Rightarrow> snd (mSensors m) = []
     | Some a \<Rightarrow> arrays m a = Some (map (\<lambda>i. (fst (mSensors m), i)) [0..<length (snd (mSensors m))]))
     \<and> (\<forall>a. arrays m a \<noteq> None \<longrightarrow> a < next_address m)"

lemma manager_inv_blank: "manager_inv (blank_manager p)"
  by (simp add: manager_inv_def blank_manager_def)

lemma manager_inv_store: "manager_inv m \<Longrightarrow> manager_inv (store_list sensors m)"
  by (auto simp: manager_inv_def store_list_def Let_def less_Suc_eq split: option.splits)

lemma manager_inv_cong [simp]:
  "manager_inv (m\<lparr>mSensorServer := v\<rparr>) = manager_inv m"
  "manager_inv (m\<lparr>mDeathObserver := v\<rparr>) = manager_inv m"
  by (simp_all add: manager_inv_def split: option.split)

lemma store_list_simps [simp]:
  "mSensorServer (store_list sensors m) = mSensorServer m"
  "mSensors (store_list sensors m) = (next_address m, sensors)"
  "mSensorList (store_list sensors m) = Some (next_address m)"
  "mOpPackageName (store_list sensors m) = mOpPackageName m"
  by (simp_all add: store_list_def Let_def)

lemma find_service_found:
  assumes "\<forall>j. (fst (g j) = NO_ERROR \<longleftrightarrow> snd (g j) \<noteq> None)
    \<and> (fst (g j) = NO_ERROR \<or> fst (g j) = NAME_NOT_FOUND)"
    and "find_service g n i server = (early, v, t)"
  shows "early = None \<and> t \<le> i + n
    \<and> (n \<noteq> 0 \<longrightarrow> (v \<noteq> None \<longleftrightarrow> (\<exists>j. i \<le> j \<and> j < i + n \<and> snd (g j) \<noteq> None)))"
  using assms
proof (induction g n i server rule: find_service.induct)
  case (1 g i server)
  then show ?case by simp
next
  case (2 g n i server)
  obtain err s where g: "g i = (err, s)" by fastforce
  have "(err = NO_ERROR \<longleftrightarrow> s \<noteq> None) \<and> (err = NO_ERROR \<or> err = NAME_NOT_FOUND)"
    using 2(2) [rule_format, of i] unfolding g fst_conv snd_conv .
  then have first: "err = NO_ERROR \<longleftrightarrow> s \<noteq> None" "err = NO_ERROR \<or> err = NAME_NOT_FOUND"
    by blast+
  show ?case
  proof (cases "err = NAME_NOT_FOUND")
    case False
    then have "err = NO_ERROR" using first(2) by simp
    then have "early = None" "t = i" "v = s" "s \<noteq> None"
      using 2(3) g False first(1) by simp_all
    moreover from this have "\<exists>j. i \<le> j \<and> j < i + Suc n \<and> snd (g j) \<noteq> None" using g by (intro exI [of _ i]) simp
    ultimately show ?thesis using g by simp
  next
    case True
    then have s: "s = None" using first by (simp add: NO_ERROR_def NAME_NOT_FOUND_def)
    have rest: "find_service g n (Suc i) s = (early, v, t)" using 2(3) g True by simp
    from 2(1) [OF g [symmetric] refl True 2(2) rest]
    have IH: "early = None \<and> t \<le> Suc i + n
      \<and> (n \<noteq> 0 \<longrightarrow> (v \<noteq> None \<longleftrightarrow> (\<exists>j. Suc i \<le> j \<and> j < Suc i + n \<and> snd (g j) \<noteq> None)))" .
    have shift: "(\<exists>j. i \<le> j \<and> j < i + Suc n \<and> snd (g j) \<noteq> None)
        \<longleftrightarrow> (\<exists>j. Suc i \<le> j \<and> j < Suc i + n \<and> snd (g j) \<noteq> None)"
    proof (rule ex_cong1)
      fix j
      have "snd (g j) \<noteq> None \<Longrightarrow> j \<noteq> i" using g s by auto
      then show "i \<le> j \<and> j < i + Suc n \<and> snd (g j) \<noteq> None
        \<longleftrightarrow> Suc i \<le> j \<and> j < Suc i + n \<and> snd (g j) \<noteq> None" by linarith
    qed
    have "n = 0 \<Longrightarrow> v = None" using rest s by simp
    moreover have "n = 0 \<Longrightarrow> \<not> (\<exists>j. Suc i \<le> j \<and> j < Suc i + n \<and> snd (g j) \<noteq> None)" by simp
    ultimately have "v \<noteq> None \<longleftrightarrow> (\<exists>j. Suc i \<le> j \<and> j < Suc i + n \<and> snd (g j) \<noteq> None)"
      using IH by blast
    then show ?thesis using IH unfolding shift by simp
  qed
qed

lemma find_service_early: "find_service g n i server = (Some err, v, t) \<Longrightarrow> err \<noteq> NO_ERROR"
proof (induction g n i server rule: find_service.induct)
  case (1 g i server)
  then show ?case by simp
next
  case (2 g n i server)
  obtain e s where g: "g i = (e, s)" by fastforce
  with 2(1) [OF g [symmetric] refl] 2(2) show ?case by (simp split: if_splits)
qed

lemma assertStateLocked_keeps:
  assumes "manager_inv m" and "assertStateLocked E m w = Inr (err, m', w')"
  shows "manager_inv m' \<and> mOpPackageName m' = mOpPackageName m \<and> (err = NO_ERROR \<longrightarrow> mSensorServer m' \<noteq> None)"
  using assms
  by (auto simp: assertStateLocked_def Let_def intro!: manager_inv_store dest: find_service_early split: if_splits option.splits prod.splits)

lemma find_service_60:
  assumes "binder_env_ok E" and "find_service (get_service E) 60 0 server = (early, v, t)"
  shows "early = None \<and> ((\<exists>i < 60. snd (get_service E i) \<noteq> None) \<longleftrightarrow> v \<noteq> None) \<and> t \<le> 60"
proof -
  from find_service_found [OF _ assms(2)] assms(1)
  have "early = None \<and> t \<le> 0 + 60
    \<and> (60 \<noteq> (0 :: nat) \<longrightarrow> (v \<noteq> None \<longleftrightarrow> (\<exists>j. 0 \<le> j \<and> j < 0 + 60 \<and> snd (get_service E j) \<noteq> None)))"
    unfolding binder_env_ok_def by blast
  then show ?thesis by simp
qed

text \<open>With a contract-abiding service manager the only status is \<open>NO_ERROR\<close>; the alternative is to abort.\<close>

lemma assertStateLocked_status:
  assumes "binder_env_ok E" and "assertStateLocked E m w = Inr (err, m', w')"
  shows "err = NO_ERROR"
  using assms find_service_60 [OF assms(1)]
  by (auto simp: assertStateLocked_def Let_def split: if_splits option.splits prod.splits)

definition no_service :: "('v, 'w, 's, 'c) binder_env \<Rightarrow> bool" where
  "no_service E \<longleftrightarrow> \<not> malloc_ok E \<or> (\<forall>i < 60. snd (get_service E i) = None)"

lemma assertStateLocked_fault:
  assumes "binder_env_ok E" and "assertStateLocked E m w = Inl e"
  shows "e = Abort \<and> no_service E"
  using assms find_service_60 [OF assms(1)]
  by (fastforce simp: assertStateLocked_def no_service_def Let_def split: if_splits option.splits prod.splits)

text \<open>A live connection is left alone, a dead or missing one replaced by the first service that is found.\<close>

lemma assertStateLocked_alive:
  "mSensorServer m = Some v \<Longrightarrow> ping E v = NO_ERROR \<Longrightarrow> assertStateLocked E m w = Inr (NO_ERROR, m, w)"
  by (simp add: assertStateLocked_def)

lemma find_service_first:
  assumes "\<forall>j < k. fst (g (i + j)) = NAME_NOT_FOUND" and "g (i + k) = (NO_ERROR, Some v)" and "k < n"
  shows "find_service g n i server = (None, Some v, i + k)"
  using assms
proof (induction k arbitrary: i n server)
  case 0
  then show ?case by (cases n) (simp_all add: NO_ERROR_def NAME_NOT_FOUND_def)
next
  case (Suc k)
  then obtain n' where n: "n = Suc n'" by (cases n) auto
  obtain s where g: "g i = (NAME_NOT_FOUND, s)" using Suc.prems(1) by (metis add_0_right prod.collapse zero_less_Suc)
  have "\<forall>j < k. fst (g (Suc i + j)) = NAME_NOT_FOUND" using Suc.prems(1) by (metis Suc_less_eq add_Suc_shift)
  from Suc.IH [OF this, of n' s] Suc.prems(2,3) g n show ?case by simp
qed

section \<open>The requests\<close>

text \<open>Under the invariant, every entry of the list is a pointer to its sensor.\<close>

lemma list_readable:
  assumes "manager_inv m" and "i < length (snd (mSensors m))"
  shows "list_at m i = Inr (fst (mSensors m), i)"
    and "sensor_at m (fst (mSensors m), i) = Inr (snd (mSensors m) ! i)"
  using assms by (auto simp: manager_inv_def list_at_def sensor_at_def split: option.splits)

lemma find_default_find:
  assumes "manager_inv m" and "i + n = length (snd (mSensors m))"
  shows "\<exists>r. find_default C m t wake i n = Inr r
    \<and> map_option (\<lambda>p. projr (sensor_at m p)) r
        = List.find (\<lambda>s. getType C s = t \<and> isWakeUpSensor C s = wake) (drop i (snd (mSensors m)))
    \<and> (\<forall>p. r = Some p \<longrightarrow> (\<exists>s. sensor_at m p = Inr s))"
  using assms(2)
proof (induction n arbitrary: i)
  case 0
  then show ?case by simp
next
  case (Suc n)
  then have i: "i < length (snd (mSensors m))" by simp
  note read = list_readable [OF assms(1) i] and rest = Suc.IH [of "Suc i"] Suc.prems
  show ?case
    using read rest by (auto simp: Cons_nth_drop_Suc [OF i, symmetric])
qed

lemma sensorManagerDied_ok:
  assumes "manager_inv m"
  shows "\<exists>m'. sensorManagerDied m = Inr m' \<and> manager_inv m' \<and> mOpPackageName m' = mOpPackageName m"
  using assms
  by (auto simp: sensorManagerDied_def free_list_def manager_inv_def split: option.splits)

lemmas request_defs = manager_getSensorList_def manager_getDynamicSensorList_def getDefaultSensor_def
  createEventQueue_def isDataInjectionEnabled_def call_server_def

lemma manager_request_inv:
  assumes "manager_inv m" and "manager_request C T nul E r m w = Inr (g, m', w')"
  shows "manager_inv m' \<and> mOpPackageName m' = mOpPackageName m"
proof (cases "r = M_Died")
  case True
  with assms sensorManagerDied_ok [OF assms(1)] show ?thesis by auto
next
  case False
  with assms(2) obtain err w1 where "assertStateLocked E m w = Inr (err, m', w1)"
    by (cases r) (auto simp: request_defs split: sum.splits if_splits option.splits prod.splits)
  from assertStateLocked_keeps [OF assms(1) this] show ?thesis by simp
qed

lemma manager_request_fault:
  assumes "binder_env_ok E" and "manager_inv m" and "manager_request C T nul E r m w = Inl e"
  shows "e = Abort \<and> no_service E"
proof (cases "assertStateLocked E m w")
  case (Inl e')
  with assms(3) sensorManagerDied_ok [OF assms(2)] assertStateLocked_fault [OF assms(1) Inl]
  show ?thesis by (cases r) (auto simp: request_defs)
next
  case (Inr b)
  obtain err m1 w1 where b: "b = (err, m1, w1)" by (cases b)
  note ok = Inr [unfolded b]
  obtain v where "mSensorServer m1 = Some v" "err = NO_ERROR" "manager_inv m1"
    using assertStateLocked_keeps [OF assms(2) ok] assertStateLocked_status [OF assms(1) ok] by auto
  moreover from this obtain pick
    where "\<And>t wake. find_default C m1 t wake 0 (length (snd (mSensors m1))) = Inr (pick t wake)"
    using find_default_find [of m1 0 "length (snd (mSensors m1))" C] by (metis add_0)
  ultimately have "\<exists>g m' w'. manager_request C T nul E r m w = Inr (g, m', w')"
    using ok sensorManagerDied_ok [OF assms(2)]
    by (cases r) (auto simp: request_defs NO_ERROR_def split: prod.splits)
  with assms(3) have False by auto
  then show ?thesis ..
qed

interpretation manager: request_server "\<lambda>(m, w). manager_inv m" "\<lambda>(E, r). binder_env_ok E"
    "\<lambda>(E, r) e. e = Abort \<and> no_service E" "\<lambda>(E, r) (m, w). manager_request C T nul E r m w"
  for C :: "'s sensor_class" and T nul
  by unfold_locales (auto dest: manager_request_inv manager_request_fault)

lemma new_manager_inv: "new_manager E p w = Inr (m, w') \<Longrightarrow> manager_inv m \<and> mOpPackageName m = p"
  by (auto simp: new_manager_def split: sum.splits dest!: assertStateLocked_keeps [OF manager_inv_blank])
    (simp_all add: blank_manager_def)

section \<open>The managers of the packages\<close>

text \<open>
  \<open>sPackageInstances\<close> and the managers it points to, by index. \<open>packages\<close> is the answer of the
  permission service for the calling uid, \<open>None\<close> when there is no such service.
\<close>

record ('v, 's) manager_table =
  sPackageInstances :: "string \<rightharpoonup> nat"
  managers :: "('v, 's) sensor_manager list"

text \<open>\<open>std::map::insert\<close> keeps an entry that is there.\<close>

definition insert_new :: "'a \<Rightarrow> 'b \<Rightarrow> ('a \<rightharpoonup> 'b) \<Rightarrow> 'a \<rightharpoonup> 'b" where
  "insert_new k v f = (case f k of None \<Rightarrow> f(k \<mapsto> v) | Some _ \<Rightarrow> f)"

definition op_package_name :: "string list option \<Rightarrow> string \<Rightarrow> string" where
  "op_package_name packages packageName =
     (if packageName = [] then (case packages of None \<Rightarrow> packageName
        | Some ps \<Rightarrow> if ps = [] then packageName else hd ps)
      else packageName)"

definition getInstanceForPackage :: "('v, 'w, 's, 'c) binder_env \<Rightarrow> string list option \<Rightarrow> string
    \<Rightarrow> ('v, 's) manager_table \<Rightarrow> 'w \<Rightarrow> c_fault + nat \<times> ('v, 's) manager_table \<times> 'w" where
  "getInstanceForPackage E packages packageName st w =
     (case sPackageInstances st packageName of
        Some r \<Rightarrow> Inr (r, st, w)
      | None \<Rightarrow>
          let opPackageName = op_package_name packages packageName
          in (case new_manager E opPackageName w of
                Inl e \<Rightarrow> Inl e
              | Inr (m, w) \<Rightarrow>
                  let r = length (managers st);
                      f = sPackageInstances st;
                      f = (if packageName = [] then insert_new [] r f else f);
                      f = insert_new opPackageName r f
                  in Inr (r, \<lparr>sPackageInstances = f, managers = managers st @ [m]\<rparr>, w)))"

definition getInstance :: "('v, 'w, 's, 'c) binder_env \<Rightarrow> string list option
    \<Rightarrow> ('v, 's) manager_table \<Rightarrow> 'w \<Rightarrow> c_fault + nat \<times> ('v, 's) manager_table \<times> 'w" where
  "getInstance E packages st w = getInstanceForPackage E packages ''MtkCam/SensorListener'' st w"

definition no_managers :: "('v, 's) manager_table" where
  "no_managers = \<lparr>sPackageInstances = Map.empty, managers = []\<rparr>"

text \<open>Every entry names a manager; it acts for the package it is entered under, unless the name is empty.\<close>

definition table_inv :: "('v, 's) manager_table \<Rightarrow> bool" where
  "table_inv st \<longleftrightarrow> (\<forall>p r. sPackageInstances st p = Some r \<longrightarrow> r < length (managers st)
     \<and> (p \<noteq> [] \<longrightarrow> mOpPackageName (managers st ! r) = p)) \<and> (\<forall>m \<in> set (managers st). manager_inv m)"

lemma table_inv_no_managers: "table_inv no_managers"
  by (simp add: table_inv_def no_managers_def)

lemma insert_new_Some: "insert_new k v f p = (if f p = None \<and> p = k then Some v else f p)"
  by (auto simp: insert_new_def split: option.split)

lemma getInstance_cached:
  "sPackageInstances st p = Some r \<Longrightarrow> getInstanceForPackage E packages p st w = Inr (r, st, w)"
  by (simp add: getInstanceForPackage_def)

lemma getInstance_new:
  assumes "table_inv st" and "getInstanceForPackage E packages p st w = Inr (r, st', w')"
  shows "table_inv st' \<and> sPackageInstances st \<subseteq>\<^sub>m sPackageInstances st' \<and> sPackageInstances st' p = Some r
    \<and> take (length (managers st)) (managers st') = managers st"
proof (cases "sPackageInstances st p")
  case (Some r')
  with assms show ?thesis by (simp add: getInstance_cached)
next
  case None
  let ?n = "op_package_name packages p"
  from assms(2) None obtain m where m: "new_manager E ?n w = Inr (m, w')" and r: "r = length (managers st)"
    and st': "st' = \<lparr>sPackageInstances = insert_new ?n r
         (if p = [] then insert_new [] r (sPackageInstances st) else sPackageInstances st),
       managers = managers st @ [m]\<rparr>"
    by (auto simp: getInstanceForPackage_def Let_def split: sum.splits)
  have n: "p \<noteq> [] \<Longrightarrow> ?n = p" by (simp add: op_package_name_def)
  have "table_inv st'"
    using assms(1) new_manager_inv [OF m] n
    by (fastforce simp: table_inv_def st' r insert_new_Some nth_append split: if_splits)
  moreover have "sPackageInstances st \<subseteq>\<^sub>m sPackageInstances st'"
    by (auto simp: map_le_def st' insert_new_Some)
  moreover have "sPackageInstances st' p = Some r"
    using None n by (auto simp: st' insert_new_Some)
  ultimately show ?thesis by (simp add: st')
qed

section \<open>Properties\<close>

text \<open>
  C34: the manager and its clients. After any sequence of requests and deaths of the service, each with its
  own environment, the list a client gets a pointer to names every sensor of the manager and nothing
  else, so no request reads memory that is not its own. A request fails only by aborting, and it aborts
  only when 60 attempts found no service or there is no memory.
\<close>

theorem manager_requests_safe:
  assumes "new_manager E0 name w0 = Inr (m, w)" and "\<forall>(E, r) \<in> set rs. binder_env_ok E"
  shows "(case manager_run C T nul rs m w of
      Inl e \<Rightarrow> e = Abort \<and> (\<exists>(E, r) \<in> set rs. \<not> malloc_ok E \<or> (\<forall>i < 60. snd (get_service E i) = None))
    | Inr (gs, m', w') \<Rightarrow> length gs = length rs
        \<and> (\<forall>i < length (snd (mSensors m')). \<exists>p. list_at m' i = Inr p \<and> sensor_at m' p = Inr (snd (mSensors m') ! i))
        \<and> (\<forall>a ps. mSensorList m' = Some a \<longrightarrow> arrays m' a = Some ps \<longrightarrow> length ps = length (snd (mSensors m')))
        \<and> (\<exists>m''. delete_manager m' = Inr m''))"
proof (cases "manager_run C T nul rs m w")
  case (Inl e)
  from manager.serve_all_fault [OF assms(2) _ Inl [unfolded manager_run_def]] Inl new_manager_inv [OF assms(1)]
  show ?thesis by (auto simp: no_service_def)
next
  case (Inr b)
  obtain gs m' w' where b: "b = (gs, m', w')" by (cases b)
  from manager.serve_all_inv [OF assms(2) _ Inr [unfolded manager_run_def b]] new_manager_inv [OF assms(1)]
  have inv: "manager_inv m'" and len: "length gs = length rs" by simp_all
  from inv have "\<exists>m''. delete_manager m' = Inr m''"
    by (auto simp: delete_manager_def free_list_def manager_inv_def split: option.splits)
  with Inr b len inv list_readable [OF inv] show ?thesis
    by (auto simp: manager_inv_def split: option.splits)
qed

text \<open>A service with two sensors, each its own type, and an environment in which it is found, for the witnesses.\<close>

definition two_sensors :: "(nat, int, nat) sensor_service" where
  "two_sensors = \<lparr>srv_list = (\<lambda>_ w. ([5, 8], w)), srv_dynamic = (\<lambda>_ w. ([], w)),
     srv_connect = (\<lambda>_ _ _ w. (1, Suc w)), srv_injection = (\<lambda>w. (0, w))\<rparr>"

definition android_types :: wake_types where
  "android_types = \<lparr>TYPE_PROXIMITY = 8, TYPE_SIGNIFICANT_MOTION = 17, TYPE_TILT_DETECTOR = 22,
     TYPE_WAKE_GESTURE = 23, TYPE_GLANCE_GESTURE = 24, TYPE_PICK_UP_GESTURE = 25, TYPE_WRIST_TILT_GESTURE = 26\<rparr>"

definition plain_class :: "int sensor_class" where
  "plain_class = \<lparr>getType = id, isWakeUpSensor = (\<lambda>s. s = 8)\<rparr>"

text \<open>The service is found at the second attempt; \<open>alive\<close> tells whether a reference still answers.\<close>

definition second_try :: "bool \<Rightarrow> (unit, nat, int, nat) binder_env" where
  "second_try alive = \<lparr>ping = (\<lambda>_. if alive then NO_ERROR else -32),
     get_service = (\<lambda>i. if i = 0 then (NAME_NOT_FOUND, None) else (NO_ERROR, Some ())),
     malloc_ok = True, service = (\<lambda>_. two_sensors)\<rparr>"

lemma second_try_ok: "binder_env_ok (second_try alive)"
  by (simp add: binder_env_ok_def second_try_def NO_ERROR_def NAME_NOT_FOUND_def)

lemma find_service_second_try: "find_service (get_service (second_try alive)) 60 0 s = (None, Some (), 1)"
  using find_service_first [of 1 "get_service (second_try alive)" 0 "()" 60 s] by (simp add: second_try_def)

lemmas manager_eval = new_manager_def assertStateLocked_def Let_def find_service_second_try second_try_def
  two_sensors_def store_list_def blank_manager_def NO_ERROR_def

definition m0 :: "(unit, int) sensor_manager" where
  "m0 = \<lparr>mSensorServer = Some (), mSensorList = Some 1, mSensors = (1, [5, 8]), mDeathObserver = Some (),
     mOpPackageName = ''app'', arrays = (\<lambda>_. None)(1 \<mapsto> [(1, 0), (1, 1)]), next_address = 2\<rparr>"

lemma new_manager_m0: "new_manager (second_try True) ''app'' w = Inr (m0, w)"
  by (simp add: new_manager_def assertStateLocked_def Let_def find_service_second_try blank_manager_def)
    (simp add: second_try_def two_sensors_def store_list_def m0_def numeral_2_eq_2 upt_rec)

theorem manager_requests_safe_witness:
  "case manager_run plain_class android_types (\<lambda>c. c = 0)
        [(second_try True, M_List None), (second_try False, M_Default 8), (second_try True, M_Died)] m0 (0 :: nat) of
      Inl e \<Rightarrow> e = Abort
    | Inr (gs, m', w') \<Rightarrow> length gs = 3"
  using manager_requests_safe [OF new_manager_m0 [of "0 :: nat"], of
      "[(second_try True, M_List None), (second_try False, M_Default 8), (second_try True, M_Died)]"
      plain_class android_types "\<lambda>c. c = 0"] second_try_ok
  by (auto split: sum.splits)

text \<open>
  C36: \<open>getDefaultSensor\<close> agrees with its reference: it gives a pointer to the first sensor of the list that
  has the type and wakes the device up exactly if the type is one of the seven, and null exactly when
  there is none; the pointer is valid. While the service answers nothing else happens.
\<close>

theorem getDefaultSensor_first:
  assumes "manager_inv m" and "binder_env_ok E"
    and "getDefaultSensor C T E t m w = Inr (G_Sensor p, m', w')"
  shows "map_option (\<lambda>q. projr (sensor_at m' q)) p
      = List.find (\<lambda>s. getType C s = t \<and> isWakeUpSensor C s = wakes_up T t) (snd (mSensors m'))
    \<and> (\<forall>q. p = Some q \<longrightarrow> (\<exists>s. sensor_at m' q = Inr s))
    \<and> (\<forall>v. mSensorServer m = Some v \<and> ping E v = NO_ERROR \<longrightarrow> m' = m \<and> w' = w)"
proof -
  from assms(3) obtain err where a: "assertStateLocked E m w = Inr (err, m', w')"
    by (auto simp: getDefaultSensor_def split: sum.splits if_splits)
  from assertStateLocked_status [OF assms(2) a] have err: "err = NO_ERROR" .
  have inv: "manager_inv m'" using assertStateLocked_keeps [OF assms(1) a] by simp
  have "find_default C m' t (wakes_up T t) 0 (length (snd (mSensors m'))) = Inr p"
    using assms(3) a err by (auto simp: getDefaultSensor_def split: sum.splits)
  with find_default_find [OF inv, of 0 "length (snd (mSensors m'))" C t "wakes_up T t"]
  have "map_option (\<lambda>q. projr (sensor_at m' q)) p
      = List.find (\<lambda>s. getType C s = t \<and> isWakeUpSensor C s = wakes_up T t) (snd (mSensors m'))
    \<and> (\<forall>q. p = Some q \<longrightarrow> (\<exists>s. sensor_at m' q = Inr s))"
    by simp
  moreover have "\<forall>v. mSensorServer m = Some v \<and> ping E v = NO_ERROR \<longrightarrow> m' = m \<and> w' = w"
    using a assertStateLocked_alive [of m _ E w] by auto
  ultimately show ?thesis by simp
qed

theorem getDefaultSensor_first_witness:
  "\<exists>p m' w'. getDefaultSensor plain_class android_types (second_try True) 8 m0 (0 :: nat)
      = (Inr (G_Sensor (Some p), m', w') :: c_fault + (int, nat) grant \<times> _)
    \<and> sensor_at m' p = Inr 8 \<and> m' = m0"
proof -
  let ?r = "getDefaultSensor plain_class android_types (second_try True) 8 m0 (0 :: nat)
    :: c_fault + (int, nat) grant \<times> _"
  have r: "?r = Inr (G_Sensor (Some (1, 1)), m0, 0)"
    by (simp add: getDefaultSensor_def assertStateLocked_def second_try_def m0_def numeral_2_eq_2
        list_at_def sensor_at_def plain_class_def android_types_def wakes_up_def NO_ERROR_def)
  have "manager_inv m0" using new_manager_inv [OF new_manager_m0] by simp
  from getDefaultSensor_first [OF this second_try_ok r] show ?thesis
    using r by (auto simp: sensor_at_def m0_def)
qed

text \<open>
  A lost or missing connection: the manager takes the first service that appears within 60 attempts,
  asks it for the sensors on behalf of its package and stores them.
\<close>

definition disconnected :: "('v, 'w, 's, 'c) binder_env \<Rightarrow> ('v, 's) sensor_manager \<Rightarrow> bool" where
  "disconnected E m \<longleftrightarrow> (case mSensorServer m of None \<Rightarrow> True | Some v \<Rightarrow> ping E v \<noteq> NO_ERROR)"

definition appears :: "('v, 'w, 's, 'c) binder_env \<Rightarrow> nat \<Rightarrow> 'v \<Rightarrow> bool" where
  "appears E k v \<longleftrightarrow> k < 60 \<and> (\<forall>j < k. fst (get_service E j) = NAME_NOT_FOUND)
     \<and> get_service E k = (NO_ERROR, Some v)"

lemma assertStateLocked_connect:
  assumes "disconnected E m" and "appears E k v" and "malloc_ok E"
  shows "assertStateLocked E m w = (case srv_list (service E v) (mOpPackageName m) w of (sensors, w') \<Rightarrow>
    Inr (NO_ERROR, store_list sensors (m\<lparr>mSensorServer := Some v, mDeathObserver := Some v\<rparr>), w'))"
proof -
  have "find_service (get_service E) 60 0 (mSensorServer m) = (None, Some v, 0 + k)"
    by (rule find_service_first) (use assms(2) in \<open>simp_all add: appears_def\<close>)
  with assms(1,3) show ?thesis
    by (auto simp: assertStateLocked_def disconnected_def split: option.splits prod.splits)
qed

text \<open>
  C35: the list after a reconnection. A manager without a live service that finds one within 60 attempts
  returns the number of the sensors this service lists for its package and a pointer to an array that
  names exactly these sensors in their order; it watches the new service for its death, and asked
  again while the service answers it returns the same without asking the service.
\<close>

theorem list_after_reconnection:
  assumes "disconnected E m" and "appears E k v" and "malloc_ok E" and "manager_inv m"
    and "srv_list (service E v) (mOpPackageName m) w = (sensors, w1)"
    and "ping E' v = NO_ERROR"
  shows "\<exists>a m'. manager_getSensorList E old m w = Inr (G_List (int (length sensors)) (Some a), m', w1)
    \<and> manager_getSensorList E' old' m' w1 = Inr (G_List (int (length sensors)) (Some a), m', w1)
    \<and> map_option (map (\<lambda>p. sensor_at m' p)) (arrays m' a) = Some (map Inr sensors)
    \<and> mDeathObserver m' = Some v \<and> arrays m a = None"
proof -
  let ?m = "store_list sensors (m\<lparr>mSensorServer := Some v, mDeathObserver := Some v\<rparr>)"
  let ?a = "next_address m"
  have a: "assertStateLocked E m w = Inr (NO_ERROR, ?m, w1)"
    using assertStateLocked_connect [OF assms(1-3), of w] assms(5) by simp
  have b: "assertStateLocked E' ?m w1 = Inr (NO_ERROR, ?m, w1)"
    by (rule assertStateLocked_alive [of _ v]) (simp_all add: assms(6))
  have "map_option (map (\<lambda>p. sensor_at ?m p)) (arrays ?m ?a) = Some (map Inr sensors)"
    by (auto simp: store_list_def Let_def sensor_at_def intro: nth_equalityI)
  moreover have "arrays m ?a = None" using assms(4) by (fastforce simp: manager_inv_def)
  moreover have "mDeathObserver ?m = Some v" by (simp add: store_list_def Let_def)
  ultimately show ?thesis
    using a b by (intro exI [of _ ?a] exI [of _ ?m]) (simp add: manager_getSensorList_def NO_ERROR_def)
qed

theorem list_after_reconnection_witness:
  "\<exists>a m'. manager_getSensorList (second_try False) None m0 (0 :: nat)
      = (Inr (G_List 2 (Some a), m', 0) :: c_fault + (int, nat) grant \<times> _) \<and> a \<noteq> 1"
proof -
  have dis: "disconnected (second_try False) m0"
    by (simp add: disconnected_def m0_def second_try_def NO_ERROR_def)
  have app: "appears (second_try False) 1 ()"
    by (simp add: appears_def second_try_def)
  have "malloc_ok (second_try False)" "ping (second_try True) () = NO_ERROR"
    "srv_list (service (second_try False) ()) (mOpPackageName m0) (0 :: nat) = ([5, 8], 0)"
    by (simp_all add: second_try_def two_sensors_def)
  from list_after_reconnection [OF dis app this(1) conjunct1 [OF new_manager_inv [OF new_manager_m0]] this(3,2),
      of None]
  show ?thesis by (fastforce simp: m0_def)
qed

text \<open>
  C37: one manager for each package. Whatever was requested before, a request for a package returns a
  manager that acts for this package (or, for the empty name, for the first package of the caller);
  later requests for the package return the same manager and do nothing else, whatever the state of
  the services; and no entry and no manager handed out earlier is replaced.
\<close>

theorem package_manager_stable:
  assumes "table_inv st" and "getInstanceForPackage E packages p st w = Inr (r, st', w')"
  shows "getInstanceForPackage E' packages' p st' v = Inr (r, st', v)
    \<and> r < length (managers st') \<and> (p \<noteq> [] \<longrightarrow> mOpPackageName (managers st' ! r) = p)
    \<and> (p = [] \<and> sPackageInstances st p = None \<longrightarrow> mOpPackageName (managers st' ! r) = op_package_name packages p)
    \<and> (\<forall>q s. sPackageInstances st q = Some s \<longrightarrow> sPackageInstances st' q = Some s
        \<and> managers st' ! s = managers st ! s)
    \<and> table_inv st'"
proof -
  note new = getInstance_new [OF assms]
  then have p: "sPackageInstances st' p = Some r" and inv: "table_inv st'"
    and le: "sPackageInstances st \<subseteq>\<^sub>m sPackageInstances st'"
    and ms: "take (length (managers st)) (managers st') = managers st" by simp_all
  have r: "r < length (managers st') \<and> (p \<noteq> [] \<longrightarrow> mOpPackageName (managers st' ! r) = p)"
    using inv p by (simp add: table_inv_def)
  have "sPackageInstances st' q = Some s \<and> managers st' ! s = managers st ! s"
    if "sPackageInstances st q = Some s" for q s
  proof
    show "sPackageInstances st' q = Some s" using le that by (force simp: map_le_def)
    have "s < length (managers st)" using assms(1) that by (auto simp: table_inv_def)
    then show "managers st' ! s = managers st ! s" using ms nth_take by metis
  qed
  moreover have "mOpPackageName (managers st' ! r) = op_package_name packages p"
    if "p = []" "sPackageInstances st p = None"
    using assms(2) that
    by (auto simp: getInstanceForPackage_def Let_def dest: new_manager_inv split: sum.splits)
  moreover have "getInstanceForPackage E' packages' p st' v = Inr (r, st', v)"
    by (rule getInstance_cached [OF p])
  ultimately show ?thesis using r inv by blast
qed

theorem package_manager_stable_witness:
  "\<exists>st'. getInstanceForPackage (second_try True) (Some [''app'']) [] no_managers (0 :: nat) = Inr (0, st', 0)
    \<and> getInstanceForPackage (second_try False) None [] st' (5 :: nat) = Inr (0, st', 5)
    \<and> sPackageInstances st' ''app'' = Some 0"
proof -
  let ?st = "\<lparr>sPackageInstances = [[] \<mapsto> 0, ''app'' \<mapsto> 0], managers = [m0]\<rparr> :: (unit, int) manager_table"
  have i: "getInstanceForPackage (second_try True) (Some [''app'']) [] no_managers (0 :: nat) = Inr (0, ?st, 0)"
    by (simp add: getInstanceForPackage_def no_managers_def op_package_name_def new_manager_m0 insert_new_def)
  from package_manager_stable [OF table_inv_no_managers i, of "second_try False" None 5] i
  show ?thesis by (intro exI [of _ ?st]) simp
qed

end
