(* ===== verification/Thermal_Hal.thy ===== *)
theory Thermal_Hal
  imports C_Text
begin

text \<open>
  The thermal HAL, \<open>thermal/thermal.c\<close>: the search for the thermal zones of the sensors, the
  temperatures and the times of the processors. Files are a parameter; reading them, line by line and
  number by number, is written out with the text functions of the C library.
\<close>

unbundle bit_operations_syntax

section \<open>The environment\<close>

text \<open>
  \<open>fopen\<close> gives the error number or the bytes of the file and the error number at their end, 0 when
  the file just ends there. \<open>zone_entries\<close> are the entries of the thermal directory, \<open>clock_ticks\<close> is
  \<open>sysconf (_SC_CLK_TCK)\<close>. Temperatures are floating-point numbers \<open>'t\<close>; \<open>scan_float\<close> is the conversion
  \<open>%f\<close> of \<open>fscanf\<close>, and \<open>UNKNOWN_TEMPERATURE\<close> the constant of \<open>hardware/thermal.h\<close>.
\<close>

record 't thermal_env =
  fopen :: "string \<Rightarrow> int + string \<times> int"
  zone_entries :: "string list option"
  clock_ticks :: int
  scan_float :: "string \<Rightarrow> 't option"
  UNKNOWN_TEMPERATURE :: 't

definition MAX_PATH_LENGTH :: nat where "MAX_PATH_LENGTH = 128"

definition MAX_TYPE_LENGTH :: nat where "MAX_TYPE_LENGTH = 32"

definition CPU_COUNT :: nat where "CPU_COUNT = 8"

definition PROC_STAT_PATH :: string where "PROC_STAT_PATH = ''/proc/stat''"

definition CPU_ONLINE_PATH :: "nat \<Rightarrow> string" where
  "CPU_ONLINE_PATH cpu = ''/sys/devices/system/cpu/cpu'' @ show_nat cpu @ ''/online''"

definition THERMAL_DIR :: string where "THERMAL_DIR = ''/sys/devices/virtual/thermal''"

definition THERMAL_ZONE_PREFIX :: string where "THERMAL_ZONE_PREFIX = ''thermal_zone''"

definition cpu_names :: "string list" where
  "cpu_names = [''cpu0'', ''cpu1'', ''cpu2'', ''cpu3'', ''cpu4'', ''cpu5'', ''cpu6'', ''cpu7'']"

datatype temperature_type = DEVICE_TEMPERATURE_CPU | DEVICE_TEMPERATURE_GPU

record temperature_sensor =
  ts_name :: string
  ts_type :: temperature_type
  ts_path :: string

definition initial_sensors :: "temperature_sensor list" where
  "initial_sensors =
     [\<lparr>ts_name = ''cluster0'', ts_type = DEVICE_TEMPERATURE_CPU, ts_path = []\<rparr>,
      \<lparr>ts_name = ''cluster1'', ts_type = DEVICE_TEMPERATURE_CPU, ts_path = []\<rparr>,
      \<lparr>ts_name = ''gpu'', ts_type = DEVICE_TEMPERATURE_GPU, ts_path = []\<rparr>]"

section \<open>Temperatures\<close>

text \<open>Whether \<open>fgets\<close> reached the end of the data with this line.\<close>

definition hits_end :: "nat \<Rightarrow> string \<Rightarrow> bool" where
  "hits_end room l \<longleftrightarrow> length l < room - 1 \<and> (l = [] \<or> last l \<noteq> newline)"

definition read_string :: "'t thermal_env \<Rightarrow> string \<Rightarrow> nat \<Rightarrow> int \<times> string option" where
  "read_string E path room = (case fopen E path of
       Inl e \<Rightarrow> (- e, None)
     | Inr (text0, err) \<Rightarrow>
         let l = fst (fgets_line (room - 1) text0)
         in if hits_end room l \<and> err \<noteq> 0 then (- err, None)
            else if l = [] then (- EIO, None)
            else (0, Some (takeWhile (\<lambda>c. c \<noteq> nul \<and> c \<noteq> carriage_return \<and> c \<noteq> newline) l)))"

text \<open>The inner loop: the first sensor of that name gets the path.\<close>

fun set_path :: "string \<Rightarrow> string \<Rightarrow> temperature_sensor list \<Rightarrow> temperature_sensor list" where
  "set_path type0 path [] = []"
| "set_path type0 path (s # ss) =
     (if type0 = ts_name s then s\<lparr>ts_path := path\<rparr> # ss else s # set_path type0 path ss)"

definition zone_file :: "string \<Rightarrow> string \<Rightarrow> string" where
  "zone_file entry file = snprintf MAX_PATH_LENGTH (THERMAL_DIR @ ''/'' @ entry @ ''/'' @ file)"

definition visit_entry :: "'t thermal_env \<Rightarrow> temperature_sensor list \<Rightarrow> string \<Rightarrow> temperature_sensor list" where
  "visit_entry E ss entry =
     (if \<not> starts_with_prefix THERMAL_ZONE_PREFIX entry then ss
      else (case read_string E (zone_file entry ''type'') MAX_TYPE_LENGTH of
          (_, None) \<Rightarrow> ss
        | (_, Some type0) \<Rightarrow> set_path type0 (zone_file entry ''temp'') ss))"

definition find_temperature_sensors :: "'t thermal_env \<Rightarrow> temperature_sensor list \<Rightarrow> temperature_sensor list" where
  "find_temperature_sensors E ss = (case zone_entries E of None \<Rightarrow> ss | Some es \<Rightarrow> foldl (visit_entry E) ss es)"

definition read_temperature :: "'t thermal_env \<Rightarrow> temperature_sensor \<Rightarrow> 't" where
  "read_temperature E s =
     (if ts_path s = [] then UNKNOWN_TEMPERATURE E
      else (case fopen E (ts_path s) of
          Inl _ \<Rightarrow> UNKNOWN_TEMPERATURE E
        | Inr (text0, _) \<Rightarrow> (case scan_float E text0 of None \<Rightarrow> UNKNOWN_TEMPERATURE E | Some t \<Rightarrow> t)))"

record 't temperature_t =
  tm_type :: temperature_type
  tm_name :: string
  current_value :: 't
  throttling_threshold :: 't
  shutdown_threshold :: 't
  vr_throttling_threshold :: 't

definition temperature_of :: "'t thermal_env \<Rightarrow> temperature_sensor \<Rightarrow> 't temperature_t" where
  "temperature_of E s = \<lparr>tm_type = ts_type s, tm_name = ts_name s, current_value = read_temperature E s,
     throttling_threshold = UNKNOWN_TEMPERATURE E, shutdown_threshold = UNKNOWN_TEMPERATURE E,
     vr_throttling_threshold = UNKNOWN_TEMPERATURE E\<rparr>"

text \<open>The static data of the module: the sensors and the control of \<open>pthread_once\<close>.\<close>

record thermal_state =
  zone_sensors :: "temperature_sensor list"
  sensors_once :: bool

definition thermal_start :: thermal_state where
  "thermal_start = \<lparr>zone_sensors = initial_sensors, sensors_once = False\<rparr>"

definition search_once :: "'t thermal_env \<Rightarrow> thermal_state \<Rightarrow> thermal_state" where
  "search_once E st = (if sensors_once st then st
     else \<lparr>zone_sensors = find_temperature_sensors E (zone_sensors st), sensors_once = True\<rparr>)"

text \<open>
  \<open>list\<close> is the array of the caller, or null; \<open>room\<close> its size as the caller claims. Writing past the
  array is a fault.
\<close>

definition get_temperatures :: "'t thermal_env \<Rightarrow> 't temperature_t list option \<Rightarrow> nat \<Rightarrow> thermal_state
    \<Rightarrow> c_fault + int \<times> 't temperature_t list option \<times> thermal_state" where
  "get_temperatures E list room st =
     (let st = search_once E st; sensor_count = length (zone_sensors st)
      in (case list of None \<Rightarrow> Inr (int sensor_count, None, st)
          | Some xs \<Rightarrow>
              let output_count = (if room < sensor_count then room else sensor_count)
              in if length xs < output_count then Inl OutOfBounds
                 else Inr (int sensor_count,
                   Some (write_at xs 0 (map (\<lambda>i. temperature_of E (zone_sensors st ! i)) [0..<output_count])), st)))"

section \<open>Processor times\<close>

record cpu_usage_t =
  cu_name :: string
  active :: "64 word"
  total :: "64 word"
  is_online :: bool

definition cpu_online :: "'t thermal_env \<Rightarrow> nat \<Rightarrow> bool" where
  "cpu_online E cpu \<longleftrightarrow> cpu = 0 \<or>
     (case fopen E (snprintf MAX_PATH_LENGTH (CPU_ONLINE_PATH cpu)) of
        Inl _ \<Rightarrow> False
      | Inr (text0, _) \<Rightarrow> (case scan_int text0 of None \<Rightarrow> False | Some online \<Rightarrow> online \<noteq> 0))"

definition cpu_entry :: "'t thermal_env \<Rightarrow> nat \<Rightarrow> cpu_usage_t" where
  "cpu_entry E cpu = \<lparr>cu_name = cpu_names ! cpu, active = 0, total = 0, is_online = cpu_online E cpu\<rparr>"

text \<open>The eight conversions \<open>%llu\<close>; all must succeed.\<close>

fun scan_u64s :: "nat \<Rightarrow> string \<Rightarrow> (64 word list) option" where
  "scan_u64s 0 s = Some []"
| "scan_u64s (Suc n) s = (case scan_u64 s of None \<Rightarrow> None
     | Some (v, r) \<Rightarrow> (case scan_u64s n r of None \<Rightarrow> None | Some vs \<Rightarrow> Some (v # vs)))"

text \<open>What a line of the file gives: the processor, its active time and its total time, in ticks.\<close>

definition parse_stat :: "string \<Rightarrow> (nat \<times> 64 word \<times> 64 word) option" where
  "parse_stat line =
     (case scan_word 15 (c_str line) of None \<Rightarrow> None
      | Some (nm, r) \<Rightarrow> (case scan_u64s 8 r of None \<Rightarrow> None
      | Some vs \<Rightarrow>
          if take 3 nm \<noteq> ''cpu'' \<or> length nm = 3 then None
          else (case scan_u64 (drop 3 nm) of None \<Rightarrow> None
            | Some (cpu, end_ptr) \<Rightarrow>
                if end_ptr \<noteq> [] \<or> CPU_COUNT \<le> unat cpu then None
                else let user = vs ! 0; nice = vs ! 1; system = vs ! 2; idle = vs ! 3; iowait = vs ! 4;
                         irq = vs ! 5; softirq = vs ! 6; steal = vs ! 7;
                         act = user + nice + system + irq + softirq + steal;
                         tot = act + idle + iowait
                     in Some (unat cpu, act, tot))))"

definition to_millis :: "int \<Rightarrow> 64 word \<Rightarrow> 64 word" where
  "to_millis ticks_per_second t = t * 1000 div word_of_int ticks_per_second"

definition stat_line :: "int \<Rightarrow> cpu_usage_t list \<Rightarrow> string \<Rightarrow> cpu_usage_t list" where
  "stat_line ticks xs line = (case parse_stat line of None \<Rightarrow> xs
     | Some (cpu, a, t) \<Rightarrow> xs[cpu := (xs ! cpu)\<lparr>active := to_millis ticks a, total := to_millis ticks t\<rparr>])"

text \<open>The lines \<open>fgets\<close> gives with a buffer of 512 characters; a read error ends the loop.\<close>

definition stat_lines :: "string \<Rightarrow> int \<Rightarrow> string list" where
  "stat_lines text0 err =
     (let ls = fgets_all 510 text0
      in if err \<noteq> 0 \<and> ls \<noteq> [] \<and> hits_end 512 (last ls) then butlast ls else ls)"

definition get_cpu_usages :: "'t thermal_env \<Rightarrow> cpu_usage_t list option \<Rightarrow> c_fault + int \<times> cpu_usage_t list option" where
  "get_cpu_usages E list = (case list of
       None \<Rightarrow> Inr (int CPU_COUNT, None)
     | Some xs \<Rightarrow>
         let ticks_per_second = clock_ticks E
         in if ticks_per_second \<le> 0 then Inr (- EINVAL, Some xs)
            else if length xs < CPU_COUNT then Inl OutOfBounds
            else let xs = write_at xs 0 (map (cpu_entry E) [0..<CPU_COUNT])
                 in (case fopen E PROC_STAT_PATH of
                       Inl e \<Rightarrow> Inr (- e, Some xs)
                     | Inr (text0, err) \<Rightarrow>
                         Inr (int CPU_COUNT, Some (foldl (stat_line ticks_per_second) xs (stat_lines text0 err)))))"

definition get_cooling_devices :: "'a \<Rightarrow> nat \<Rightarrow> int" where
  "get_cooling_devices list room = 0"

text \<open>The table of the module; it has no \<open>open\<close>.\<close>

record ('temps, 'usages, 'coolings) thermal_module_t =
  tm_name :: string
  tm_author :: string
  tm_open :: "unit option"
  tm_getTemperatures :: 'temps
  tm_getCpuUsages :: 'usages
  tm_getCoolingDevices :: 'coolings

definition thermal_module_info where
  "thermal_module_info E =
     \<lparr>tm_name = ''HiSilicon hi3635 Thermal HAL'', tm_author = ''The LineageOS Project'', tm_open = None,
      tm_getTemperatures = get_temperatures E, tm_getCpuUsages = get_cpu_usages E,
      tm_getCoolingDevices = get_cooling_devices\<rparr>"

section \<open>The last line of a processor counts\<close>

text \<open>The reference: look up each processor in the parsed lines, from the last to the first.\<close>

definition usage_of :: "'t thermal_env \<Rightarrow> string list \<Rightarrow> nat \<Rightarrow> cpu_usage_t" where
  "usage_of E lines cpu = (case map_of (rev (List.map_filter parse_stat lines)) cpu of
       None \<Rightarrow> cpu_entry E cpu
     | Some (a, t) \<Rightarrow> (cpu_entry E cpu)\<lparr>active := to_millis (clock_ticks E) a, total := to_millis (clock_ticks E) t\<rparr>)"

lemma parse_stat_cpu: "parse_stat line = Some (cpu, a, t) \<Longrightarrow> cpu < 8"
  by (auto simp: parse_stat_def Let_def CPU_COUNT_def split: option.splits if_splits prod.splits)

lemma length_stat_lines [simp]: "length (foldl (stat_line ticks) xs lines) = length xs"
  by (induction lines arbitrary: xs) (auto simp: stat_line_def split: option.splits)

lemma usage_of_snoc:
  "usage_of E (lines @ [line]) i = (case parse_stat line of None \<Rightarrow> usage_of E lines i
     | Some (cpu, a, t) \<Rightarrow> if i = cpu
         then (usage_of E lines i)\<lparr>active := to_millis (clock_ticks E) a, total := to_millis (clock_ticks E) t\<rparr>
         else usage_of E lines i)"
  by (auto simp: usage_of_def cpu_entry_def List.map_filter_def split: option.splits)

lemma stat_lines_nth:
  assumes "8 \<le> length xs" and "\<forall>i < 8. xs ! i = cpu_entry E i"
  shows "foldl (stat_line (clock_ticks E)) xs lines ! i = (if i < 8 then usage_of E lines i else xs ! i)"
proof (induction lines arbitrary: i rule: rev_induct)
  case Nil
  then show ?case using assms(2) by (simp add: usage_of_def map_filter_simps)
next
  case (snoc line lines)
  define ys where "ys = foldl (stat_line (clock_ticks E)) xs lines"
  have len: "length ys = length xs" by (simp add: ys_def)
  have IH: "ys ! i = (if i < 8 then usage_of E lines i else xs ! i)" for i
    using snoc by (simp add: ys_def)
  have step: "foldl (stat_line (clock_ticks E)) xs (lines @ [line]) = stat_line (clock_ticks E) ys line"
    by (simp add: ys_def)
  show ?case unfolding step
    using len assms(1) parse_stat_cpu [of line]
    by (auto simp: IH stat_line_def usage_of_snoc nth_list_update split: option.splits)
qed

section \<open>Lines as the kernel writes them\<close>

definition kernel_line :: "string \<Rightarrow> nat list \<Rightarrow> string" where
  "kernel_line label vs = label @ concat (map (\<lambda>v. '' '' @ show_nat v) vs)"

definition active_ticks :: "nat list \<Rightarrow> nat" where
  "active_ticks vs = vs ! 0 + vs ! 1 + vs ! 2 + vs ! 5 + vs ! 6 + vs ! 7"

definition total_ticks :: "nat list \<Rightarrow> nat" where
  "total_ticks vs = active_ticks vs + vs ! 3 + vs ! 4"

text \<open>Eight to ten counters of 64 bits.\<close>

definition counters_ok :: "nat list \<Rightarrow> bool" where
  "counters_ok vs \<longleftrightarrow> 8 \<le> length vs \<and> length vs \<le> 10 \<and> (\<forall>v \<in> set vs. v < 2 ^ 64)"

lemma char_facts [simp]:
  "c_isspace CHR '' ''" "c_isspace newline" "\<not> c_isdigit CHR '' ''" "\<not> c_isdigit newline"
  "CHR '' '' \<noteq> newline" "CHR '' '' \<noteq> nul" "newline \<noteq> nul"
  by (simp_all add: c_isspace_def c_isdigit_def newline_def nul_def)

lemma scan_u64s_shown:
  "n \<le> length vs \<Longrightarrow> \<forall>v \<in> set vs. v < 2 ^ 64
    \<Longrightarrow> scan_u64s n (concat (map (\<lambda>v. '' '' @ show_nat v) vs) @ [newline]) = Some (map of_nat (take n vs))"
proof (induction vs arbitrary: n)
  case Nil
  then show ?case by simp
next
  case (Cons v vs)
  let ?r = "concat (map (\<lambda>v. '' '' @ show_nat v) vs) @ [newline]"
  show ?case
  proof (cases n)
    case 0
    then show ?thesis by simp
  next
    case (Suc k)
    have "\<not> c_isdigit (hd ?r)" by (cases vs) simp_all
    then have "scan_u64 ('' '' @ show_nat v @ ?r) = Some (of_nat v, ?r)"
      by (intro scan_u64_show) (use Cons.prems(2) in auto)
    with Cons Suc show ?thesis by simp
  qed
qed

lemma kernel_line_chars:
  assumes "\<forall>c \<in> set label. c \<noteq> newline \<and> c \<noteq> nul" and "c \<in> set (kernel_line label vs)"
  shows "c \<noteq> newline \<and> c \<noteq> nul"
  using assms by (auto simp: kernel_line_def split: if_splits dest: show_nat_plain)

lemma length_show_nat: "n < 10 ^ k \<Longrightarrow> 0 < k \<Longrightarrow> length (show_nat n) \<le> k"
proof (induction k arbitrary: n)
  case 0
  then show ?case by simp
next
  case (Suc k)
  show ?case
  proof (cases "n < 10")
    case True
    then show ?thesis by (subst show_nat.simps) simp
  next
    case False
    then have "0 < k" using Suc.prems(1) by (cases k) auto
    moreover have "n div 10 < 10 ^ k" using Suc.prems(1) by (simp add: less_mult_imp_div_less mult.commute)
    ultimately have "length (show_nat (n div 10)) \<le> k" using Suc.IH by simp
    with False show ?thesis by (subst show_nat.simps) simp
  qed
qed

lemma length_kernel_line:
  assumes "counters_ok vs" and "length label \<le> 4"
  shows "length (kernel_line label vs) \<le> 510"
proof -
  have "length (show_nat v) \<le> 20" if "v \<in> set vs" for v
    using that assms(1) by (intro length_show_nat) (force simp: counters_ok_def)+
  then have "sum_list (map (\<lambda>v. Suc (length (show_nat v))) vs) \<le> sum_list (map (\<lambda>v. 21) vs)"
    by (intro sum_list_mono) simp
  then have "length (concat (map (\<lambda>v. '' '' @ show_nat v) vs)) \<le> 21 * length vs"
    by (simp add: length_concat comp_def sum_list_triv)
  then show ?thesis using assms by (simp add: kernel_line_def counters_ok_def)
qed

lemma cpu_plain: "\<forall>c \<in> set ''cpu''. c \<noteq> nul \<and> \<not> c_isspace c"
  by (simp add: nul_def c_isspace_def)

lemma c_str_id: "\<forall>c \<in> set s. c \<noteq> nul \<Longrightarrow> c_str s = s"
  by (simp add: c_str_def)

lemma parse_kernel_line:
  assumes "counters_ok vs" and "\<forall>c \<in> set nm. c \<noteq> nul \<and> \<not> c_isspace c" and "nm \<noteq> []" and "length nm \<le> 15"
    and "pad = [] \<or> pad = '' ''"
  shows "scan_word 15 (c_str (kernel_line (nm @ pad) vs @ [newline]))
      = Some (nm, pad @ concat (map (\<lambda>v. '' '' @ show_nat v) vs) @ [newline])"
proof -
  let ?r = "pad @ concat (map (\<lambda>v. '' '' @ show_nat v) vs) @ [newline]"
  have "nul \<notin> set pad" using assms(5) by (auto simp: nul_def)
  then have "\<forall>c \<in> set (nm @ ?r). c \<noteq> nul"
    using assms(2) by (auto split: if_splits dest: show_nat_plain)
  then have "c_str (kernel_line (nm @ pad) vs @ [newline]) = nm @ ?r"
    by (simp add: c_str_id kernel_line_def)
  moreover have "c_isspace (hd ?r)" using assms(5) by (cases vs) auto
  ultimately show ?thesis using scan_word_word [of nm 15 ?r] assms(2,3,4) by simp
qed

lemma scan_u64s_pad:
  assumes "pad = [] \<or> pad = '' ''"
  shows "scan_u64s n (pad @ '' '' @ s) = scan_u64s n ('' '' @ s)"
  using assms by (cases n) (auto simp: scan_u64_def scan_number_def)

lemma parse_cpu_line:
  assumes "counters_ok vs" and "cpu < 8"
  shows "parse_stat (kernel_line (''cpu'' @ show_nat cpu) vs @ [newline])
    = Some (cpu, of_nat (active_ticks vs), of_nat (total_ticks vs))"
proof -
  have c: "show_nat cpu = [digit cpu]" using assms(2) by (simp add: show_nat.simps)
  have nm: "\<forall>c \<in> set (''cpu'' @ show_nat cpu). c \<noteq> nul \<and> \<not> c_isspace c"
    using cpu_plain by (auto dest: show_nat_plain)
  have w: "scan_word 15 (c_str (kernel_line (''cpu'' @ show_nat cpu) vs @ [newline]))
      = Some (''cpu'' @ show_nat cpu, concat (map (\<lambda>v. '' '' @ show_nat v) vs) @ [newline])"
    using parse_kernel_line [OF assms(1) nm, of "[]"] by (simp add: c)
  have n: "scan_u64 (show_nat cpu) = Some (of_nat cpu, [])"
    using scan_u64_show [of "[]" "[]" cpu] assms(2) by simp
  have vs: "scan_u64s 8 (concat (map (\<lambda>v. '' '' @ show_nat v) vs) @ [newline]) = Some (map of_nat (take 8 vs))"
    by (rule scan_u64s_shown) (use assms(1) in \<open>simp_all add: counters_ok_def\<close>)
  have "8 \<le> length vs" using assms(1) by (simp add: counters_ok_def)
  moreover have "unat (of_nat cpu :: 64 word) = cpu" using assms(2) by (simp add: unat_of_nat)
  ultimately show ?thesis
    using assms(2) unfolding parse_stat_def w option.case prod.case vs
    by (simp add: n CPU_COUNT_def Let_def active_ticks_def total_ticks_def)
qed

lemma parse_sum_line:
  assumes "counters_ok vs"
  shows "parse_stat (kernel_line ''cpu '' vs @ [newline]) = None"
proof -
  from parse_kernel_line [OF assms cpu_plain, of "'' ''"] show ?thesis
    by (simp add: parse_stat_def split: option.split)
qed

lemma to_millis_exact:
  assumes "0 < ticks" and "ticks < 2 ^ 63" and "1000 * n < 2 ^ 64"
  shows "unat (to_millis ticks (of_nat n)) = 1000 * n div nat ticks"
proof -
  have "unat (of_nat n * 1000 :: 64 word) = 1000 * n"
    using assms(3) by (simp add: unat_word_ariths unat_of_nat mult.commute)
  moreover have "unat (word_of_int ticks :: 64 word) = nat ticks"
    using assms(1,2) by (simp add: unat_eq_nat_uint uint_word_of_int)
  ultimately show ?thesis by (simp add: to_millis_def unat_div)
qed

text \<open>The lines of a whole file: the sum, then the processors that run.\<close>

definition kernel_lines :: "nat list \<Rightarrow> (nat \<times> nat list) list \<Rightarrow> string list" where
  "kernel_lines all rows =
     kernel_line ''cpu '' all # map (\<lambda>(cpu, vs). kernel_line (''cpu'' @ show_nat cpu) vs) rows"

definition rows_ok :: "(nat \<times> nat list) list \<Rightarrow> bool" where
  "rows_ok rows \<longleftrightarrow> distinct (map fst rows)
     \<and> (\<forall>(cpu, vs) \<in> set rows. cpu < 8 \<and> counters_ok vs \<and> 1000 * total_ticks vs < 2 ^ 64)"

lemma kernel_line_fits:
  assumes "counters_ok vs" and "length label \<le> 4" and "\<forall>c \<in> set label. c \<noteq> newline \<and> c \<noteq> nul"
  shows "(\<forall>c \<in> set (kernel_line label vs). c \<noteq> newline) \<and> length (kernel_line label vs) \<le> 510"
  using length_kernel_line [OF assms(1,2)] kernel_line_chars [OF assms(3)] by blast

lemma kernel_lines_fit:
  assumes "counters_ok all" and "rows_ok rows"
  shows "\<forall>l \<in> set (kernel_lines all rows). (\<forall>c \<in> set l. c \<noteq> newline) \<and> length l \<le> 510"
proof
  fix l assume "l \<in> set (kernel_lines all rows)"
  then consider "l = kernel_line ''cpu '' all"
    | cpu vs where "(cpu, vs) \<in> set rows" "l = kernel_line (''cpu'' @ show_nat cpu) vs"
    by (auto simp: kernel_lines_def)
  then show "(\<forall>c \<in> set l. c \<noteq> newline) \<and> length l \<le> 510"
  proof cases
    case 1
    have "\<forall>c \<in> set ''cpu ''. c \<noteq> newline \<and> c \<noteq> nul" by (simp add: newline_def nul_def)
    with assms(1) show ?thesis unfolding 1 by (intro kernel_line_fits) simp_all
  next
    case 2
    then have cpu: "cpu < 8" "counters_ok vs" using assms(2) by (auto simp: rows_ok_def)
    then have "length (''cpu'' @ show_nat cpu) \<le> 4" by (simp add: show_nat.simps)
    moreover have "\<forall>c \<in> set ''cpu''. c \<noteq> newline \<and> c \<noteq> nul" by (simp add: newline_def nul_def)
    then have "\<forall>c \<in> set (''cpu'' @ show_nat cpu). c \<noteq> newline \<and> c \<noteq> nul"
      using show_nat_plain [of _ cpu] by (metis Un_iff set_append)
    ultimately show ?thesis unfolding 2(2) by (intro kernel_line_fits [OF cpu(2)])
  qed
qed

lemma parsed_rows:
  "\<forall>(cpu, vs) \<in> set rows. cpu < 8 \<and> counters_ok vs \<Longrightarrow>
    List.map_filter parse_stat (map (\<lambda>(cpu, vs). kernel_line (''cpu'' @ show_nat cpu) vs @ [newline]) rows)
      = map (\<lambda>(cpu, vs). (cpu, of_nat (active_ticks vs), of_nat (total_ticks vs))) rows"
proof (induction rows)
  case (Cons r rows)
  then show ?case using parse_cpu_line [of "snd r" "fst r"]
    by (auto simp: map_filter_simps split: prod.splits)
qed (simp add: map_filter_simps)

lemma parsed_file:
  assumes "counters_ok all" and "rows_ok rows" and "\<forall>l \<in> set (fgets_all 510 rest). parse_stat l = None"
  shows "List.map_filter parse_stat
      (stat_lines (concat (map (\<lambda>l. l @ [newline]) (kernel_lines all rows)) @ rest) 0)
    = map (\<lambda>(cpu, vs). (cpu, of_nat (active_ticks vs), of_nat (total_ticks vs))) rows"
proof -
  have "stat_lines (concat (map (\<lambda>l. l @ [newline]) (kernel_lines all rows)) @ rest) 0
      = map (\<lambda>l. l @ [newline]) (kernel_lines all rows) @ fgets_all 510 rest"
    by (simp add: stat_lines_def fgets_all_lines [OF kernel_lines_fit [OF assms(1,2)]])
  moreover have "List.map_filter parse_stat (fgets_all 510 rest) = []"
    using assms(3) by (simp add: List.map_filter_def filter_empty_conv)
  moreover have "map (\<lambda>l. l @ [newline]) (kernel_lines all rows) = (kernel_line ''cpu '' all @ [newline])
      # map (\<lambda>(cpu, vs). kernel_line (''cpu'' @ show_nat cpu) vs @ [newline]) rows"
    by (auto simp: kernel_lines_def)
  moreover have "List.map_filter parse_stat (map (\<lambda>(cpu, vs). kernel_line (''cpu'' @ show_nat cpu) vs @ [newline]) rows)
      = map (\<lambda>(cpu, vs). (cpu, of_nat (active_ticks vs), of_nat (total_ticks vs))) rows"
    by (rule parsed_rows) (use assms(2) in \<open>auto simp: rows_ok_def\<close>)
  moreover have "List.map_filter parse_stat ((kernel_line ''cpu '' all @ [newline]) # ls)
      = List.map_filter parse_stat ls" for ls
    by (simp add: map_filter_simps parse_sum_line [OF assms(1)])
  moreover have "List.map_filter parse_stat (as @ bs) = List.map_filter parse_stat as @ List.map_filter parse_stat bs" for as bs
    by (simp add: List.map_filter_def)
  ultimately show ?thesis by simp
qed

text \<open>What such rows give.\<close>

lemma usage_of_rows:
  assumes "List.map_filter parse_stat lines = map (\<lambda>(cpu, vs). (cpu, of_nat (active_ticks vs), of_nat (total_ticks vs))) rows"
    and "distinct (map fst rows)"
  shows "(cpu, vs) \<in> set rows \<Longrightarrow> usage_of E lines cpu = (cpu_entry E cpu)\<lparr>
      active := to_millis (clock_ticks E) (of_nat (active_ticks vs)),
      total := to_millis (clock_ticks E) (of_nat (total_ticks vs))\<rparr>"
    and "cpu \<notin> fst ` set rows \<Longrightarrow> usage_of E lines cpu = cpu_entry E cpu"
proof -
  let ?parsed = "map (\<lambda>(cpu, vs). (cpu, of_nat (active_ticks vs) :: 64 word, of_nat (total_ticks vs) :: 64 word)) rows"
  have fst: "map fst ?parsed = map fst rows" by (auto simp: comp_def case_prod_beta)
  have "distinct (map fst ?parsed)" unfolding fst by (rule assms(2))
  then have "distinct (map fst (rev ?parsed))" by (simp only: rev_map [symmetric] distinct_rev)
  from map_of_eq_Some_iff [OF this]
  show "(cpu, vs) \<in> set rows \<Longrightarrow> usage_of E lines cpu = (cpu_entry E cpu)\<lparr>
      active := to_millis (clock_ticks E) (of_nat (active_ticks vs)),
      total := to_millis (clock_ticks E) (of_nat (total_ticks vs))\<rparr>"
    by (force simp: usage_of_def assms(1))
  assume "cpu \<notin> fst ` set rows"
  then have "map_of (rev ?parsed) cpu = None" by (auto simp: map_of_eq_None_iff image_iff split: prod.splits)
  then show "usage_of E lines cpu = cpu_entry E cpu" by (simp add: usage_of_def assms(1))
qed

lemma to_millis_mono:
  assumes "0 < ticks" and "ticks < 2 ^ 63" and "1000 * total_ticks vs < 2 ^ 64"
  shows "unat (to_millis ticks (of_nat (active_ticks vs))) = 1000 * active_ticks vs div nat ticks
    \<and> unat (to_millis ticks (of_nat (total_ticks vs))) = 1000 * total_ticks vs div nat ticks
    \<and> to_millis ticks (of_nat (active_ticks vs)) \<le> to_millis ticks (of_nat (total_ticks vs))"
proof -
  have le: "active_ticks vs \<le> total_ticks vs" by (simp add: total_ticks_def)
  then have "1000 * active_ticks vs < 2 ^ 64" using assms(3) by simp
  note exact = to_millis_exact [OF assms(1,2) this] to_millis_exact [OF assms(1,2,3)]
  have "1000 * active_ticks vs div nat ticks \<le> 1000 * total_ticks vs div nat ticks"
    using le by (intro div_le_mono) simp
  with exact show ?thesis by (simp add: word_le_nat_alt)
qed

section \<open>The search for the zones\<close>

text \<open>The type of a zone, when its name has the prefix and its file can be read.\<close>

definition zone_type :: "'t thermal_env \<Rightarrow> string \<Rightarrow> string option" where
  "zone_type E entry = (if starts_with_prefix THERMAL_ZONE_PREFIX entry
     then snd (read_string E (zone_file entry ''type'') MAX_TYPE_LENGTH) else None)"

text \<open>The reference: the last zone of the directory with this type.\<close>

definition zone_path :: "'t thermal_env \<Rightarrow> string list \<Rightarrow> string \<Rightarrow> string" where
  "zone_path E es nm = (case List.find (\<lambda>e. zone_type E e = Some nm) (rev es) of
     None \<Rightarrow> [] | Some e \<Rightarrow> zone_file e ''temp'')"

lemma visit_entry_zone:
  "visit_entry E ss e = (case zone_type E e of None \<Rightarrow> ss | Some nm \<Rightarrow> set_path nm (zone_file e ''temp'') ss)"
  by (auto simp: visit_entry_def zone_type_def split: option.split prod.split)

lemma set_path_map:
  "distinct (map ts_name ss) \<Longrightarrow> set_path nm p ss = map (\<lambda>s. if ts_name s = nm then s\<lparr>ts_path := p\<rparr> else s) ss"
proof (induction ss)
  case Nil
  then show ?case by simp
next
  case (Cons s ss)
  have "map (\<lambda>s. if ts_name s = nm then s\<lparr>ts_path := p\<rparr> else s) ss = ss" if "ts_name s = nm"
    using Cons.prems that by (intro map_idI) (auto simp: image_iff)
  with Cons show ?case by (cases "ts_name s = nm") auto
qed

lemma visit_entries:
  "distinct (map ts_name ss) \<Longrightarrow> \<forall>s \<in> set ss. ts_path s = []
    \<Longrightarrow> foldl (visit_entry E) ss es = map (\<lambda>s. s\<lparr>ts_path := zone_path E es (ts_name s)\<rparr>) ss"
proof (induction es rule: rev_induct)
  case Nil
  then show ?case by (auto simp: zone_path_def intro!: map_idI [symmetric])
next
  case (snoc e es)
  define zs where "zs = map (\<lambda>s. s\<lparr>ts_path := zone_path E es (ts_name s)\<rparr>) ss"
  have d: "distinct (map ts_name zs)" using snoc.prems(1) by (simp add: zs_def comp_def)
  have step: "foldl (visit_entry E) ss (es @ [e]) = visit_entry E zs e" using snoc by (simp add: zs_def)
  show ?case
  proof (cases "zone_type E e")
    case None
    then show ?thesis unfolding step by (simp add: visit_entry_zone zs_def zone_path_def)
  next
    case (Some nm)
    then have "visit_entry E zs e = map (\<lambda>s. if ts_name s = nm then s\<lparr>ts_path := zone_file e ''temp''\<rparr> else s) zs"
      by (simp add: visit_entry_zone set_path_map [OF d])
    then show ?thesis unfolding step using Some by (simp add: zs_def zone_path_def)
  qed
qed

lemma initial_sensors_ok: "distinct (map ts_name initial_sensors)" "\<forall>s \<in> set initial_sensors. ts_path s = []"
  by (simp_all add: initial_sensors_def)

lemma cpu_usages_run:
  assumes "0 < clock_ticks E" and "8 \<le> length xs" and "fopen E PROC_STAT_PATH = Inr (bytes, err)"
  shows "\<exists>ys. get_cpu_usages E (Some xs) = Inr (8, Some ys) \<and> length ys = length xs
    \<and> (\<forall>i < length xs. ys ! i = (if i < 8 then usage_of E (stat_lines bytes err) i else xs ! i))
    \<and> is_online (ys ! 0)"
proof -
  let ?xs = "write_at xs 0 (map (cpu_entry E) [0..<8])"
  let ?ys = "foldl (stat_line (clock_ticks E)) ?xs (stat_lines bytes err)"
  have run: "get_cpu_usages E (Some xs) = Inr (8, Some ?ys)"
    using assms by (simp add: get_cpu_usages_def CPU_COUNT_def Let_def)
  have nth: "?xs ! i = (if i < 8 then cpu_entry E i else xs ! i)" if "i < length xs" for i
    using that assms(2) by (simp add: nth_write_at)
  have ys: "?ys ! i = (if i < 8 then usage_of E (stat_lines bytes err) i else ?xs ! i)" for i
    by (rule stat_lines_nth) (use assms(2) nth in auto)
  have "\<forall>i < length xs. ?ys ! i = (if i < 8 then usage_of E (stat_lines bytes err) i else xs ! i)"
    unfolding ys using nth by simp
  moreover have "is_online (?ys ! 0)"
    unfolding ys by (simp add: usage_of_def cpu_entry_def cpu_online_def split: option.split)
  ultimately show ?thesis
    using run by (intro exI [of _ ?ys]) simp
qed

section \<open>Properties\<close>

text \<open>
  C40: the temperatures. On the first call, the sensors are found: each reads the last thermal zone of the
  directory whose type is its name. Every call then returns 3 and fills the first entries of the array,
  as many as it has, up to 3, with the names of the sensors and the temperatures of their zones, the
  unknown temperature for a sensor without a zone or with an unreadable one; the other entries stay,
  and no call after the first looks at the directory again.
\<close>

theorem temperatures_of_zones:
  assumes "zone_entries E = Some es" and "search_once E thermal_start = st"
  shows "get_temperatures E (Some xs) (length xs) thermal_start = get_temperatures E (Some xs) (length xs) st
    \<and> (\<exists>ys. get_temperatures E' (Some xs) (length xs) st = Inr (3, Some ys, st) \<and> length ys = length xs
      \<and> (\<forall>i < length xs. ys ! i = (if i < 3
          then temperature_of E' ((initial_sensors ! i)\<lparr>ts_path := zone_path E es (ts_name (initial_sensors ! i))\<rparr>)
          else xs ! i)))"
proof -
  let ?ss = "map (\<lambda>s. s\<lparr>ts_path := zone_path E es (ts_name s)\<rparr>) initial_sensors"
  have st: "st = \<lparr>zone_sensors = ?ss, sensors_once = True\<rparr>"
    using assms visit_entries [OF initial_sensors_ok, of E es]
    by (simp add: search_once_def thermal_start_def find_temperature_sensors_def)
  then have once: "search_once D st = st" for D :: "'a thermal_env" by (simp add: search_once_def)
  have "get_temperatures E (Some xs) (length xs) thermal_start = get_temperatures E (Some xs) (length xs) st"
    by (simp add: get_temperatures_def assms(2) once)
  moreover have three: "length initial_sensors = 3" by (simp add: initial_sensors_def)
  then have len: "length (zone_sensors st) = 3" by (simp add: st)
  let ?n = "if length xs < 3 then length xs else 3"
  let ?ys = "write_at xs 0 (map (\<lambda>i. temperature_of E' (zone_sensors st ! i)) [0..<?n])"
  have "get_temperatures E' (Some xs) (length xs) st = Inr (3, Some ?ys, st)"
    by (simp only: get_temperatures_def once len Let_def option.case) simp
  moreover have "?ys ! i = (if i < 3 then temperature_of E' (zone_sensors st ! i) else xs ! i)"
    if "i < length xs" for i
    using that by (simp add: nth_write_at)
  moreover have "zone_sensors st ! i = (initial_sensors ! i)\<lparr>ts_path := zone_path E es (ts_name (initial_sensors ! i))\<rparr>"
    if "i < 3" for i
    using that three by (simp add: st)
  ultimately show ?thesis
    by (intro conjI exI [of _ ?ys]) simp_all
qed

text \<open>Two zones, the first of another kind, for the witness; temperatures are read as numbers.\<close>

definition zone_env :: "int thermal_env" where
  "zone_env = \<lparr>fopen = (\<lambda>p. if p = ''/sys/devices/virtual/thermal/thermal_zone1/type'' then Inr (''gpu'' @ [newline], 0)
       else if p = ''/sys/devices/virtual/thermal/thermal_zone1/temp'' then Inr (''4'', 0) else Inl 2),
     zone_entries = Some [''.'', ''thermal_zone0'', ''thermal_zone1''], clock_ticks = 100,
     scan_float = (\<lambda>s. if s = ''4'' then Some 4 else None), UNKNOWN_TEMPERATURE = -1\<rparr>"

definition zone0 :: "int temperature_t" where
  "zone0 = temperature_of zone_env (hd initial_sensors)"

lemma zone_env_gpu: "zone_path zone_env [''.'', ''thermal_zone0'', ''thermal_zone1''] ''gpu''
    = ''/sys/devices/virtual/thermal/thermal_zone1/temp''"
  by (simp add: zone_path_def zone_type_def zone_env_def starts_with_prefix_def THERMAL_ZONE_PREFIX_def
      read_string_def zone_file_def snprintf_def THERMAL_DIR_def MAX_PATH_LENGTH_def MAX_TYPE_LENGTH_def
      hits_end_def newline_def nul_def carriage_return_def Let_def numeral_eq_Suc)

theorem temperatures_of_zones_witness:
  "\<exists>ys st. get_temperatures zone_env (Some (replicate 4 zone0)) 4 thermal_start = Inr (3, Some ys, st)
     \<and> current_value (ys ! 2) = 4 \<and> ys ! 3 = zone0"
proof -
  obtain st where st: "search_once zone_env thermal_start = st" by simp
  have z: "zone_entries zone_env = Some [''.'', ''thermal_zone0'', ''thermal_zone1'']"
    by (simp add: zone_env_def)
  from temperatures_of_zones [OF z st, of "replicate 4 zone0" zone_env] obtain ys
    where run: "get_temperatures zone_env (Some (replicate 4 zone0)) 4 thermal_start = Inr (3, Some ys, st)"
      and ys: "\<forall>i < 4. ys ! i = (if i < 3 then temperature_of zone_env ((initial_sensors ! i)\<lparr>ts_path :=
        zone_path zone_env [''.'', ''thermal_zone0'', ''thermal_zone1''] (ts_name (initial_sensors ! i))\<rparr>)
          else replicate 4 zone0 ! i)"
    by auto
  have "ys ! 3 = zone0" using ys [rule_format, of 3] by simp
  moreover have "initial_sensors ! 2 = \<lparr>ts_name = ''gpu'', ts_type = DEVICE_TEMPERATURE_GPU, ts_path = []\<rparr>"
    by (simp add: initial_sensors_def)
  then have "current_value (ys ! 2) = 4"
    using ys [rule_format, of 2] zone_env_gpu
    by (simp add: temperature_of_def read_temperature_def) (simp add: zone_env_def)
  ultimately show ?thesis using run by blast
qed

text \<open>A file with two processors and one more line, for the witnesses.\<close>

definition two_rows :: "(nat \<times> nat list) list" where
  "two_rows = [(0, [10, 0, 20, 300, 5, 0, 0, 0, 0, 0]), (3, [2, 1, 0, 7, 0, 0, 0, 0])]"

definition idle_entry :: cpu_usage_t where
  "idle_entry = \<lparr>cu_name = [], active = 0, total = 0, is_online = False\<rparr>"

definition stat_env :: "unit thermal_env" where
  "stat_env = \<lparr>fopen = (\<lambda>p. if p = PROC_STAT_PATH
       then Inr (concat (map (\<lambda>l. l @ [newline]) (kernel_lines [12, 1, 20, 307, 5, 0, 0, 0] two_rows))
         @ ''btime 5'' @ [newline], 0) else Inl 2),
     zone_entries = None, clock_ticks = 100, scan_float = (\<lambda>_. None), UNKNOWN_TEMPERATURE = ()\<rparr>"

lemma stat_env_simps: "0 < clock_ticks stat_env" "clock_ticks stat_env < 2 ^ 63" "clock_ticks stat_env = 100"
  "fopen stat_env PROC_STAT_PATH = Inr (concat (map (\<lambda>l. l @ [newline])
     (kernel_lines [12, 1, 20, 307, 5, 0, 0, 0] two_rows)) @ ''btime 5'' @ [newline], 0)"
  by (simp_all add: stat_env_def)

lemma two_rows_ok: "rows_ok two_rows" "counters_ok [12, 1, 20, 307, 5, 0, 0, 0]"
  by (simp_all add: rows_ok_def two_rows_def counters_ok_def total_ticks_def active_ticks_def)

lemma btime_line: "\<forall>l \<in> set (fgets_all 510 (''btime 5'' @ [newline])). parse_stat l = None"
proof -
  have "fgets_all 510 (''btime 5'' @ newline # []) = (''btime 5'' @ [newline]) # fgets_all 510 []"
    by (rule fgets_all_line) (simp_all add: newline_def)
  moreover have "parse_stat (''btime 5'' @ [newline]) = None"
    by (simp add: parse_stat_def c_str_def nul_def newline_def scan_word_def Let_def c_isspace_def
        split: option.split)
  ultimately show ?thesis by (simp add: fgets_all.simps [of 510 "[]"])
qed

text \<open>
  C38: the processor times agree with their reference. When the clock rate is positive and the file
  can be opened, the result is 8 and entry \<open>cpu\<close> of the array shows the last line of the file that
  names this processor with all eight counters, in milliseconds, or zeros when there is none; lines
  that do not parse and entries past the eighth have no effect, and processor 0 is online.
\<close>

theorem cpu_usages_reference:
  assumes "0 < clock_ticks E" and "8 \<le> length xs" and "fopen E PROC_STAT_PATH = Inr (bytes, err)"
  shows "\<exists>ys. get_cpu_usages E (Some xs) = Inr (8, Some ys) \<and> length ys = length xs
    \<and> (\<forall>i < length xs. ys ! i = (if i < 8 then usage_of E (stat_lines bytes err) i else xs ! i))
    \<and> is_online (ys ! 0)"
  by (rule cpu_usages_run [OF assms])

theorem cpu_usages_reference_witness:
  "\<exists>ys. get_cpu_usages stat_env (Some (replicate 8 idle_entry)) = Inr (8, Some ys) \<and> length ys = 8 \<and> is_online (ys ! 0)"
  using cpu_usages_reference [OF stat_env_simps(1) _ stat_env_simps(4), of "replicate 8 idle_entry"] by auto

text \<open>
  C39: the processor times of a file as the kernel writes it. The file starts with the sum of all
  processors and one line for each processor that runs, with eight to ten 64-bit counters, followed
  by lines that do not parse. Then entry \<open>cpu\<close> shows exactly the active and the total time of its
  line in milliseconds, active is at most total, and the other processors show zeros.
\<close>

theorem cpu_usages_of_kernel_file:
  assumes "0 < clock_ticks E" and "clock_ticks E < 2 ^ 63" and "8 \<le> length xs"
    and "fopen E PROC_STAT_PATH = Inr (concat (map (\<lambda>l. l @ [newline]) (kernel_lines all rows)) @ rest, 0)"
    and "counters_ok all" and "rows_ok rows"
    and "\<forall>l \<in> set (fgets_all 510 rest). parse_stat l = None"
  shows "\<exists>ys. get_cpu_usages E (Some xs) = Inr (8, Some ys)
    \<and> (\<forall>(cpu, vs) \<in> set rows. unat (active (ys ! cpu)) = 1000 * active_ticks vs div nat (clock_ticks E)
        \<and> unat (total (ys ! cpu)) = 1000 * total_ticks vs div nat (clock_ticks E)
        \<and> active (ys ! cpu) \<le> total (ys ! cpu))
    \<and> (\<forall>cpu < 8. cpu \<notin> fst ` set rows \<longrightarrow> active (ys ! cpu) = 0 \<and> total (ys ! cpu) = 0)"
proof -
  let ?lines = "stat_lines (concat (map (\<lambda>l. l @ [newline]) (kernel_lines all rows)) @ rest) 0"
  obtain ys where run: "get_cpu_usages E (Some xs) = Inr (8, Some ys)"
    and ys: "\<And>i. i < 8 \<Longrightarrow> ys ! i = usage_of E ?lines i"
    using cpu_usages_run [OF assms(1,3,4)] assms(3) by auto
  have dist: "distinct (map fst rows)"
    and rows: "\<And>cpu vs. (cpu, vs) \<in> set rows \<Longrightarrow> cpu < 8 \<and> 1000 * total_ticks vs < 2 ^ 64"
    using assms(6) by (auto simp: rows_ok_def)
  note usage = usage_of_rows [OF parsed_file [OF assms(5,6,7)] dist]
  have "unat (active (ys ! cpu)) = 1000 * active_ticks vs div nat (clock_ticks E)
      \<and> unat (total (ys ! cpu)) = 1000 * total_ticks vs div nat (clock_ticks E)
      \<and> active (ys ! cpu) \<le> total (ys ! cpu)" if "(cpu, vs) \<in> set rows" for cpu vs
  proof -
    have "ys ! cpu = (cpu_entry E cpu)\<lparr>active := to_millis (clock_ticks E) (of_nat (active_ticks vs)),
        total := to_millis (clock_ticks E) (of_nat (total_ticks vs))\<rparr>"
      using ys [of cpu] usage(1) [OF that, of E] rows [OF that] by simp
    with to_millis_mono [OF assms(1,2), of vs] rows [OF that] show ?thesis by simp
  qed
  moreover have "active (ys ! cpu) = 0 \<and> total (ys ! cpu) = 0" if "cpu < 8" "cpu \<notin> fst ` set rows" for cpu
    using usage(2) [OF that(2), of E] ys [OF that(1)] by (simp add: cpu_entry_def)
  ultimately show ?thesis using run by (intro exI [of _ ys]) auto
qed

theorem cpu_usages_of_kernel_file_witness:
  "\<exists>ys. get_cpu_usages stat_env (Some (replicate 8 idle_entry)) = Inr (8, Some ys)
     \<and> unat (active (ys ! 0)) = 300 \<and> unat (total (ys ! 0)) = 3350 \<and> total (ys ! 1) = 0"
proof -
  from cpu_usages_of_kernel_file [OF stat_env_simps(1,2) _ stat_env_simps(4) two_rows_ok(2,1) btime_line,
      of "replicate 8 idle_entry"]
  obtain ys where run: "get_cpu_usages stat_env (Some (replicate 8 idle_entry)) = Inr (8, Some ys)"
    and rows: "\<forall>(cpu, vs) \<in> set two_rows. unat (active (ys ! cpu)) = 1000 * active_ticks vs div nat (clock_ticks stat_env)
        \<and> unat (total (ys ! cpu)) = 1000 * total_ticks vs div nat (clock_ticks stat_env)
        \<and> active (ys ! cpu) \<le> total (ys ! cpu)"
    and rest: "\<forall>cpu < 8. cpu \<notin> fst ` set two_rows \<longrightarrow> active (ys ! cpu) = 0 \<and> total (ys ! cpu) = 0"
    by auto
  have "unat (active (ys ! 0)) = 300 \<and> unat (total (ys ! 0)) = 3350"
    using rows by (simp add: two_rows_def stat_env_simps(3) total_ticks_def active_ticks_def)
  moreover have "total (ys ! 1) = 0" using rest [rule_format, of 1] by (simp add: two_rows_def)
  ultimately show ?thesis using run by blast
qed

end
