(* ===== verification/Legacy_Shims.thy ===== *)
theory Legacy_Shims
  imports C_Text
begin

text \<open>
  The small shims that keep the vendor's Android 6 binaries running, \<open>libshims/gui/Fence.cpp\<close>,
  \<open>GraphicBufferMapper.cpp\<close>, \<open>GraphicBuffer.cpp\<close> and \<open>libshims/libshim_log.cpp\<close>, and the loader tool
  \<open>dlopener/dlopen.c\<close>. What they call in the system libraries is a parameter.
\<close>

section \<open>Fence\<close>

text \<open>
  The memory of a fence as 32-bit words, the reference count and the descriptor first, and the
  descriptors closed so far. \<open>close\<close> gives the descriptor back whatever it returns.
\<close>

definition fence_destructor :: "int list \<times> int list \<Rightarrow> c_fault + int list \<times> int list" where
  "fence_destructor st = (let (fence, closed) = st in
     if length fence < 2 then Inl OutOfBounds
     else if fence ! 1 \<ge> 0 then Inr (fence[1 := -1], closed @ [fence ! 1])
     else Inr (fence, closed))"

section \<open>Registering buffers\<close>

text \<open>
  \<open>hw_get_module\<close> gives a status and the module it stores; a module has a legacy callback for
  registering and one for unregistering a buffer, or null.
\<close>

record ('m, 'h, 'w) gralloc_env =
  hw_get_module :: "'w \<Rightarrow> int \<times> 'm option"
  registerBuffer :: "'m \<Rightarrow> ('h \<Rightarrow> 'w \<Rightarrow> int \<times> 'w) option"
  unregisterBuffer :: "'m \<Rightarrow> ('h \<Rightarrow> 'w \<Rightarrow> int \<times> 'w) option"

definition get_gralloc_module :: "('m, 'h, 'w) gralloc_env \<Rightarrow> 'w \<Rightarrow> 'm option" where
  "get_gralloc_module E w = (let (status, module) = hw_get_module E w in if status \<noteq> 0 then None else module)"

definition register_legacy :: "('m, 'h, 'w) gralloc_env \<Rightarrow> 'h \<Rightarrow> 'w \<Rightarrow> int \<times> 'w" where
  "register_legacy E handle w = (case get_gralloc_module E w of None \<Rightarrow> (- ENODEV, w)
     | Some module \<Rightarrow> (case registerBuffer E module of None \<Rightarrow> (- ENODEV, w) | Some f \<Rightarrow> f handle w))"

definition unregister_legacy :: "('m, 'h, 'w) gralloc_env \<Rightarrow> 'h \<Rightarrow> 'w \<Rightarrow> int \<times> 'w" where
  "unregister_legacy E handle w = (case get_gralloc_module E w of None \<Rightarrow> (- ENODEV, w)
     | Some module \<Rightarrow> (case unregisterBuffer E module of None \<Rightarrow> (- ENODEV, w) | Some f \<Rightarrow> f handle w))"

section \<open>Constructors of graphic buffers\<close>

text \<open>The two constructors of today's \<open>GraphicBuffer\<close>, which build an object \<open>'b\<close>.\<close>

record ('h, 'b) graphic_buffer_api =
  construct_named :: "32 word \<Rightarrow> 32 word \<Rightarrow> int \<Rightarrow> 32 word \<Rightarrow> string \<Rightarrow> 'b"
  construct_handle :: "32 word \<Rightarrow> 32 word \<Rightarrow> int \<Rightarrow> 32 word \<Rightarrow> 32 word \<Rightarrow> 32 word \<Rightarrow> 'h \<Rightarrow> bool \<Rightarrow> 'b"

definition graphic_buffer_ctor_size_legacy ::
    "('h, 'b) graphic_buffer_api \<Rightarrow> 32 word \<Rightarrow> 32 word \<Rightarrow> int \<Rightarrow> 32 word \<Rightarrow> 'b" where
  "graphic_buffer_ctor_size_legacy G width height format usage =
     construct_named G width height format usage ''mozart-camera''"

definition graphic_buffer_ctor_handle_legacy ::
    "('h, 'b) graphic_buffer_api \<Rightarrow> 32 word \<Rightarrow> 32 word \<Rightarrow> int \<Rightarrow> 32 word \<Rightarrow> 32 word \<Rightarrow> 'h \<Rightarrow> bool \<Rightarrow> 'b" where
  "graphic_buffer_ctor_handle_legacy G width height format usage stride handle keep_ownership =
     construct_handle G width height format 1 usage stride handle keep_ownership"

section \<open>Logging\<close>

definition android_janklog_print :: int where
  "android_janklog_print = 0"

section \<open>The loader tool\<close>

text \<open>
  \<open>main\<close> of \<open>dlopener\<close>. \<open>dlopen\<close> tells whether a library could be loaded, \<open>dlerror\<close> is its message or null.
  The result is the status and what was printed.
\<close>

definition dlopener_main :: "(string \<Rightarrow> bool) \<Rightarrow> string option \<Rightarrow> string list \<Rightarrow> int \<times> string" where
  "dlopener_main dlopen dlerror argv =
     (let status = - EINVAL
      in if length argv \<le> 1 then (status, ''Please specify a module to load!'' @ [newline])
         else let path = argv ! 1
              in if \<not> dlopen path
                 then (- EINVAL, ''load: module='' @ path @ [newline]
                   @ (case dlerror of None \<Rightarrow> ''unknown'' | Some err_str \<Rightarrow> err_str) @ [newline])
                 else (status, ''load: module='' @ path @ '' Success!'' @ [newline]))"

section \<open>Properties\<close>

text \<open>
  The descriptor of a fence is closed exactly once. The destructor closes the descriptor of a
  complete object if it has one, marks the object as empty and changes nothing else of it; run again
  on the object, in any further number of runs, it closes nothing.
\<close>

theorem fence_closed_once:
  assumes "2 \<le> length fence"
  shows "\<exists>fence'. fence_destructor (fence, closed) = Inr (fence', closed @ (if 0 \<le> fence ! 1 then [fence ! 1] else []))
    \<and> fence' ! 1 < 0 \<and> length fence' = length fence \<and> (\<forall>i. i \<noteq> 1 \<longrightarrow> fence' ! i = fence ! i)
    \<and> ((\<lambda>r. case r of Inl e \<Rightarrow> Inl e | Inr st \<Rightarrow> fence_destructor st) ^^ n) (Inr (fence', closed'))
        = Inr (fence', closed')"
proof -
  let ?f = "if 0 \<le> fence ! 1 then fence[1 := -1] else fence"
  have f: "2 \<le> length ?f" "?f ! 1 < 0" using assms by simp_all
  then have "fence_destructor (?f, closed') = Inr (?f, closed')" by (simp add: fence_destructor_def)
  then have "((\<lambda>r. case r of Inl e \<Rightarrow> Inl e | Inr st \<Rightarrow> fence_destructor st) ^^ n) (Inr (?f, closed'))
      = Inr (?f, closed')"
    by (induction n) simp_all
  with f assms show ?thesis by (intro exI [of _ ?f]) (simp add: fence_destructor_def)
qed

theorem fence_closed_once_witness:
  "\<exists>fence'. fence_destructor ([1, 7], []) = Inr (fence', [7]) \<and> fence' ! 1 < 0"
  using fence_closed_once [of "[1, 7]" "[]" 0 "[]"] by auto

text \<open>
  The status of the loader is the same error whether the library was loaded or not; only the text
  tells them apart.
\<close>

theorem dlopener_status: "fst (dlopener_main dlopen dlerror argv) = - EINVAL"
  by (simp add: dlopener_main_def Let_def)

end
