(* ===== verification/Audio_Hal.thy ===== *)
theory Audio_Hal
  imports Mozart_Prelude
begin

text \<open>
  The interface of the audio HAL, \<open>include/hardware/audio.h\<close>: the tables of methods of streams and devices
  as records of functions, and the functions the header defines, which compute the size of a frame
  and open and close a device through the tables. Other code fills the tables, so every function takes
  the table it calls through.
\<close>

section \<open>Types of other headers\<close>

text \<open>
  Structures and floating point numbers that the header only passes on are types without a structure.
  Masks, formats, devices and handles are the integers of \<open>system/audio.h\<close>.
\<close>

typedecl effect_handle_t

typedecl c_float

typedecl audio_mmap_buffer_info

typedecl audio_mmap_position

typedecl audio_microphone_characteristic_t

typedecl playback_track_metadata

typedecl record_track_metadata

typedecl audio_config

typedecl audio_port_config

typedecl audio_port

type_synonym audio_format_t = "32 word"

type_synonym audio_channel_mask_t = "32 word"

type_synonym audio_devices_t = "32 word"

type_synonym size_t = "64 word"

text \<open>
  A method reads and changes the state \<open>'w\<close> that is reached through its object; one that returns through
  a pointer gives the status first and then what it stored.
\<close>

type_synonym ('w, 'a) entry = "'w \<Rightarrow> 'a \<times> 'w"

type_synonym ('w, 'a) out_method = "'w \<Rightarrow> (int \<times> 'a) \<times> 'w"

section \<open>Streams\<close>

record 'w audio_stream =
  as_get_sample_rate :: "('w, 32 word) entry"
  as_set_sample_rate :: "32 word \<Rightarrow> ('w, int) entry"
  as_get_buffer_size :: "('w, size_t) entry"
  as_get_channels :: "('w, audio_channel_mask_t) entry"
  as_get_format :: "('w, audio_format_t) entry"
  as_set_format :: "audio_format_t \<Rightarrow> ('w, int) entry"
  as_standby :: "('w, int) entry"
  as_dump :: "int \<Rightarrow> ('w, int) entry"
  as_get_device :: "('w, audio_devices_t) entry"
  as_set_device :: "audio_devices_t \<Rightarrow> ('w, int) entry"
  as_set_parameters :: "string \<Rightarrow> ('w, int) entry"
  as_get_parameters :: "string \<Rightarrow> ('w, string) entry"
  as_add_audio_effect :: "effect_handle_t \<Rightarrow> ('w, int) entry"
  as_remove_audio_effect :: "effect_handle_t \<Rightarrow> ('w, int) entry"

datatype stream_callback_event_t =
    STREAM_CBK_EVENT_WRITE_READY
  | STREAM_CBK_EVENT_DRAIN_READY
  | STREAM_CBK_EVENT_ERROR

text \<open>A callback with its cookie.\<close>

type_synonym 'w stream_callback_t = "stream_callback_event_t \<Rightarrow> ('w, int) entry"

datatype audio_drain_type_t = AUDIO_DRAIN_ALL | AUDIO_DRAIN_EARLY_NOTIFY

text \<open>The number of tracks is the length of the array.\<close>

record source_metadata =
  source_tracks :: "playback_track_metadata list"

record sink_metadata =
  sink_tracks :: "record_track_metadata list"

record 'w audio_stream_out =
  out_common :: "'w audio_stream"
  out_get_latency :: "('w, 32 word) entry"
  out_set_volume :: "c_float \<Rightarrow> c_float \<Rightarrow> ('w, int) entry"
  out_write :: "8 word list \<Rightarrow> ('w, int) entry"
  out_get_render_position :: "('w, 32 word) out_method"
  out_get_next_write_timestamp :: "('w, 64 word) out_method"
  out_set_callback :: "'w stream_callback_t \<Rightarrow> ('w, int) entry"
  out_pause :: "('w, int) entry"
  out_resume :: "('w, int) entry"
  out_drain :: "audio_drain_type_t \<Rightarrow> ('w, int) entry"
  out_flush :: "('w, int) entry"
  out_get_presentation_position :: "('w, 64 word \<times> (int \<times> int)) out_method"
  out_start :: "('w, int) entry"
  out_stop :: "('w, int) entry"
  out_create_mmap_buffer :: "int \<Rightarrow> ('w, audio_mmap_buffer_info) out_method"
  out_get_mmap_position :: "('w, audio_mmap_position) out_method"
  out_update_source_metadata :: "source_metadata \<Rightarrow> ('w, unit) entry"

record 'w audio_stream_in =
  in_common :: "'w audio_stream"
  in_set_gain :: "c_float \<Rightarrow> ('w, int) entry"
  in_read :: "size_t \<Rightarrow> ('w, 8 word list) out_method"
  in_get_input_frames_lost :: "('w, 32 word) entry"
  in_get_capture_position :: "('w, int \<times> int) out_method"
  in_start :: "('w, int) entry"
  in_stop :: "('w, int) entry"
  in_create_mmap_buffer :: "int \<Rightarrow> ('w, audio_mmap_buffer_info) out_method"
  in_get_mmap_position :: "('w, audio_mmap_position) out_method"
  in_get_active_microphones :: "size_t \<Rightarrow> ('w, audio_microphone_characteristic_t list \<times> size_t) out_method"
  in_update_sink_metadata :: "sink_metadata \<Rightarrow> ('w, unit) entry"

section \<open>Frame sizes\<close>

text \<open>The functions of \<open>system/audio.h\<close> as a parameter; sizes are 64-bit.\<close>

record audio_env =
  audio_has_proportional_frames :: "audio_format_t \<Rightarrow> bool"
  audio_bytes_per_sample :: "audio_format_t \<Rightarrow> size_t"
  audio_channel_count_from_out_mask :: "audio_channel_mask_t \<Rightarrow> size_t"
  audio_channel_count_from_in_mask :: "audio_channel_mask_t \<Rightarrow> size_t"

definition popcount :: "32 word \<Rightarrow> size_t" where
  "popcount w = of_nat (length (filter (bit w) [0..<32]))"

text \<open>The three functions differ in how they count the channels of the mask.\<close>

definition audio_stream_frame_size :: "audio_env \<Rightarrow> 'w audio_stream \<Rightarrow> ('w, size_t) entry" where
  "audio_stream_frame_size A s w =
     (let (fmt, w) = as_get_format s w
      in if audio_has_proportional_frames A fmt
         then let chan_samp_sz = audio_bytes_per_sample A fmt;
                  (channels, w) = as_get_channels s w
              in (popcount channels * chan_samp_sz, w)
         else (1, w))"

definition audio_stream_out_frame_size :: "audio_env \<Rightarrow> 'w audio_stream_out \<Rightarrow> ('w, size_t) entry" where
  "audio_stream_out_frame_size A s w =
     (let (fmt, w) = as_get_format (out_common s) w
      in if audio_has_proportional_frames A fmt
         then let chan_samp_sz = audio_bytes_per_sample A fmt;
                  (channels, w) = as_get_channels (out_common s) w
              in (audio_channel_count_from_out_mask A channels * chan_samp_sz, w)
         else (1, w))"

definition audio_stream_in_frame_size :: "audio_env \<Rightarrow> 'w audio_stream_in \<Rightarrow> ('w, size_t) entry" where
  "audio_stream_in_frame_size A s w =
     (let (fmt, w) = as_get_format (in_common s) w
      in if audio_has_proportional_frames A fmt
         then let chan_samp_sz = audio_bytes_per_sample A fmt;
                  (channels, w) = as_get_channels (in_common s) w
              in (audio_channel_count_from_in_mask A channels * chan_samp_sz, w)
         else (1, w))"

section \<open>Devices\<close>

text \<open>
  Devices of version 2.0 and later leave \<open>get_supported_devices\<close> null, and a HAL without a master volume or
  a master mute leaves these getters null.
\<close>

record 'w audio_hw_device =
  ahw_close :: "('w, int) entry"
  ahw_get_supported_devices :: "('w, 32 word) entry option"
  ahw_init_check :: "('w, int) entry"
  ahw_set_voice_volume :: "c_float \<Rightarrow> ('w, int) entry"
  ahw_set_master_volume :: "c_float \<Rightarrow> ('w, int) entry"
  ahw_get_master_volume :: "('w, c_float) out_method option"
  ahw_set_mode :: "int \<Rightarrow> ('w, int) entry"
  ahw_set_mic_mute :: "bool \<Rightarrow> ('w, int) entry"
  ahw_get_mic_mute :: "('w, bool) out_method"
  ahw_set_parameters :: "string \<Rightarrow> ('w, int) entry"
  ahw_get_parameters :: "string \<Rightarrow> ('w, string) entry"
  ahw_get_input_buffer_size :: "audio_config \<Rightarrow> ('w, size_t) entry"
  ahw_open_output_stream :: "int \<Rightarrow> audio_devices_t \<Rightarrow> 32 word \<Rightarrow> audio_config \<Rightarrow> string
    \<Rightarrow> ('w, audio_config \<times> 'w audio_stream_out option) out_method"
  ahw_close_output_stream :: "'w audio_stream_out \<Rightarrow> ('w, unit) entry"
  ahw_open_input_stream :: "int \<Rightarrow> audio_devices_t \<Rightarrow> audio_config \<Rightarrow> 32 word \<Rightarrow> string \<Rightarrow> int
    \<Rightarrow> ('w, audio_config \<times> 'w audio_stream_in option) out_method"
  ahw_close_input_stream :: "'w audio_stream_in \<Rightarrow> ('w, unit) entry"
  ahw_dump :: "int \<Rightarrow> ('w, int) entry"
  ahw_set_master_mute :: "bool \<Rightarrow> ('w, int) entry"
  ahw_get_master_mute :: "('w, bool) out_method option"
  ahw_create_audio_patch :: "audio_port_config list \<Rightarrow> audio_port_config list \<Rightarrow> ('w, int) out_method"
  ahw_release_audio_patch :: "int \<Rightarrow> ('w, int) entry"
  ahw_get_audio_port :: "audio_port \<Rightarrow> ('w, audio_port) out_method"
  ahw_set_audio_port_config :: "audio_port_config \<Rightarrow> ('w, int) entry"
  ahw_get_microphones :: "size_t \<Rightarrow> ('w, audio_microphone_characteristic_t list \<times> size_t) out_method"

definition AUDIO_HARDWARE_MODULE_ID :: string where
  "AUDIO_HARDWARE_MODULE_ID = ''audio''"

definition AUDIO_HARDWARE_INTERFACE :: string where
  "AUDIO_HARDWARE_INTERFACE = ''audio_hw_if''"

text \<open>
  A module is its \<open>open\<close> method, which takes the name of the interface and gives a status and the device
  it stored.
\<close>

record 'w audio_module =
  am_open :: "string \<Rightarrow> ('w, 'w audio_hw_device option) out_method"

definition audio_hw_device_open :: "'w audio_module \<Rightarrow> ('w, 'w audio_hw_device option) out_method" where
  "audio_hw_device_open module w = am_open module AUDIO_HARDWARE_INTERFACE w"

definition audio_hw_device_close :: "'w audio_hw_device \<Rightarrow> ('w, int) entry" where
  "audio_hw_device_close device w = ahw_close device w"

section \<open>What the functions promise\<close>

text \<open>
  The frame size of an output stream: whatever the methods do to the state, it is the number of
  channels times the sample size for formats with a fixed frame, and one byte for all others, and
  the channels are only asked for in the first case.
\<close>

lemma audio_stream_out_frame_size_cases:
  assumes "as_get_format (out_common s) w = (fmt, w1)" and "as_get_channels (out_common s) w1 = (channels, w2)"
  shows "audio_stream_out_frame_size A s w =
    (if audio_has_proportional_frames A fmt
     then (audio_channel_count_from_out_mask A channels * audio_bytes_per_sample A fmt, w2) else (1, w1))"
  using assms by (simp add: audio_stream_out_frame_size_def)

text \<open>
  The deprecated function agrees with the one for output streams on every mask whose channels are its
  bits, as those of position masks are.
\<close>

lemma frame_size_position_mask:
  assumes "\<And>m. audio_channel_count_from_out_mask A m = popcount m"
  shows "audio_stream_out_frame_size A s = audio_stream_frame_size A (out_common s)"
  by (rule ext) (simp add: audio_stream_out_frame_size_def audio_stream_frame_size_def assms Let_def case_prod_beta)

end
