(* ===== verification/Gui_Headers.thy ===== *)
theory Gui_Headers
  imports Mozart_Prelude
begin

text \<open>
  What the headers in \<open>libshims/gui/include\<close> lay down of the classes of the sensor library: the members of
  their objects, the methods of their interfaces, and the few functions they define in line. The other
  functions are in the library of the platform.
\<close>

section \<open>Sensor.h\<close>

text \<open>The values of the NDK's \<open>ASENSOR_TYPE_\<close> constants are a parameter.\<close>

record asensor_types =
  ASENSOR_TYPE_ACCELEROMETER :: int
  ASENSOR_TYPE_MAGNETIC_FIELD :: int
  ASENSOR_TYPE_GYROSCOPE :: int
  ASENSOR_TYPE_LIGHT :: int
  ASENSOR_TYPE_PROXIMITY :: int

datatype sensor_type =
    TYPE_ACCELEROMETER
  | TYPE_MAGNETIC_FIELD
  | TYPE_GYROSCOPE
  | TYPE_LIGHT
  | TYPE_PROXIMITY

fun sensor_type_value :: "asensor_types \<Rightarrow> sensor_type \<Rightarrow> int" where
  "sensor_type_value T TYPE_ACCELEROMETER = ASENSOR_TYPE_ACCELEROMETER T"
| "sensor_type_value T TYPE_MAGNETIC_FIELD = ASENSOR_TYPE_MAGNETIC_FIELD T"
| "sensor_type_value T TYPE_GYROSCOPE = ASENSOR_TYPE_GYROSCOPE T"
| "sensor_type_value T TYPE_LIGHT = ASENSOR_TYPE_LIGHT T"
| "sensor_type_value T TYPE_PROXIMITY = ASENSOR_TYPE_PROXIMITY T"

text \<open>
  \<open>uuid_t\<close> is a union of 16 bytes and two 64-bit integers, here the bytes; \<open>uuid_i64\<close> reads an integer out
  of them in the byte order of the processor, which is little-endian.
\<close>

record uuid_t =
  uuid_b :: "8 word list"

definition uuid_new :: "8 word list \<Rightarrow> uuid_t c_result" where
  "uuid_new uuid = (if length uuid < 16 then Inl OutOfBounds else Inr \<lparr>uuid_b = take 16 uuid\<rparr>)"

definition uuid_zero :: uuid_t where
  "uuid_zero = \<lparr>uuid_b = replicate 16 0\<rparr>"

definition uuid_i64 :: "uuid_t \<Rightarrow> nat \<Rightarrow> 64 word" where
  "uuid_i64 u k = word_of_int (horner_sum uint (2 ^ 8) (take 8 (drop (8 * k) (uuid_b u))))"

record 'f Sensor =
  mName :: string
  mVendor :: string
  mHandle :: int
  mType :: int
  mMinValue :: 'f
  mMaxValue :: 'f
  mResolution :: 'f
  mPower :: 'f
  mMinDelay :: int
  mVersion :: int
  mFifoReservedEventCount :: "32 word"
  mFifoMaxEventCount :: "32 word"
  mStringType :: string
  mRequiredPermission :: string
  mRequiredPermissionRuntime :: bool
  mRequiredAppOp :: int
  mMaxDelay :: int
  mFlags :: "32 word"
  mUuid :: uuid_t

text \<open>A flattened sensor has no fixed size.\<close>

definition isFixedSize :: bool where
  "isFixedSize = False"

section \<open>BitTube.h\<close>

record bit_tube =
  mSendFd :: int
  mReceiveFd :: int

text \<open>
  Sending and receiving arrays of objects of one type passes the bytes of the array, their number and the
  size of an object to the functions for untyped objects, which are a parameter.
\<close>

definition sendObjects :: "('t \<Rightarrow> 8 word list) \<Rightarrow> nat \<Rightarrow> (bit_tube \<Rightarrow> 8 word list \<Rightarrow> nat \<Rightarrow> nat \<Rightarrow> 'w \<Rightarrow> int \<times> 'w)
    \<Rightarrow> bit_tube \<Rightarrow> 't list \<Rightarrow> nat \<Rightarrow> 'w \<Rightarrow> int \<times> 'w" where
  "sendObjects bytes_of sizeof_T send_untyped tube events count w =
     send_untyped tube (concat (map bytes_of events)) count sizeof_T w"

definition recvObjects :: "(8 word list \<Rightarrow> 't list) \<Rightarrow> nat \<Rightarrow> (bit_tube \<Rightarrow> nat \<Rightarrow> nat \<Rightarrow> 'w \<Rightarrow> int \<times> 8 word list \<times> 'w)
    \<Rightarrow> bit_tube \<Rightarrow> nat \<Rightarrow> 'w \<Rightarrow> int \<times> 't list \<times> 'w" where
  "recvObjects of_bytes sizeof_T recv_untyped tube count w =
     (let (n, bytes, w) = recv_untyped tube count sizeof_T w in (n, of_bytes bytes, w))"

section \<open>ISensorEventConnection.h\<close>

record 'w sensor_event_connection =
  getSensorChannel :: "'w \<Rightarrow> bit_tube \<times> 'w"
  enableDisable :: "int \<Rightarrow> bool \<Rightarrow> int \<Rightarrow> int \<Rightarrow> int \<Rightarrow> 'w \<Rightarrow> int \<times> 'w"
  con_setEventRate :: "int \<Rightarrow> int \<Rightarrow> 'w \<Rightarrow> int \<times> 'w"
  con_flush :: "'w \<Rightarrow> int \<times> 'w"

section \<open>SensorEventQueue.h\<close>

definition WAKE_UP_SENSOR_EVENT_NEEDS_ACK :: "32 word" where
  "WAKE_UP_SENSOR_EVENT_NEEDS_ACK = push_bit 31 1"

definition MAX_RECEIVE_BUFFER_EVENT_COUNT :: int where "MAX_RECEIVE_BUFFER_EVENT_COUNT = 256"

text \<open>Typical delays in microseconds.\<close>

definition SENSOR_DELAY_FASTEST :: int where "SENSOR_DELAY_FASTEST = 0"

definition SENSOR_DELAY_GAME :: int where "SENSOR_DELAY_GAME = 20000"

definition SENSOR_DELAY_UI :: int where "SENSOR_DELAY_UI = 66667"

definition SENSOR_DELAY_NORMAL :: int where "SENSOR_DELAY_NORMAL = 200000"

text \<open>The queue of a client: its connection, channel, looper and receive buffer.\<close>

record ('w, 'l, 'e) client_event_queue =
  mSensorEventConnection :: "'w sensor_event_connection option"
  mSensorChannel :: "bit_tube option"
  mLooper :: "'l option"
  mRecBuffer :: "'e list option"
  mAvailable :: nat
  mConsumed :: nat
  mNumAcksToSend :: "32 word"

section \<open>Lemmas\<close>

lemma uuid_zero_i64: "k < 2 \<Longrightarrow> uuid_i64 uuid_zero k = 0"
proof -
  have "horner_sum uint (2 ^ 8) (replicate n (0 :: 8 word)) = 0" for n
    by (induction n) simp_all
  then show ?thesis by (simp add: uuid_i64_def uuid_zero_def)
qed

text \<open>A new identifier has exactly the 16 bytes it was given.\<close>

lemma uuid_new_bytes: "uuid_new uuid = Inr u \<Longrightarrow> length (uuid_b u) = 16 \<and> uuid_b u = take 16 uuid"
  by (auto simp: uuid_new_def split: if_splits)

text \<open>What is sent is the bytes of the objects, so as many as the untyped function is told when every
  object has the size of its type.\<close>

lemma sendObjects_bytes:
  assumes "\<forall>e \<in> set events. length (bytes_of e) = sizeof_T" and "length events = count"
  shows "sendObjects bytes_of sizeof_T (\<lambda>tube bytes n size w. (int (length bytes), w)) tube events count w
    = (int (count * sizeof_T), w)"
proof -
  have "length (concat (map bytes_of events)) = length events * sizeof_T"
    using assms(1) by (induction events) simp_all
  then show ?thesis using assms(2) by (simp add: sendObjects_def)
qed

end
