(* ===== verification/Spec2Isabelle.thy ===== *)
theory Spec2Isabelle
  imports Sensor_System Mac_Addr Power_Liveness Health_Board Vendor_Init Camera_Metadata
    Sensor_Server Sensor_Manager Thermal_Hal Legacy_Shims Audio_Hal Gui_Headers
begin

text \<open>
  Verification of the native code of the device tree \<open>src/device/huawei/mozart\<close> (Huawei MediaPad M2):
  the sensors multi-HAL, the MAC address service, the power, thermal and health HALs, the vendor init
  library, and the shims that connect the vendor's Android 6 binaries to today's libraries.

  \<^bold>\<open>The program and its parts.\<close>

  \<^item> \<open>sensors\<close>. \<open>multihal.cpp\<close> presents several sub-HALs as one sensors device. \<open>open_sensors\<close> reads a
    configuration, loads and opens a sub-HAL for each line and starts a writer thread for each;
    the list of sensors is collected on first request, with a global handle for each pair of module
    and local handle. Requests on global handles are passed on; events come back through a circular
    queue for each sub-HAL (\<open>SensorEventQueue.cpp\<close>), filled outside the mutex and drained by \<open>poll\<close>.
  \<^item> \<open>macaddr\<close> makes sure that the address files of Bluetooth and Wi-Fi hold a usable address.
  \<^item> \<open>power\<close> raises and restores the clock limits; a worker thread ends each boost at its deadline.
    \<open>thermal\<close> and \<open>health\<close> read and scale values of the kernel, \<open>libinit\<close> sets properties of the product.
  \<^item> \<open>libshims/gui\<close>. \<open>SensorManager.cpp\<close> keeps the connection of a camera client to the sensor service,
    \<open>ISensorServer.cpp\<close> is both ends of its binder interface, \<open>CameraMetadata.cpp\<close>, \<open>Fence.cpp\<close>,
    \<open>GraphicBuffer.cpp\<close> and \<open>GraphicBufferMapper.cpp\<close> provide entry points that today's libraries lack.

  \<^bold>\<open>Theories.\<close> Definitions keep the names of the source and stand in its order.

  \<^item> \<open>Mozart_Prelude\<close>: C integers (\<open>s32\<close>, \<open>s64\<close> bring a result to its width), faults as values, arrays
    written by index, and the contracts shared by components as locales: a bounded queue
    (\<open>bounded_fifo\<close>, provided by the ring of \<open>Event_Queue\<close>), a transition system with an invariant
    (\<open>inductive_invariant\<close>, provided by \<open>Sensor_Threads\<close> and \<open>Power_Hal\<close>), and a component that serves
    requests and keeps its invariant (\<open>request_server\<close>, provided by \<open>Sensor_Manager\<close> and \<open>Sensor_Device\<close>).
  \<^item> \<open>Fair_Runs\<close>: infinite runs, weak fairness and, as the locale \<open>fair_progress\<close>, the rule that a rank
    which the fair action decreases and no step increases leads to the goal; \<open>Sensor_Liveness\<close> and
    \<open>Power_Liveness\<close> interpret it on the threads of the two HALs.
  \<^item> \<open>C_Text\<close>: the text functions of the C library that the code uses, executable: white space and
    digits, numbers with their saturation, words, \<open>fgets\<close>, and that numbers written are read back.
  \<^item> \<open>Event_Queue\<close>: \<open>SensorEventQueue\<close> as a record of its members; the ring refines a bounded
    first-in first-out queue, and its arithmetic does not overflow.
  \<^item> \<open>Sensor_Handles\<close>: \<open>global_to_full\<close>, \<open>full_to_global\<close>, \<open>next_global_handle\<close> and their bijection.
  \<^item> \<open>Sensors_Types\<close>: the structures exchanged with sub-HALs; constants of \<open>sensors.h\<close> are a parameter.
  \<^item> \<open>Sensor_Poll\<close>: translation of events, the scan of the queues, \<open>poll\<close>.
  \<^item> \<open>Sensor_Device\<close>: activate, setDelay, batch, flush, inject and close of the device. A sub-HAL is a
    function from the calls made so far to an answer, so all calls are recorded with their arguments.
  \<^item> \<open>Sensor_Init\<close>: configuration, loading, opening and the list of sensors.
  \<^item> \<open>Sensor_Threads\<close>: writers, sub-HALs and the reader as a step relation. A step is one section under
    \<open>queue_mutex\<close> or one store of a sub-HAL into its region; spurious wake-ups are allowed.
  \<^item> \<open>Sensor_Liveness\<close>: the round over the queues starves no sub-HAL. \<open>Sensor_Stack\<close>: the threads of an opened
    device, running with the handle tables that the first request of the list has filled in.
    \<open>Sensor_System\<close>: the process and its threads as one transition system, in which list requests, calls
    of the device and steps of the threads interleave; what holds of the threads alone is lifted to it.
  \<^item> \<open>Mac_Addr\<close>: \<open>mac_addr_normalization.cpp\<close>. A script gives the outcome of every system call (failure,
    interruption, short transfer), so the theorems hold whichever calls fail.
  \<^item> \<open>Power_Hal\<close>: \<open>power.c\<close>, the callers and the worker as a step relation; \<open>Power_Liveness\<close>: the worker
    takes the boost back at last.
  \<^item> \<open>Thermal_Hal\<close>: \<open>thermal.c\<close>, with the reading of \<open>/proc/stat\<close> written out to the character.
  \<^item> \<open>Health_Board\<close>: \<open>HealthService.cpp\<close>. \<open>Vendor_Init\<close>: \<open>init_huawei_hi3635.cpp\<close>.
  \<^item> \<open>Camera_Metadata\<close>: \<open>CameraMetadata.cpp\<close> with an explicit heap of buffers and their owners.
  \<^item> \<open>Sensor_Server\<close>: \<open>ISensorServer.cpp\<close>; \<open>Sensor_Manager\<close>: \<open>SensorManager.cpp\<close>, with the array handed to
    clients and the storage it points into.
  \<^item> \<open>Legacy_Shims\<close>: the small shims and the loader tool. \<open>Audio_Hal\<close>: the tables of methods of \<open>audio.h\<close> and
    the functions it defines. \<open>Gui_Headers\<close>: the classes of the sensor library as its headers lay them out.

  \<^bold>\<open>What the theorems show.\<close> This theory composes components. For every reachable
  state of the whole multi-HAL, with all its threads and requests interleaved: nothing moves before the
  list is known, requests on listed handles are served and reach the right sub-HAL, every event that
  arrives is genuine and named as in the list, and every event of a listed sensor arrives. A client of the
  sensor manager gets through both ends of the binder interface exactly the list of the service. The
  sensor theories show that events are delivered in order in every interleaving, that no wake-up is lost,
  that the region a sub-HAL fills is private to it, that requests reach the right sub-HAL, and what
  happens on unknown handles, missing configurations, repeated opens and after closing.
  \<open>Mac_Addr\<close> shows that files are replaced completely or not at all and that the exit status
  can be trusted. \<open>Power_Hal\<close> and \<open>Power_Liveness\<close> show that every boost ends
  and leaves the normal values, that low-power mode prevents boosts, and that a restore can undo a newer
  boost. \<open>Thermal_Hal\<close> shows agreement with a reference that looks up the last line of each
  processor, and exact results on files as the kernel writes them. \<open>Camera_Metadata\<close> shows
  that each buffer always has one owner and that the object refines a map from tags to entries.
  \<open>Sensor_Manager\<close> shows that the list of the clients always names the sensors of the
  manager, and what makes it abort.

  \<^bold>\<open>Bounds and fuel.\<close> Queues have any capacity up to \<open>2 ^ 30\<close> (the code uses 36), so sums of positions fit
  in \<open>int\<close>. The scan of \<open>poll\<close> is a \<open>while_option\<close> with a measure; \<open>poll\<close> returns \<open>None\<close> while it waits, and
  theorems say when it returns. Retries in \<open>Mac_Addr\<close> run along the script of outcomes, which is finite,
  and calls after its end succeed. Liveness is stated for infinite runs in which the reader of \<open>poll\<close>
  calls again after each return and a signalled or timed-out wait ends; nothing relies on spurious
  wake-ups or on the fairness of the other threads. The manager makes 60 attempts, as in the code. The clock of
  \<open>Power_Hal\<close> stays far enough below the range of \<open>time_t\<close> that a deadline is representable. Long
  integers have 64 bits; \<open>size_t\<close> has 32 in the camera shim, which is built for 32 bits.

  \<^bold>\<open>Not modelled.\<close> Log output; the contents of libraries outside the repository (parcels,
  \<open>libcamera_metadata\<close>, gralloc, the dynamic linker, service managers), which are parameters with their
  documented behaviour as named hypotheses; the conversion of text to \<open>float\<close>; memory exhaustion of
  \<open>new\<close>; mutexes that protect whole functions and are never held across a wait (\<open>init_modules_mutex\<close>,
  \<open>init_sensors_mutex\<close>, \<open>mLock\<close>, \<open>sLock\<close>). What only the headers declare: the functions of the
  sensor library that the platform implements, and the methods of the audio HAL, of which there are the
  types. The patches, policies, scripts, makefiles and build configuration headers are data for other
  programs, and the camera legacy library has one variable and no code.
\<close>

section \<open>The sensor stack\<close>









section \<open>From the sensor manager to the service\<close>

text \<open>
  C5: a camera client reads the list of the service through the whole stack of shims. The manager has no
  connection yet or its service no longer answers the ping, the service appears within 60 attempts, and
  there is memory for the array. When the service is the stub over a transport that delivers to
  the skeleton of a service, the manager returns exactly the sensors that the service lists for the
  manager's package, and the effect on the service is that of the one call. Any later request is answered
  from what the manager has kept, as long as the service answers the ping: with the same pointer and
  number, and without another call.
\<close>

theorem list_through_binder:
  fixes E :: "('v, 'w, 's, 'c) binder_env"
  assumes "parcel_ok P" and "lists_fit S" and "service E v = bp_service P (direct P S other)"
    and "disconnected E m" and "appears E k v" and "malloc_ok E"
    and "srv_list S (mOpPackageName m) w = (sensors, w1)"
  shows "\<exists>a m'. manager_getSensorList E old m w = Inr (G_List (int (length sensors)) (Some a), m', w1)
    \<and> map_option (map (\<lambda>p. sensor_at m' p)) (arrays m' a) = Some (map Inr sensors)
    \<and> (\<forall>(E' :: ('v, 'w, 's, 'c) binder_env) old' w'. ping E' v = NO_ERROR \<longrightarrow>
        manager_getSensorList E' old' m' w' = Inr (G_List (int (length sensors)) (Some a), m', w'))"
proof -
  let ?m = "store_list sensors (m\<lparr>mSensorServer := Some v, mDeathObserver := Some v\<rparr>)"
  have "service E v = S" unfolding assms(3) by (rule bp_service_direct [OF assms(1,2)])
  then have "assertStateLocked E m w = Inr (NO_ERROR, ?m, w1)"
    using assertStateLocked_connect [OF assms(4-6), of w] assms(7) by simp
  moreover have "assertStateLocked E' ?m w' = Inr (NO_ERROR, ?m, w')" if "ping E' v = NO_ERROR"
    for E' :: "('v, 'w, 's, 'c) binder_env" and w'
    by (rule assertStateLocked_alive [of _ v]) (simp_all add: that)
  moreover have "map_option (map (\<lambda>p. sensor_at ?m p)) (arrays ?m (next_address m)) = Some (map Inr sensors)"
    by (auto simp: store_list_def Let_def sensor_at_def intro: nth_equalityI)
  ultimately show ?thesis
    by (intro exI [of _ "next_address m"] exI [of _ ?m]) (simp add: manager_getSensorList_def NO_ERROR_def)
qed

theorem list_through_binder_witness:
  "\<exists>a m'. manager_getSensorList \<lparr>ping = (\<lambda>_. 0), get_service = (\<lambda>_. (NO_ERROR, Some ())), malloc_ok = True,
       service = (\<lambda>_. bp_service list_parcel (direct list_parcel
         \<lparr>srv_list = (\<lambda>_ w. ([5, 6], w)), srv_dynamic = (\<lambda>_ w. ([], w)), srv_connect = (\<lambda>_ _ _ w. (w, w)),
          srv_injection = (\<lambda>w. (1, w))\<rparr> (\<lambda>_ _ r w. (0, r, w))))\<rparr>
     None (blank_manager ''app'') (7 :: nat) = Inr (G_List 2 (Some a), m', 7)"
proof -
  let ?S = "\<lparr>srv_list = (\<lambda>_ w. ([5, 6], w)), srv_dynamic = (\<lambda>_ w. ([], w)), srv_connect = (\<lambda>_ _ _ w. (w, w)),
      srv_injection = (\<lambda>w. (1, w))\<rparr> :: (nat, nat, nat) sensor_service"
  let ?E = "\<lparr>ping = (\<lambda>_. 0), get_service = (\<lambda>_. (NO_ERROR, Some ())), malloc_ok = True,
       service = (\<lambda>_. bp_service list_parcel (direct list_parcel ?S (\<lambda>_ _ r w. (0, r, w))))\<rparr>
     :: (unit, nat, nat, nat) binder_env"
  have "lists_fit ?S" by (simp add: lists_fit_def)
  moreover have "disconnected ?E (blank_manager ''app'')" by (simp add: disconnected_def blank_manager_def)
  moreover have "appears ?E 0 ()" by (simp add: appears_def)
  ultimately show ?thesis
    using list_through_binder [OF list_parcel_ok, of ?S ?E "()" "\<lambda>_ _ r w. (0, r, w)" "blank_manager ''app''" 0 7 "[5, 6]" 7 None]
    by fastforce
qed

end
